(* ===== verification/KV_Prelude.thy ===== *)
theory KV_Prelude
  imports Main "HOL-Library.Word"
begin

text \<open>
  Shared vocabulary of the development: C strings, \<open>size_t\<close> arithmetic where it can
  wrap, undefined behaviour as a value, the position of an element in a chain, and the
  generic theory of a hash table with separate chaining. Both hash tables of the program
  (the store's bucket array in \<^verbatim>\<open>src/kv.c\<close> and the member table of a set value in
  \<^verbatim>\<open>src/set.c\<close>) are instances of the locale \<open>chained_hash\<close> at the end.
\<close>

unbundle bit_operations_syntax

named_theorems frame \<open>which parts of the state an operation leaves alone\<close>
named_theorems wf_intro \<open>operations keep the store invariant\<close>

section \<open>Machine-level vocabulary\<close>

text \<open>A possibly null \<^verbatim>\<open>const char *\<close>: \<open>None\<close> is the null pointer, \<open>Some s\<close> a
  pointer to the bytes \<open>s\<close> followed by a terminator.\<close>

type_synonym cstr = "string option"

text \<open>Bytes up to the first terminator: what the string functions of C see of a buffer.\<close>

definition c_str :: "char list \<Rightarrow> string" where
  "c_str bs = takeWhile (\<lambda>c. c \<noteq> CHR 0x00) bs"

text \<open>\<open>size_t\<close> is 64 bits wide. Sums of sizes of objects that are live at the same time
  cannot wrap and are written with \<open>+\<close> on \<open>nat\<close>; products with a count chosen by the
  caller and subtractions are written with their wrap-around.\<close>

definition sz_mul :: "nat \<Rightarrow> nat \<Rightarrow> nat" where
  "sz_mul a b = (a * b) mod 2 ^ 64"

definition sz_sub :: "nat \<Rightarrow> nat \<Rightarrow> nat" where
  "sz_sub a b = (if b \<le> a then a - b else (a + 2 ^ 64 - b) mod 2 ^ 64)"

lemma sz_sub_le [simp]: "b \<le> a \<Longrightarrow> sz_sub a b = a - b"
  by (simp add: sz_sub_def)

lemma sz_mul_small [simp]: "a * b < 2 ^ 64 \<Longrightarrow> sz_mul a b = a * b"
  by (simp add: sz_mul_def)

lemma sz_mul_le: "sz_mul a b \<le> a * b"
  by (simp add: sz_mul_def)

text \<open>Conversion of a \<open>size_t\<close> to the 32-bit \<open>int\<close> the public functions return.\<close>

definition c_int :: "nat \<Rightarrow> int" where
  "c_int n = sint (word_of_nat n :: 32 word)"

lemma c_int_small [simp]:
  assumes "n < 2 ^ 31"
  shows "c_int n = int n"
proof -
  have "signed_take_bit 31 (int n) = int n"
    using assms by (intro signed_take_bit_int_eq_self) auto
  then show ?thesis
    by (simp add: c_int_def signed_of_nat)
qed

text \<open>Where the C program would have undefined behaviour, the model stops with the reason.\<close>

datatype undefined_behaviour =
  Use_After_Free | Buffer_Overflow | Signed_Overflow | Uninitialised_Read | Null_Dereference

section \<open>Chains\<close>

text \<open>A collision chain is a list, head first; a node of it is addressed by its position.\<close>

fun find_pos :: "('e \<Rightarrow> bool) \<Rightarrow> 'e list \<Rightarrow> nat option" where
  "find_pos P [] = None"
| "find_pos P (x # xs) = (if P x then Some 0 else map_option Suc (find_pos P xs))"

lemma find_pos_Some:
  "find_pos P xs = Some p \<Longrightarrow> p < length xs \<and> P (xs ! p) \<and> (\<forall>q<p. \<not> P (xs ! q))"
proof (induction xs arbitrary: p)
  case Nil
  then show ?case by simp
next
  case (Cons x xs)
  show ?case
  proof (cases "P x")
    case True
    with Cons.prems show ?thesis by simp
  next
    case False
    with Cons.prems obtain r where "find_pos P xs = Some r" and "p = Suc r"
      by auto
    with False Cons.IH [of r] show ?thesis
      by (auto simp: nth_Cons split: nat.splits)
  qed
qed

lemma find_pos_None: "find_pos P xs = None \<longleftrightarrow> (\<forall>x\<in>set xs. \<not> P x)"
  by (induction xs) auto

lemma find_eq_find_pos: "find P xs = map_option (nth xs) (find_pos P xs)"
  by (induction xs) (auto simp: option.map_comp comp_def)

definition remove_nth :: "nat \<Rightarrow> 'e list \<Rightarrow> 'e list" where
  "remove_nth p xs = take p xs @ drop (Suc p) xs"

lemma remove_nth_0 [simp]: "remove_nth 0 (x # xs) = xs"
  by (simp add: remove_nth_def)

lemma remove_nth_Suc [simp]: "remove_nth (Suc p) (x # xs) = x # remove_nth p xs"
  by (simp add: remove_nth_def)

lemma length_remove_nth: "p < length xs \<Longrightarrow> length (remove_nth p xs) = length xs - 1"
  by (simp add: remove_nth_def)

lemma set_remove_nth_subset: "set (remove_nth p xs) \<subseteq> set xs"
  by (auto simp: remove_nth_def dest: in_set_takeD in_set_dropD)

lemma map_remove_nth: "map f (remove_nth p xs) = remove_nth p (map f xs)"
  by (simp add: remove_nth_def take_map drop_map)

lemma distinct_remove_nth: "distinct xs \<Longrightarrow> distinct (remove_nth p xs)"
proof (induction xs arbitrary: p)
  case Nil
  then show ?case by (simp add: remove_nth_def)
next
  case (Cons x xs)
  then show ?case
    using set_remove_nth_subset [of _ xs] by (cases p) auto
qed

lemma sum_list_remove_nth:
  fixes f :: "'e \<Rightarrow> nat"
  shows "p < length xs \<Longrightarrow> sum_list (map f xs) = f (xs ! p) + sum_list (map f (remove_nth p xs))"
proof (induction xs arbitrary: p)
  case Nil
  then show ?case by simp
next
  case (Cons x xs)
  then show ?case by (cases p) auto
qed

lemma sum_list_update_nat:
  fixes f :: "'e \<Rightarrow> nat"
  shows "p < length xs \<Longrightarrow>
    sum_list (map f (xs[p := e])) + f (xs ! p) = sum_list (map f xs) + f e"
proof (induction xs arbitrary: p)
  case Nil
  then show ?case by simp
next
  case (Cons x xs)
  then show ?case by (cases p) (auto simp: ac_simps)
qed

lemma find_append:
  "find P (xs @ ys) = (case find P xs of None \<Rightarrow> find P ys | Some x \<Rightarrow> Some x)"
  by (induction xs) auto

lemma find_remove_nth:
  assumes "distinct (map f xs)" and "p < length xs"
  shows "find (\<lambda>e. f e = k) (remove_nth p xs) =
    (if k = f (xs ! p) then None else find (\<lambda>e. f e = k) xs)"
  using assms
proof (induction xs arbitrary: p)
  case Nil
  then show ?case by simp
next
  case (Cons x xs)
  show ?case
  proof (cases p)
    case 0
    moreover from Cons.prems have "find (\<lambda>e. f e = f x) xs = None"
      by (auto simp: find_None_iff rev_image_eqI)
    ultimately show ?thesis by auto
  next
    case (Suc q)
    with Cons.prems have "f (xs ! q) \<in> set (map f xs)"
      by simp
    with Cons.prems have "f x \<noteq> f (xs ! q)"
      by auto
    with Suc Cons show ?thesis by auto
  qed
qed

lemma find_list_update:
  assumes "distinct (map f xs)" and "p < length xs" and "f e = f (xs ! p)"
  shows "find (\<lambda>e. f e = k) (xs[p := e]) =
    (if k = f e then Some e else find (\<lambda>e. f e = k) xs)"
  using assms
proof (induction xs arbitrary: p)
  case Nil
  then show ?case by simp
next
  case (Cons x xs)
  show ?case
  proof (cases p)
    case 0
    with Cons.prems show ?thesis by auto
  next
    case (Suc q)
    with Cons.prems have "f (xs ! q) \<in> set (map f xs)"
      by simp
    with Cons.prems have "f x \<noteq> f (xs ! q)"
      by auto
    with Suc Cons show ?thesis by auto
  qed
qed

section \<open>Hash tables with separate chaining\<close>

text \<open>
  A bucket array \<open>bs\<close> is placed when every element sits in the bucket its key hashes to
  and no chain holds a key twice. \<open>table_find\<close> is the lookup every operation of the code
  performs: hash the key, walk one chain.
\<close>

definition placed :: "('k \<Rightarrow> nat \<Rightarrow> nat) \<Rightarrow> ('e \<Rightarrow> 'k) \<Rightarrow> 'e list list \<Rightarrow> bool" where
  "placed h f bs \<longleftrightarrow>
     (\<forall>i<length bs. \<forall>e\<in>set (bs ! i). h (f e) (length bs) = i) \<and>
     (\<forall>b\<in>set bs. distinct (map f b))"

definition table_find :: "('k \<Rightarrow> nat \<Rightarrow> nat) \<Rightarrow> ('e \<Rightarrow> 'k) \<Rightarrow> 'e list list \<Rightarrow> 'k \<Rightarrow> 'e option" where
  "table_find h f bs k = find (\<lambda>e. f e = k) (bs ! h k (length bs))"

definition push_at :: "nat \<Rightarrow> 'e \<Rightarrow> 'e list list \<Rightarrow> 'e list list" where
  "push_at i e bs = bs[i := e # bs ! i]"

definition remove_at :: "nat \<Rightarrow> nat \<Rightarrow> 'e list list \<Rightarrow> 'e list list" where
  "remove_at i p bs = bs[i := remove_nth p (bs ! i)]"

definition update_at :: "nat \<Rightarrow> nat \<Rightarrow> ('e \<Rightarrow> 'e) \<Rightarrow> 'e list list \<Rightarrow> 'e list list" where
  "update_at i p g bs = bs[i := (bs ! i)[p := g (bs ! i ! p)]]"

definition table_sum :: "('e \<Rightarrow> nat) \<Rightarrow> 'e list list \<Rightarrow> nat" where
  "table_sum w bs = sum_list (map (\<lambda>b. sum_list (map w b)) bs)"

lemma length_push_at [simp]: "length (push_at i e bs) = length bs"
  by (simp add: push_at_def)

lemma length_remove_at [simp]: "length (remove_at i p bs) = length bs"
  by (simp add: remove_at_def)

lemma length_update_at [simp]: "length (update_at i p g bs) = length bs"
  by (simp add: update_at_def)

lemma table_sum_push_at [simp]:
  "i < length bs \<Longrightarrow> table_sum w (push_at i e bs) = w e + table_sum w bs"
  using sum_list_update_nat [of i bs "\<lambda>b. sum_list (map w b)" "e # bs ! i"]
  by (simp add: table_sum_def push_at_def)

lemma table_sum_remove_at:
  assumes "i < length bs" and "p < length (bs ! i)"
  shows "table_sum w bs = w (bs ! i ! p) + table_sum w (remove_at i p bs)"
  using sum_list_update_nat [of i bs "\<lambda>b. sum_list (map w b)" "remove_nth p (bs ! i)"]
    sum_list_remove_nth [of p "bs ! i" w] assms
  by (simp add: table_sum_def remove_at_def)

lemma table_sum_update_at:
  assumes "i < length bs" and "p < length (bs ! i)"
  shows "table_sum w (update_at i p g bs) + w (bs ! i ! p) = table_sum w bs + w (g (bs ! i ! p))"
  using sum_list_update_nat
      [of i bs "\<lambda>b. sum_list (map w b)" "(bs ! i)[p := g (bs ! i ! p)]"]
    sum_list_update_nat [of p "bs ! i" w "g (bs ! i ! p)"] assms
  by (simp add: table_sum_def update_at_def)

lemma table_sum_replicate [simp]: "table_sum w (replicate n []) = 0"
  by (simp add: table_sum_def)

lemma table_sum_member_le:
  assumes "i < length bs" and "e \<in> set (bs ! i)"
  shows "w e \<le> table_sum w bs"
proof -
  from assms(2) have "w e \<le> sum_list (map w (bs ! i))"
    by (simp add: member_le_sum_list)
  also from assms(1) have "\<dots> \<le> table_sum w bs"
    unfolding table_sum_def by (intro member_le_sum_list) auto
  finally show ?thesis .
qed

lemma table_sum_all_empty: "\<forall>b\<in>set bs. b = [] \<Longrightarrow> table_sum w bs = 0"
  by (auto simp: table_sum_def)

lemma drop_eq_Cons:
  assumes "drop p xs = y # ys"
  shows "p < length xs" "xs ! p = y" "drop (Suc p) xs = ys"
proof -
  show p: "p < length xs"
    using assms by (metis drop_all list.discI not_le)
  then have "drop p xs = xs ! p # drop (Suc p) xs"
    by (simp add: Cons_nth_drop_Suc)
  with assms show "xs ! p = y" "drop (Suc p) xs = ys" by simp_all
qed

lemma sum_list_map_concat: "sum_list (map w (concat bs)) = table_sum w bs"
  by (induction bs) (auto simp: table_sum_def)

locale chained_hash =
  fixes h :: "'k \<Rightarrow> nat \<Rightarrow> nat" and f :: "'e \<Rightarrow> 'k"
  assumes h_less: "0 < n \<Longrightarrow> h k n < n"
begin

lemma placedD:
  assumes "placed h f bs" and "i < length bs" and "e \<in> set (bs ! i)"
  shows "h (f e) (length bs) = i"
  using assms by (auto simp: placed_def)

lemma placed_distinct: "placed h f bs \<Longrightarrow> i < length bs \<Longrightarrow> distinct (map f (bs ! i))"
  by (auto simp: placed_def)

lemma find_empty: "0 < n \<Longrightarrow> table_find h f (replicate n []) k = None"
  by (simp add: table_find_def h_less)

lemma placed_empty: "placed h f (replicate n [])"
  by (auto simp: placed_def)

lemma table_find_Some:
  assumes "table_find h f bs k = Some e" and "bs \<noteq> []"
  shows "f e = k \<and> e \<in> set (bs ! h k (length bs)) \<and> h k (length bs) < length bs"
  using assms h_less [of "length bs" k] by (auto simp: table_find_def find_Some_iff)

lemma table_find_at:
  assumes "placed h f bs" and "i < length bs" and "p < length (bs ! i)"
  shows "table_find h f bs (f (bs ! i ! p)) = Some (bs ! i ! p)"
proof -
  have "h (f (bs ! i ! p)) (length bs) = i"
    using assms by (intro placedD) auto
  moreover have "find (\<lambda>e. f e = f (bs ! i ! p)) (bs ! i) = Some (bs ! i ! p)"
    using find_list_update [of f "bs ! i" p "bs ! i ! p" "f (bs ! i ! p)"]
      placed_distinct [OF assms(1,2)] assms(3) by simp
  ultimately show ?thesis by (simp add: table_find_def)
qed

lemma placed_push:
  assumes "placed h f bs" and "bs \<noteq> []" and "table_find h f bs (f e) = None"
  shows "placed h f (push_at (h (f e) (length bs)) e bs)"
proof -
  let ?i = "h (f e) (length bs)"
  have i: "?i < length bs" using h_less assms(2) by auto
  have "distinct (map f (e # bs ! ?i))"
    using assms(3) placed_distinct [OF assms(1) i] by (auto simp: table_find_def find_None_iff)
  then have "\<forall>b\<in>set (push_at ?i e bs). distinct (map f b)"
    using assms(1) i by (auto simp: push_at_def placed_def dest!: set_update_subset_insert [THEN subsetD])
  moreover have "\<forall>j<length bs. \<forall>x\<in>set (push_at ?i e bs ! j). h (f x) (length bs) = j"
    using assms(1) i by (auto simp: push_at_def nth_list_update placed_def split: if_splits)
  ultimately show ?thesis by (simp add: placed_def)
qed

lemma find_push:
  assumes "bs \<noteq> []"
  shows "table_find h f (push_at (h (f e) (length bs)) e bs) k =
    (if k = f e then Some e else table_find h f bs k)"
  using assms h_less [of "length bs"] by (auto simp: table_find_def push_at_def nth_list_update)

lemma placed_remove:
  assumes "placed h f bs"
  shows "placed h f (remove_at i p bs)"
proof (cases "i < length bs")
  case True
  have "distinct (map f (remove_nth p (bs ! i)))"
    using placed_distinct [OF assms True] by (simp add: map_remove_nth distinct_remove_nth)
  then have "\<forall>b\<in>set (remove_at i p bs). distinct (map f b)"
    using assms by (auto simp: remove_at_def placed_def dest!: set_update_subset_insert [THEN subsetD])
  moreover have "\<forall>j<length bs. \<forall>x\<in>set (remove_at i p bs ! j). h (f x) (length bs) = j"
    using assms set_remove_nth_subset [of p "bs ! i"]
    by (auto simp: remove_at_def nth_list_update True placed_def split: if_splits)
  ultimately show ?thesis by (simp add: placed_def)
next
  case False
  then show ?thesis using assms by (simp add: remove_at_def list_update_beyond)
qed

lemma find_remove:
  assumes "placed h f bs" and "i < length bs" and "p < length (bs ! i)"
  shows "table_find h f (remove_at i p bs) k =
    (if k = f (bs ! i ! p) then None else table_find h f bs k)"
proof (cases "h k (length bs) = i")
  case True
  then show ?thesis
    using find_remove_nth [OF placed_distinct [OF assms(1,2)] assms(3)] assms(2)
    by (simp add: table_find_def remove_at_def)
next
  case False
  have "h (f (bs ! i ! p)) (length bs) = i" using assms by (intro placedD) auto
  with False show ?thesis by (auto simp: table_find_def remove_at_def)
qed

lemma placed_update:
  assumes "placed h f bs" and "i < length bs" and "p < length (bs ! i)"
    and "f (g (bs ! i ! p)) = f (bs ! i ! p)"
  shows "placed h f (update_at i p g bs)"
proof -
  have "map f ((bs ! i)[p := g (bs ! i ! p)]) = map f (bs ! i)"
    using assms(3,4) by (simp add: map_update list_update_same_conv)
  then have "\<forall>b\<in>set (update_at i p g bs). distinct (map f b)"
    using assms(1,2) placed_distinct [OF assms(1,2)]
    by (auto simp: update_at_def placed_def dest!: set_update_subset_insert [THEN subsetD])
  moreover have "h (f (bs ! i ! p)) (length bs) = i" using assms by (intro placedD) auto
  then have "\<forall>j<length bs. \<forall>x\<in>set (update_at i p g bs ! j). h (f x) (length bs) = j"
    using assms by (auto simp: update_at_def nth_list_update placed_def
        dest!: set_update_subset_insert [THEN subsetD])
  ultimately show ?thesis by (simp add: placed_def)
qed

lemma find_update:
  assumes "placed h f bs" and "i < length bs" and "p < length (bs ! i)"
    and "f (g (bs ! i ! p)) = f (bs ! i ! p)"
  shows "table_find h f (update_at i p g bs) k =
    (if k = f (bs ! i ! p) then Some (g (bs ! i ! p)) else table_find h f bs k)"
proof (cases "h k (length bs) = i")
  case True
  then show ?thesis
    using find_list_update [OF placed_distinct [OF assms(1,2)] assms(3,4)] assms(2,4)
    by (simp add: table_find_def update_at_def)
next
  case False
  have "h (f (bs ! i ! p)) (length bs) = i" using assms by (intro placedD) auto
  with False show ?thesis by (auto simp: table_find_def update_at_def)
qed

lemma distinct_concat_placed:
  assumes "placed h f bs"
  shows "distinct (map f (concat bs))"
proof -
  have "distinct (map f (concat (drop j bs)))" if "j \<le> length bs" for j
    using that
  proof (induction "length bs - j" arbitrary: j)
    case 0
    then show ?case by simp
  next
    case (Suc m)
    then have j: "j < length bs" by simp
    have "f x \<noteq> f y" if "x \<in> set (bs ! j)" and "y \<in> set (concat (drop (Suc j) bs))" for x y
    proof -
      from that(2) obtain b where "b \<in> set (drop (Suc j) bs)" and y: "y \<in> set b"
        by auto
      then obtain i where "i < length (drop (Suc j) bs)" and "drop (Suc j) bs ! i = b"
        by (metis in_set_conv_nth)
      then have "h (f y) (length bs) = Suc j + i"
        using y by (intro placedD [OF assms]) auto
      then show ?thesis using placedD [OF assms j that(1)] by auto
    qed
    then have "f ` set (bs ! j) \<inter> f ` set (concat (drop (Suc j) bs)) = {}"
      by blast
    moreover have "drop j bs = bs ! j # drop (Suc j) bs"
      using j by (simp add: Cons_nth_drop_Suc)
    ultimately show ?case
      using Suc placed_distinct [OF assms j] by (auto simp del: set_concat)
  qed
  from this [of 0] show ?thesis by simp
qed

lemma find_concat_placed:
  assumes "placed h f bs" and "bs \<noteq> []"
  shows "find (\<lambda>e. f e = k) (concat bs) = table_find h f bs k"
proof (cases "table_find h f bs k")
  case None
  have "f e \<noteq> k" if "e \<in> set (concat bs)" for e
  proof
    assume k: "f e = k"
    from that obtain i where i: "i < length bs" and e: "e \<in> set (bs ! i)"
      by (metis UN_E in_set_conv_nth set_concat)
    with k have "h k (length bs) = i" using placedD [OF assms(1) i e] by simp
    with e k None show False by (auto simp: table_find_def find_None_iff)
  qed
  then have "find (\<lambda>e. f e = k) (concat bs) = None"
    by (simp only: find_None_iff) blast
  with None show ?thesis by simp
next
  case (Some e)
  from table_find_Some [OF Some assms(2)] have e: "f e = k" "e \<in> set (concat bs)"
    by auto
  then obtain p where p: "p < length (concat bs)" "concat bs ! p = e"
    by (metis in_set_conv_nth)
  have "find (\<lambda>e. f e = k) ((concat bs)[p := concat bs ! p]) = Some (concat bs ! p)"
    using find_list_update [OF distinct_concat_placed [OF assms(1)] p(1) refl, of k] p e by simp
  then have "find (\<lambda>e. f e = k) (concat bs) = Some (concat bs ! p)"
    by (simp only: list_update_id)
  then show ?thesis using p(2) Some by simp
qed

lemma push_all:
  assumes "distinct (map f es)" and "placed h f bs" and "length bs = n" and "0 < n"
    and "\<And>e. e \<in> set es \<Longrightarrow> table_find h f bs (f e) = None"
  shows "placed h f (fold (\<lambda>e. push_at (h (f e) n) e) es bs) \<and>
    length (fold (\<lambda>e. push_at (h (f e) n) e) es bs) = n \<and>
    table_find h f (fold (\<lambda>e. push_at (h (f e) n) e) es bs) k =
      (case find (\<lambda>e. f e = k) es of None \<Rightarrow> table_find h f bs k | Some e \<Rightarrow> Some e) \<and>
    table_sum w (fold (\<lambda>e. push_at (h (f e) n) e) es bs) = table_sum w bs + sum_list (map w es)"
  using assms
proof (induction es arbitrary: bs)
  case Nil
  then show ?case by simp
next
  case (Cons e es)
  let ?bs = "push_at (h (f e) n) e bs"
  have ne: "bs \<noteq> []" and i: "h (f e) n < length bs" using Cons.prems h_less by auto
  have "placed h f ?bs" and "length ?bs = n"
    using placed_push [OF Cons.prems(2) ne Cons.prems(5) [of e]] Cons.prems(3) by auto
  moreover have fb: "table_find h f ?bs k' = (if k' = f e then Some e else table_find h f bs k')" for k'
    using find_push [OF ne, of e k'] Cons.prems(3) by simp
  then have "table_find h f ?bs (f x) = None" if "x \<in> set es" for x
    using that Cons.prems(1,5) by (auto simp: rev_image_eqI)
  moreover have "find (\<lambda>x. f x = f e) es = None"
    using Cons.prems(1) by (auto simp: find_None_iff rev_image_eqI)
  ultimately show ?case
    using Cons.IH [of ?bs] Cons.prems(1,2,4) Cons.prems(3) [symmetric] i
    by (auto simp: find_push [OF ne] split: option.splits)
qed

end

section \<open>First-in, first-out queues\<close>

text \<open>The contract of a queue with bounded room. The list values (push at the head, pop at the
  tail) and the ring buffer of the thread pool provide it.\<close>

fun drain :: "('q \<Rightarrow> ('a \<times> 'q) option) \<Rightarrow> nat \<Rightarrow> 'q \<Rightarrow> 'a list \<times> 'q" where
  "drain deq 0 q = ([], q)"
| "drain deq (Suc n) q =
     (case deq q of None \<Rightarrow> ([], q) | Some (x, q') \<Rightarrow> (case drain deq n q' of (xs, q'') \<Rightarrow> (x # xs, q'')))"

locale fifo =
  fixes inv :: "'q \<Rightarrow> bool" and full :: "'q \<Rightarrow> bool" and contents :: "'q \<Rightarrow> 'a list"
    and enq :: "'a \<Rightarrow> 'q \<Rightarrow> 'q" and deq :: "'q \<Rightarrow> ('a \<times> 'q) option"
  assumes enq_inv: "inv q \<Longrightarrow> \<not> full q \<Longrightarrow> inv (enq x q)"
    and enq_contents: "inv q \<Longrightarrow> \<not> full q \<Longrightarrow> contents (enq x q) = contents q @ [x]"
    and deq_None: "inv q \<Longrightarrow> deq q = None \<longleftrightarrow> contents q = []"
    and deq_Some: "inv q \<Longrightarrow> deq q = Some (x, q') \<Longrightarrow> inv q' \<and> contents q = x # contents q'"
begin

lemma drain_spec:
  assumes "inv q"
  shows "fst (drain deq n q) = take n (contents q)" "contents (snd (drain deq n q)) = drop n (contents q)"
    "inv (snd (drain deq n q))"
proof -
  have "fst (drain deq n q) = take n (contents q) \<and> contents (snd (drain deq n q)) = drop n (contents q) \<and>
    inv (snd (drain deq n q))"
    using assms
  proof (induction n arbitrary: q)
    case 0
    then show ?case by simp
  next
    case (Suc n)
    show ?case
    proof (cases "deq q")
      case None
      moreover from this have "contents q = []" using deq_None [OF Suc.prems] by blast
      ultimately show ?thesis using Suc.prems by simp
    next
      case (Some a)
      obtain x q' where a: "a = (x, q')" by fastforce
      with Some have "inv q'" "contents q = x # contents q'" using deq_Some [OF Suc.prems] by blast+
      with Some a Suc.IH [of q'] show ?thesis by (simp add: split_beta)
    qed
  qed
  then show "fst (drain deq n q) = take n (contents q)" "contents (snd (drain deq n q)) = drop n (contents q)"
    "inv (snd (drain deq n q))" by blast+
qed

lemma enq_all:
  assumes "inv q" and "\<And>n. n < length xs \<Longrightarrow> \<not> full (fold enq (take n xs) q)"
  shows "inv (fold enq xs q)" "contents (fold enq xs q) = contents q @ xs"
proof -
  have "inv (fold enq xs q) \<and> contents (fold enq xs q) = contents q @ xs"
    using assms
  proof (induction xs rule: rev_induct)
    case Nil
    then show ?case by simp
  next
    case (snoc x xs)
    have "\<not> full (fold enq (take n xs) q)" if "n < length xs" for n
      using snoc.prems(2) [of n] that by simp
    with snoc have IH: "inv (fold enq xs q)" "contents (fold enq xs q) = contents q @ xs" by blast+
    have "\<not> full (fold enq xs q)" using snoc.prems(2) [of "length xs"] by simp
    with IH enq_inv enq_contents show ?case by simp
  qed
  then show "inv (fold enq xs q)" "contents (fold enq xs q) = contents q @ xs" by blast+
qed

text \<open>Everything comes out once, in the order it went in.\<close>

lemma first_in_first_out:
  assumes "inv q" and "contents q = []" and "\<And>n. n < length xs \<Longrightarrow> \<not> full (fold enq (take n xs) q)"
  shows "fst (drain deq (length xs) (fold enq xs q)) = xs"
  using drain_spec(1) [OF enq_all(1) [OF assms(1,3)], of "length xs"] enq_all(2) [OF assms(1,3)] assms(2)
  by simp

end

end
