(* ===== verification/KV_Types.thy ===== *)
theory KV_Types
  imports KV_Prelude
begin

text \<open>
  The data of the store, from \<^verbatim>\<open>include/kv.h\<close> and \<^verbatim>\<open>include/replication.h\<close>: status codes,
  limits, the polymorphic values, the entries, and the store itself. The struct
  \<^verbatim>\<open>kv_store_t\<close> is split over two records, \<open>kv_store\<close> for the table and its accounting
  and \<open>aof_state\<close> for the persistence fields, so that each function touches one of them.
  \<open>world\<close> joins them with the process-wide variables and with what the C library and the
  operating system decide: clock readings, allocation results and I/O faults, each an
  arbitrary sequence indexed by how often it has been consulted.
\<close>

section \<open>Status codes and limits\<close>

abbreviation (input) KV_OK :: int where "KV_OK \<equiv> 0"
abbreviation (input) KV_ERR_NOT_FOUND :: int where "KV_ERR_NOT_FOUND \<equiv> 1"
abbreviation (input) KV_ERR_INTERNAL :: int where "KV_ERR_INTERNAL \<equiv> - 1"
abbreviation (input) KV_ERR_INVALID_PARAM :: int where "KV_ERR_INVALID_PARAM \<equiv> - 2"
abbreviation (input) KV_ERR_KEY_TOO_LONG :: int where "KV_ERR_KEY_TOO_LONG \<equiv> - 3"
abbreviation (input) KV_ERR_VAL_TOO_LONG :: int where "KV_ERR_VAL_TOO_LONG \<equiv> - 4"
abbreviation (input) KV_ERR_EMPTY_KEY :: int where "KV_ERR_EMPTY_KEY \<equiv> - 5"
abbreviation (input) KV_ERR_KEY_WHITESPACE :: int where "KV_ERR_KEY_WHITESPACE \<equiv> - 6"
abbreviation (input) KV_ERR_CAPACITY_FULL :: int where "KV_ERR_CAPACITY_FULL \<equiv> - 7"
abbreviation (input) KV_ERR_BUDGET_EXCEEDED :: int where "KV_ERR_BUDGET_EXCEEDED \<equiv> - 8"
abbreviation (input) KV_ERR_IO :: int where "KV_ERR_IO \<equiv> - 9"
abbreviation (input) KV_ERR_AGAIN :: int where "KV_ERR_AGAIN \<equiv> - 10"
abbreviation (input) KV_ERR_WRONG_TYPE :: int where "KV_ERR_WRONG_TYPE \<equiv> - 11"

abbreviation (input) KV_MAX_KEY_LEN :: nat where "KV_MAX_KEY_LEN \<equiv> 256"
abbreviation (input) KV_MAX_VALUE_LEN :: nat where "KV_MAX_VALUE_LEN \<equiv> 4096"
abbreviation (input) KV_DEFAULT_MAX_CAPACITY :: nat where "KV_DEFAULT_MAX_CAPACITY \<equiv> 0"
abbreviation (input) KV_DEFAULT_MEMORY_BUDGET :: nat where "KV_DEFAULT_MEMORY_BUDGET \<equiv> 0"
abbreviation (input) KV_LOAD_FACTOR_NUM :: nat where "KV_LOAD_FACTOR_NUM \<equiv> 3"
abbreviation (input) KV_LOAD_FACTOR_DEN :: nat where "KV_LOAD_FACTOR_DEN \<equiv> 4"
abbreviation (input) KV_DURABILITY_NONE :: int where "KV_DURABILITY_NONE \<equiv> 0"
abbreviation (input) KV_DURABILITY_FLUSH :: int where "KV_DURABILITY_FLUSH \<equiv> 1"
abbreviation (input) KV_DURABILITY_SYNC :: int where "KV_DURABILITY_SYNC \<equiv> 2"
abbreviation (input) KV_DEFAULT_NUM_LOCKS :: nat where "KV_DEFAULT_NUM_LOCKS \<equiv> 32"

text \<open>Object sizes on the 64-bit Linux targets of the Makefile (8-byte pointers, 4-byte enum).\<close>

abbreviation (input) sizeof_ptr :: nat where "sizeof_ptr \<equiv> 8"
abbreviation (input) sizeof_kv_entry :: nat where "sizeof_kv_entry \<equiv> 48"
abbreviation (input) sizeof_kv_list :: nat where "sizeof_kv_list \<equiv> 24"
abbreviation (input) sizeof_kv_list_node :: nat where "sizeof_kv_list_node \<equiv> 24"
abbreviation (input) sizeof_kv_set :: nat where "sizeof_kv_set \<equiv> 24"
abbreviation (input) sizeof_kv_set_node :: nat where "sizeof_kv_set_node \<equiv> 16"

section \<open>Values and entries\<close>

text \<open>The doubly linked list, head first, with its count.\<close>

record kv_list_t =
  l_nodes :: "string list"
  l_count :: nat

text \<open>The member table of a set, one chain per bucket.\<close>

record kv_set_t =
  s_buckets :: "string list list"
  s_bucket_count :: nat
  s_count :: nat

text \<open>The tag \<^verbatim>\<open>kv_type_t\<close> and the union it selects.\<close>

datatype kv_type = KV_TYPE_STRING | KV_TYPE_LIST | KV_TYPE_SET

datatype kv_value = VString string | VList kv_list_t | VSet kv_set_t

fun type_of :: "kv_value \<Rightarrow> kv_type" where
  "type_of (VString v) = KV_TYPE_STRING"
| "type_of (VList l) = KV_TYPE_LIST"
| "type_of (VSet t) = KV_TYPE_SET"

record kv_entry =
  e_key :: string
  e_value :: kv_value
  expire_at_ms :: int
  last_accessed_time :: "64 word"

abbreviation e_type :: "kv_entry \<Rightarrow> kv_type" where
  "e_type e \<equiv> type_of (e_value e)"

section \<open>The store\<close>

text \<open>A null \<open>buckets\<close> pointer is the empty array: a live array has at least one bucket.\<close>

record kv_store =
  buckets :: "kv_entry list list"
  bucket_count :: nat
  kv_size :: nat
  max_capacity :: nat
  allocated_bytes :: nat
  peak_allocated_bytes :: nat
  max_memory_budget :: nat
  auto_resize :: bool
  bucket_locks :: bool
  num_locks :: nat
  lock_initialized :: bool
  lru_clock :: "64 word"
  bgsave_pid :: int

text \<open>An open append stream: the bytes the file holds, the bytes stdio still buffers, the
  stream's offset and how much of the file has been synced.\<close>

record aof_stream =
  f_disk :: string
  f_buf :: string
  f_pos :: nat
  f_synced :: nat

record aof_state =
  aof_fp :: "aof_stream option"
  aof_path :: cstr
  durability_level :: int
  aof_rewrite_pid :: int
  aof_rewrite_buf :: cstr
  aof_rewrite_buf_len :: nat
  aof_rewrite_buf_cap :: nat

datatype replica_mode = REPLICA_MODE_NONE | REPLICA_MODE_MASTER | REPLICA_MODE_REPLICA

text \<open>\<open>sent\<close> is the history of what \<^verbatim>\<open>send\<close> accepted, newest first.\<close>

record replication_state =
  mode :: replica_mode
  master_host :: cstr
  master_port :: nat
  is_running :: bool
  replicas :: "int list"
  sent :: "(int \<times> string) list"
  closed_fds :: "int list"

record os_env =
  clock :: "nat \<Rightarrow> int"
  clock_reads :: nat
  malloc_ok :: "nat \<Rightarrow> bool"
  malloc_calls :: nat
  io_fault :: "nat \<Rightarrow> nat option"
  io_calls :: nat
  g_alloc_fail_countdown :: int
  g_io_fail :: bool
  g_xorshift_state :: "32 word"

text \<open>Mutexes, and the history of lock operations, newest first.\<close>

datatype mutex = Bucket_Lock nat | Aof_Lock | Replicas_Lock

datatype lock_event = Lock mutex | Unlock mutex

record world =
  st :: kv_store
  aof :: aof_state
  repl :: replication_state
  os :: os_env
  lock_trace :: "lock_event list"

type_synonym 'a result = "undefined_behaviour + 'a \<times> world"

abbreviation upd_st :: "(kv_store \<Rightarrow> kv_store) \<Rightarrow> world \<Rightarrow> world" where
  "upd_st g w \<equiv> w\<lparr>st := g (st w)\<rparr>"

abbreviation upd_aof :: "(aof_state \<Rightarrow> aof_state) \<Rightarrow> world \<Rightarrow> world" where
  "upd_aof g w \<equiv> w\<lparr>aof := g (aof w)\<rparr>"

section \<open>Allocation, time and locks\<close>

text \<open>\<^verbatim>\<open>tracked_malloc\<close> and \<^verbatim>\<open>tracked_calloc\<close>: the test hook counts down to one simulated
  failure, otherwise the C library decides; \<^verbatim>\<open>calloc\<close> also refuses a product that does not
  fit \<open>size_t\<close>.\<close>

definition libc_malloc :: "world \<Rightarrow> bool \<times> world" where
  "libc_malloc w = (malloc_ok (os w) (malloc_calls (os w)),
     w\<lparr>os := (os w)\<lparr>malloc_calls := Suc (malloc_calls (os w))\<rparr>\<rparr>)"

definition tracked_malloc :: "nat \<Rightarrow> world \<Rightarrow> bool \<times> world" where
  "tracked_malloc n w =
     (if g_alloc_fail_countdown (os w) = 0
      then (False, w\<lparr>os := (os w)\<lparr>g_alloc_fail_countdown := -1\<rparr>\<rparr>)
      else
        (let w1 = (if g_alloc_fail_countdown (os w) > 0
                   then w\<lparr>os := (os w)\<lparr>g_alloc_fail_countdown := g_alloc_fail_countdown (os w) - 1\<rparr>\<rparr>
                   else w)
         in libc_malloc w1))"

definition tracked_calloc :: "nat \<Rightarrow> nat \<Rightarrow> world \<Rightarrow> bool \<times> world" where
  "tracked_calloc num n w =
     (if g_alloc_fail_countdown (os w) = 0
      then (False, w\<lparr>os := (os w)\<lparr>g_alloc_fail_countdown := -1\<rparr>\<rparr>)
      else
        (let w1 = (if g_alloc_fail_countdown (os w) > 0
                   then w\<lparr>os := (os w)\<lparr>g_alloc_fail_countdown := g_alloc_fail_countdown (os w) - 1\<rparr>\<rparr>
                   else w);
             (ok, w2) = libc_malloc w1
         in (ok \<and> num * n < 2 ^ 64, w2)))"

definition kv_set_alloc_fail_countdown :: "int \<Rightarrow> world \<Rightarrow> world" where
  "kv_set_alloc_fail_countdown n w = w\<lparr>os := (os w)\<lparr>g_alloc_fail_countdown := n\<rparr>\<rparr>"

definition kv_set_io_fail :: "bool \<Rightarrow> world \<Rightarrow> world" where
  "kv_set_io_fail b w = w\<lparr>os := (os w)\<lparr>g_io_fail := b\<rparr>\<rparr>"

definition kv_current_time_ms :: "world \<Rightarrow> int \<times> world" where
  "kv_current_time_ms w = (clock (os w) (clock_reads (os w)),
     w\<lparr>os := (os w)\<lparr>clock_reads := Suc (clock_reads (os w))\<rparr>\<rparr>)"

definition mutex_lock :: "mutex \<Rightarrow> world \<Rightarrow> world" where
  "mutex_lock m w = w\<lparr>lock_trace := Lock m # lock_trace w\<rparr>"

definition mutex_unlock :: "mutex \<Rightarrow> world \<Rightarrow> world" where
  "mutex_unlock m w = w\<lparr>lock_trace := Unlock m # lock_trace w\<rparr>"

text \<open>No simulated and no real allocation failure is due.\<close>

definition no_oom :: "world \<Rightarrow> bool" where
  "no_oom w \<longleftrightarrow> g_alloc_fail_countdown (os w) < 0 \<and> (\<forall>n. malloc_ok (os w) n)"

lemma libc_malloc_frame [frame]:
  "st (snd (libc_malloc w)) = st w" "aof (snd (libc_malloc w)) = aof w"
  "repl (snd (libc_malloc w)) = repl w" "lock_trace (snd (libc_malloc w)) = lock_trace w"
  by (simp_all add: libc_malloc_def)

lemma tracked_malloc_frame [frame]:
  "st (snd (tracked_malloc n w)) = st w" "aof (snd (tracked_malloc n w)) = aof w"
  "repl (snd (tracked_malloc n w)) = repl w" "lock_trace (snd (tracked_malloc n w)) = lock_trace w"
  by (simp_all add: tracked_malloc_def libc_malloc_def)

lemma tracked_calloc_frame [frame]:
  "st (snd (tracked_calloc m n w)) = st w" "aof (snd (tracked_calloc m n w)) = aof w"
  "repl (snd (tracked_calloc m n w)) = repl w" "lock_trace (snd (tracked_calloc m n w)) = lock_trace w"
  by (simp_all add: tracked_calloc_def libc_malloc_def)

lemma kv_current_time_ms_frame [frame]:
  "st (snd (kv_current_time_ms w)) = st w" "aof (snd (kv_current_time_ms w)) = aof w"
  "repl (snd (kv_current_time_ms w)) = repl w" "lock_trace (snd (kv_current_time_ms w)) = lock_trace w"
  by (simp_all add: kv_current_time_ms_def)

lemma clock_frame [frame]:
  "fst (kv_current_time_ms (snd (libc_malloc w))) = fst (kv_current_time_ms w)"
  "fst (kv_current_time_ms (snd (tracked_malloc n w))) = fst (kv_current_time_ms w)"
  "fst (kv_current_time_ms (snd (tracked_calloc m n w))) = fst (kv_current_time_ms w)"
  "fst (kv_current_time_ms (mutex_lock l w)) = fst (kv_current_time_ms w)"
  "fst (kv_current_time_ms (mutex_unlock l w)) = fst (kv_current_time_ms w)"
  "fst (kv_current_time_ms (w\<lparr>st := s\<rparr>)) = fst (kv_current_time_ms w)"
  by (simp_all add: kv_current_time_ms_def libc_malloc_def tracked_malloc_def tracked_calloc_def
      mutex_lock_def mutex_unlock_def)

lemma mutex_frame [frame]:
  "st (mutex_lock m w) = st w" "aof (mutex_lock m w) = aof w" "repl (mutex_lock m w) = repl w"
  "os (mutex_lock m w) = os w" "lock_trace (mutex_lock m w) = Lock m # lock_trace w"
  "st (mutex_unlock m w) = st w" "aof (mutex_unlock m w) = aof w" "repl (mutex_unlock m w) = repl w"
  "os (mutex_unlock m w) = os w" "lock_trace (mutex_unlock m w) = Unlock m # lock_trace w"
  by (simp_all add: mutex_lock_def mutex_unlock_def)

lemma tracked_malloc_no_oom:
  "no_oom w \<Longrightarrow> fst (tracked_malloc n w) \<and> no_oom (snd (tracked_malloc n w))"
  by (simp add: no_oom_def tracked_malloc_def libc_malloc_def)

lemma tracked_calloc_no_oom:
  "no_oom w \<Longrightarrow> m * n < 2 ^ 64 \<Longrightarrow> fst (tracked_calloc m n w)"
  "no_oom w \<Longrightarrow> no_oom (snd (tracked_calloc m n w))"
  by (simp_all add: no_oom_def tracked_calloc_def libc_malloc_def)

section \<open>A quiet environment\<close>

text \<open>Surroundings in which nothing fails and the clock stands still: no log, no replicas. The
  examples of the development run in it.\<close>

definition no_aof :: aof_state where
  "no_aof = \<lparr>aof_fp = None, aof_path = None, durability_level = KV_DURABILITY_FLUSH, aof_rewrite_pid = 0,
     aof_rewrite_buf = None, aof_rewrite_buf_len = 0, aof_rewrite_buf_cap = 0\<rparr>"

definition no_replication :: replication_state where
  "no_replication = \<lparr>mode = REPLICA_MODE_NONE, master_host = None, master_port = 0, is_running = False,
     replicas = [], sent = [], closed_fds = []\<rparr>"

definition quiet_os :: "int \<Rightarrow> os_env" where
  "quiet_os t = \<lparr>clock = (\<lambda>_. t), clock_reads = 0, malloc_ok = (\<lambda>_. True), malloc_calls = 0,
     io_fault = (\<lambda>_. None), io_calls = 0, g_alloc_fail_countdown = - 1, g_io_fail = False,
     g_xorshift_state = 2463534242\<rparr>"

definition quiet_world :: "int \<Rightarrow> kv_store \<Rightarrow> world" where
  "quiet_world t s = \<lparr>st = s, aof = no_aof, repl = no_replication, os = quiet_os t, lock_trace = []\<rparr>"

lemma quiet_world_sel [simp]:
  "st (quiet_world t s) = s" "aof (quiet_world t s) = no_aof" "aof_fp no_aof = None"
  "no_oom (quiet_world t s)" "fst (kv_current_time_ms (quiet_world t s)) = t"
  by (simp_all add: quiet_world_def no_aof_def no_oom_def quiet_os_def kv_current_time_ms_def)

end
