(* ===== verification/KV_Hash.thy ===== *)
theory KV_Hash
  imports KV_Types
begin

text \<open>
  Keys and values of \<^verbatim>\<open>src/kv.c\<close>: validation, the hash function, bounded copies, and the
  shard locks a key selects.
\<close>

section \<open>Validation\<close>

text \<open>The loop of \<^verbatim>\<open>bounded_strlen\<close> stops at the terminator or after \<open>max_len + 1\<close> bytes.\<close>

fun bounded_strlen :: "string \<Rightarrow> nat \<Rightarrow> nat" where
  "bounded_strlen [] m = 0"
| "bounded_strlen (c # cs) m =
     (if c = CHR 0x00 then 0 else if m = 0 then 1 else Suc (bounded_strlen cs (m - 1)))"

definition isspace :: "char \<Rightarrow> bool" where
  "isspace c \<longleftrightarrow> c \<in> {CHR '' '', CHR 0x09, CHR 0x0A, CHR 0x0B, CHR 0x0C, CHR 0x0D}"

definition validate_key :: "cstr \<Rightarrow> int + nat" where
  "validate_key key =
     (case key of
        None \<Rightarrow> Inl KV_ERR_INVALID_PARAM
      | Some k \<Rightarrow>
          (let len = bounded_strlen k KV_MAX_KEY_LEN
           in if len = 0 then Inl KV_ERR_EMPTY_KEY
              else if len > KV_MAX_KEY_LEN then Inl KV_ERR_KEY_TOO_LONG
              else if list_ex isspace (take len k) then Inl KV_ERR_KEY_WHITESPACE
              else Inr len))"

definition validate_value :: "cstr \<Rightarrow> int + nat" where
  "validate_value value =
     (case value of
        None \<Rightarrow> Inl KV_ERR_INVALID_PARAM
      | Some v \<Rightarrow>
          (let len = bounded_strlen v KV_MAX_VALUE_LEN
           in if len > KV_MAX_VALUE_LEN then Inl KV_ERR_VAL_TOO_LONG else Inr len))"

section \<open>Hashing\<close>

fun hash_loop :: "64 word \<Rightarrow> string \<Rightarrow> 64 word" where
  "hash_loop hash [] = hash"
| "hash_loop hash (c # cs) = hash_loop ((hash XOR of_char c) * 1099511628211) cs"

definition hash_key :: "string \<Rightarrow> nat \<Rightarrow> nat" where
  "hash_key k n = unat (hash_loop 1469598103934665603 k) mod n"

section \<open>Bounded copies\<close>

definition copy_string_bounded :: "string \<Rightarrow> nat \<Rightarrow> world \<Rightarrow> cstr \<times> world" where
  "copy_string_bounded src max_len w =
     (let len = bounded_strlen src max_len
      in if len > max_len then (None, w)
         else let (ok, w1) = tracked_malloc (len + 1) w
              in if \<not> ok then (None, w1) else (Some (take len src), w1))"

section \<open>Shard locks\<close>

definition kv_lock_index :: "kv_store \<Rightarrow> string \<Rightarrow> nat" where
  "kv_lock_index s k = (if num_locks s = 0 then 0 else hash_key k (num_locks s))"

definition kv_acquire_bucket_lock :: "string \<Rightarrow> world \<Rightarrow> world" where
  "kv_acquire_bucket_lock k w =
     (if lock_initialized (st w) \<and> bucket_locks (st w)
      then mutex_lock (Bucket_Lock (kv_lock_index (st w) k)) w else w)"

definition kv_release_bucket_lock :: "string \<Rightarrow> world \<Rightarrow> world" where
  "kv_release_bucket_lock k w =
     (if lock_initialized (st w) \<and> bucket_locks (st w)
      then mutex_unlock (Bucket_Lock (kv_lock_index (st w) k)) w else w)"

definition kv_acquire_all_locks :: "world \<Rightarrow> world" where
  "kv_acquire_all_locks w =
     (if lock_initialized (st w) \<and> bucket_locks (st w)
      then fold (\<lambda>i. mutex_lock (Bucket_Lock i)) [0..<num_locks (st w)] w else w)"

definition kv_release_all_locks :: "world \<Rightarrow> world" where
  "kv_release_all_locks w =
     (if lock_initialized (st w) \<and> bucket_locks (st w)
      then fold (\<lambda>i. mutex_unlock (Bucket_Lock i)) (rev [0..<num_locks (st w)]) w else w)"

text \<open>The lock array is sized once, in \<^verbatim>\<open>kv_init_full\<close>.\<close>

definition shard_count :: "nat \<Rightarrow> nat" where
  "shard_count n = (if n > 64 then 64 else if n < KV_DEFAULT_NUM_LOCKS then KV_DEFAULT_NUM_LOCKS else n)"

section \<open>Lemmas\<close>

lemma bounded_strlen_eq:
  "CHR 0x00 \<notin> set s \<Longrightarrow> bounded_strlen s m = min (length s) (Suc m)"
  by (induction s m rule: bounded_strlen.induct) (auto simp: min_def split: if_splits)

text \<open>A well-formed C string holds no terminator. \<open>valid_key\<close> and \<open>valid_value\<close> are what
  the two validators accept.\<close>

definition cstring :: "string \<Rightarrow> bool" where
  "cstring s \<longleftrightarrow> CHR 0x00 \<notin> set s"

definition valid_key :: "string \<Rightarrow> bool" where
  "valid_key k \<longleftrightarrow> k \<noteq> [] \<and> length k \<le> KV_MAX_KEY_LEN \<and> list_all (\<lambda>c. \<not> isspace c) k"

definition valid_value :: "string \<Rightarrow> bool" where
  "valid_value v \<longleftrightarrow> length v \<le> KV_MAX_VALUE_LEN"

lemma validate_key_Inr:
  assumes "cstring k"
  shows "validate_key (Some k) = Inr n \<longleftrightarrow> valid_key k \<and> n = length k"
proof (cases "length k \<le> KV_MAX_KEY_LEN")
  case True
  with assms have "bounded_strlen k KV_MAX_KEY_LEN = length k"
    by (simp add: bounded_strlen_eq cstring_def)
  with True show ?thesis
    by (auto simp: validate_key_def valid_key_def list_ex_iff list_all_iff Let_def)
next
  case False
  with assms have "bounded_strlen k KV_MAX_KEY_LEN = Suc KV_MAX_KEY_LEN"
    by (simp add: bounded_strlen_eq cstring_def)
  with False show ?thesis
    by (simp add: validate_key_def valid_key_def Let_def)
qed

lemma validate_value_Inr:
  assumes "cstring v"
  shows "validate_value (Some v) = Inr n \<longleftrightarrow> valid_value v \<and> n = length v"
  using assms bounded_strlen_eq [of v KV_MAX_VALUE_LEN]
  by (auto simp: validate_value_def valid_value_def cstring_def Let_def split: if_splits)

lemma validate_value_cases:
  "cstring v \<Longrightarrow>
     validate_value (Some v) = (if valid_value v then Inr (length v) else Inl KV_ERR_VAL_TOO_LONG)"
  using bounded_strlen_eq [of v KV_MAX_VALUE_LEN]
  by (auto simp: validate_value_def valid_value_def cstring_def Let_def)

lemma validate_key_valid [simp]:
  "cstring k \<Longrightarrow> valid_key k \<Longrightarrow> validate_key (Some k) = Inr (length k)"
  by (simp add: validate_key_Inr)

lemma validate_value_valid [simp]:
  "cstring v \<Longrightarrow> valid_value v \<Longrightarrow> validate_value (Some v) = Inr (length v)"
  by (simp add: validate_value_Inr)

lemma validate_key_error: "validate_key key = Inl e \<Longrightarrow> e < 0"
  by (auto simp: validate_key_def Let_def split: option.splits if_splits)

lemma validate_value_error: "validate_value value = Inl e \<Longrightarrow> e < 0"
  by (auto simp: validate_value_def Let_def split: option.splits if_splits)

lemma hash_key_less: "0 < n \<Longrightarrow> hash_key k n < n"
  by (simp add: hash_key_def)

lemma copy_string_bounded_frame [frame]:
  "st (snd (copy_string_bounded s m w)) = st w" "aof (snd (copy_string_bounded s m w)) = aof w"
  "repl (snd (copy_string_bounded s m w)) = repl w"
  "lock_trace (snd (copy_string_bounded s m w)) = lock_trace w"
  "fst (kv_current_time_ms (snd (copy_string_bounded s m w))) = fst (kv_current_time_ms w)"
  by (simp_all add: copy_string_bounded_def Let_def split_beta frame)

lemma copy_string_bounded_Some:
  "copy_string_bounded s m w = (Some t, w') \<Longrightarrow> cstring s \<Longrightarrow> t = s \<and> length s \<le> m"
  by (auto simp: copy_string_bounded_def Let_def split_beta bounded_strlen_eq cstring_def
      split: if_splits)

lemma copy_string_bounded_no_oom:
  assumes "no_oom w" and "cstring s" and "length s \<le> m"
  shows "fst (copy_string_bounded s m w) = Some s" and "no_oom (snd (copy_string_bounded s m w))"
  using assms tracked_malloc_no_oom [of w "length s + 1"]
  by (auto simp: copy_string_bounded_def Let_def split_beta bounded_strlen_eq cstring_def)

lemma bucket_lock_frame [frame]:
  "st (kv_acquire_bucket_lock k w) = st w" "aof (kv_acquire_bucket_lock k w) = aof w"
  "repl (kv_acquire_bucket_lock k w) = repl w" "os (kv_acquire_bucket_lock k w) = os w"
  "st (kv_release_bucket_lock k w) = st w" "aof (kv_release_bucket_lock k w) = aof w"
  "repl (kv_release_bucket_lock k w) = repl w" "os (kv_release_bucket_lock k w) = os w"
  by (simp_all add: kv_acquire_bucket_lock_def kv_release_bucket_lock_def frame)

lemma fold_mutex_frame:
  "st (fold (\<lambda>i. mutex_lock (g i)) xs w) = st w" "aof (fold (\<lambda>i. mutex_lock (g i)) xs w) = aof w"
  "repl (fold (\<lambda>i. mutex_lock (g i)) xs w) = repl w" "os (fold (\<lambda>i. mutex_lock (g i)) xs w) = os w"
  "st (fold (\<lambda>i. mutex_unlock (g i)) xs w) = st w" "aof (fold (\<lambda>i. mutex_unlock (g i)) xs w) = aof w"
  "repl (fold (\<lambda>i. mutex_unlock (g i)) xs w) = repl w" "os (fold (\<lambda>i. mutex_unlock (g i)) xs w) = os w"
  by (induction xs arbitrary: w) (simp_all add: frame)

lemma all_locks_frame [frame]:
  "st (kv_acquire_all_locks w) = st w" "aof (kv_acquire_all_locks w) = aof w"
  "repl (kv_acquire_all_locks w) = repl w" "os (kv_acquire_all_locks w) = os w"
  "st (kv_release_all_locks w) = st w" "aof (kv_release_all_locks w) = aof w"
  "repl (kv_release_all_locks w) = repl w" "os (kv_release_all_locks w) = os w"
  by (simp_all add: kv_acquire_all_locks_def kv_release_all_locks_def fold_mutex_frame)

lemma no_oom_locks [simp]:
  "no_oom (kv_acquire_bucket_lock k w) = no_oom w" "no_oom (kv_release_bucket_lock k w) = no_oom w"
  "no_oom (kv_acquire_all_locks w) = no_oom w" "no_oom (kv_release_all_locks w) = no_oom w"
  by (simp_all add: no_oom_def frame)

section \<open>The two hash tables of the program\<close>

text \<open>The store hashes entries by their key, a set value hashes its members themselves.\<close>

interpretation entries: chained_hash hash_key e_key
  by unfold_locales (rule hash_key_less)

interpretation members: chained_hash hash_key "\<lambda>m. m"
  by unfold_locales (rule hash_key_less)

section \<open>Lock sharding\<close>

lemma same_bucket_same_shard:
  assumes "d dvd n" and "hash_key a n = hash_key b n"
  shows "hash_key a d = hash_key b d"
proof -
  have "hash_key k d = hash_key k n mod d" for k
    using assms(1) by (simp add: hash_key_def mod_mod_cancel)
  with assms(2) show ?thesis by simp
qed

text \<open>Two keys of one bucket are guarded by the same shard lock whenever the number of
  locks divides the number of buckets.\<close>

lemma bucket_guarded_by_one_lock:
  assumes "num_locks s dvd bucket_count s"
    and "hash_key a (bucket_count s) = hash_key b (bucket_count s)"
  shows "kv_lock_index s a = kv_lock_index s b"
  using same_bucket_same_shard [OF assms] by (simp add: kv_lock_index_def)

end
