(* ===== verification/KV_Table.thy ===== *)
theory KV_Table
  imports KV_Hash
begin

text \<open>
  The bucket array of \<^verbatim>\<open>src/kv.c\<close>: expiry, unlinking an entry with its accounting, lookup
  with lazy expiry, resizing, and the settings of the store. The invariant \<open>wf_store\<close> says
  that the table is well formed and that the byte and entry counters are exact; \<open>lookup\<close>
  is the abstract map the table implements. An entry pointer is the pair of its bucket and
  its position in the chain.
\<close>

type_synonym entry_ptr = "nat \<times> nat"

section \<open>Entries\<close>

definition entry_is_expired :: "kv_entry \<Rightarrow> int \<Rightarrow> bool" where
  "entry_is_expired e now_ms \<longleftrightarrow> expire_at_ms e > 0 \<and> expire_at_ms e \<le> now_ms"

text \<open>What \<^verbatim>\<open>list_destroy\<close> and \<^verbatim>\<open>set_destroy\<close> report as freed.\<close>

definition list_destroy :: "kv_list_t \<Rightarrow> nat" where
  "list_destroy l = sizeof_kv_list + sum_list (map (\<lambda>v. sizeof_kv_list_node + length v + 1) (l_nodes l))"

definition set_destroy :: "kv_set_t \<Rightarrow> nat" where
  "set_destroy t = sizeof_kv_set + s_bucket_count t * sizeof_ptr +
     table_sum (\<lambda>v. sizeof_kv_set_node + length v + 1) (take (s_bucket_count t) (s_buckets t))"

fun value_bytes :: "kv_value \<Rightarrow> nat" where
  "value_bytes (VString v) = length v + 1"
| "value_bytes (VList l) = list_destroy l"
| "value_bytes (VSet t) = set_destroy t"

definition entry_bytes :: "kv_entry \<Rightarrow> nat" where
  "entry_bytes e = sizeof_kv_entry + length (e_key e) + 1 + value_bytes (e_value e)"

definition expire_and_delete_unlocked :: "entry_ptr \<Rightarrow> kv_store \<Rightarrow> kv_store" where
  "expire_and_delete_unlocked ptr s =
     (let (i, p) = ptr;
          freed = entry_bytes (buckets s ! i ! p);
          s1 = s\<lparr>buckets := remove_at i p (buckets s)\<rparr>;
          s2 = (if kv_size s1 > 0 then s1\<lparr>kv_size := kv_size s1 - 1\<rparr> else s1)
      in if allocated_bytes s2 \<ge> freed
         then s2\<lparr>allocated_bytes := allocated_bytes s2 - freed\<rparr>
         else s2\<lparr>allocated_bytes := 0\<rparr>)"

text \<open>The chain walk every lookup performs.\<close>

definition locate :: "kv_store \<Rightarrow> string \<Rightarrow> entry_ptr option" where
  "locate s k =
     (let i = hash_key k (bucket_count s)
      in map_option (Pair i) (find_pos (\<lambda>e. e_key e = k) (buckets s ! i)))"

definition find_entry_unlocked :: "string \<Rightarrow> world \<Rightarrow> entry_ptr option \<times> world" where
  "find_entry_unlocked k w =
     (if buckets (st w) = [] then (None, w)
      else
        (let (now, w1) = kv_current_time_ms w
         in case locate (st w1) k of
              None \<Rightarrow> (None, w1)
            | Some (i, p) \<Rightarrow>
                if entry_is_expired (buckets (st w1) ! i ! p) now
                then (None, upd_st (expire_and_delete_unlocked (i, p)) w1)
                else (Some (i, p), w1)))"

section \<open>Small updates\<close>

abbreviation deref :: "kv_store \<Rightarrow> entry_ptr \<Rightarrow> kv_entry" where
  "deref s ptr \<equiv> buckets s ! fst ptr ! snd ptr"

definition set_entry :: "entry_ptr \<Rightarrow> (kv_entry \<Rightarrow> kv_entry) \<Rightarrow> kv_store \<Rightarrow> kv_store" where
  "set_entry ptr g s = s\<lparr>buckets := update_at (fst ptr) (snd ptr) g (buckets s)\<rparr>"

text \<open>\<^verbatim>\<open>entry->last_accessed_time = ++store->lru_clock\<close>.\<close>

definition touch :: "entry_ptr \<Rightarrow> kv_store \<Rightarrow> kv_store" where
  "touch ptr s =
     (let c = lru_clock s + 1
      in set_entry ptr (\<lambda>e. e\<lparr>last_accessed_time := c\<rparr>) (s\<lparr>lru_clock := c\<rparr>))"

text \<open>Growing \<open>allocated_bytes\<close> always raises the recorded peak.\<close>

definition add_bytes :: "nat \<Rightarrow> kv_store \<Rightarrow> kv_store" where
  "add_bytes n s =
     (let a = allocated_bytes s + n
      in s\<lparr>allocated_bytes := a,
           peak_allocated_bytes := (if a > peak_allocated_bytes s then a else peak_allocated_bytes s)\<rparr>)"

text \<open>Linking a new entry at the head of its chain.\<close>

definition insert_entry :: "kv_entry \<Rightarrow> kv_store \<Rightarrow> kv_store" where
  "insert_entry e s =
     s\<lparr>buckets := push_at (hash_key (e_key e) (bucket_count s)) e (buckets s),
       kv_size := kv_size s + 1\<rparr>"

section \<open>Resizing\<close>

text \<open>The two nested loops move every entry to the head of its new chain.\<close>

definition rehash :: "nat \<Rightarrow> kv_entry list list \<Rightarrow> kv_entry list list" where
  "rehash n bs =
     fold (\<lambda>chain new. fold (\<lambda>e new. push_at (hash_key (e_key e) n) e new) chain new) bs (replicate n [])"

definition kv_resize_unlocked :: "nat \<Rightarrow> world \<Rightarrow> int \<times> world" where
  "kv_resize_unlocked n w =
     (if n = 0 then (KV_ERR_INVALID_PARAM, w)
      else
        (let new_bytes = sz_mul n sizeof_ptr;
             old_bytes = sz_mul (bucket_count (st w)) sizeof_ptr
         in if max_memory_budget (st w) > 0 \<and> allocated_bytes (st w) + new_bytes > max_memory_budget (st w)
            then (KV_ERR_BUDGET_EXCEEDED, w)
            else
              (let (ok, w1) = tracked_calloc n sizeof_ptr w
               in if \<not> ok then (KV_ERR_INTERNAL, w1)
                  else
                    (let s1 = add_bytes new_bytes (st w1);
                         s2 = s1\<lparr>buckets := rehash n (take (bucket_count s1) (buckets s1)), bucket_count := n,
                                 allocated_bytes := sz_sub (allocated_bytes s1) old_bytes\<rparr>
                     in (KV_OK, w1\<lparr>st := s2\<rparr>)))))"

definition kv_resize :: "nat \<Rightarrow> world \<Rightarrow> int \<times> world" where
  "kv_resize n w =
     (if n = 0 then (KV_ERR_INVALID_PARAM, w)
      else
        (let w1 = kv_acquire_all_locks w;
             (res, w2) = kv_resize_unlocked n w1
         in (res, kv_release_all_locks w2)))"

section \<open>Settings and counters\<close>

definition kv_set_auto_resize :: "bool \<Rightarrow> world \<Rightarrow> world" where
  "kv_set_auto_resize b w =
     kv_release_all_locks (upd_st (\<lambda>s. s\<lparr>auto_resize := b\<rparr>) (kv_acquire_all_locks w))"

definition kv_set_max_capacity :: "nat \<Rightarrow> world \<Rightarrow> world" where
  "kv_set_max_capacity n w =
     kv_release_all_locks (upd_st (\<lambda>s. s\<lparr>max_capacity := n\<rparr>) (kv_acquire_all_locks w))"

definition kv_set_memory_budget :: "nat \<Rightarrow> world \<Rightarrow> world" where
  "kv_set_memory_budget n w =
     kv_release_all_locks (upd_st (\<lambda>s. s\<lparr>max_memory_budget := n\<rparr>) (kv_acquire_all_locks w))"

definition kv_bucket_count :: "world \<Rightarrow> nat" where
  "kv_bucket_count w = bucket_count (st w)"

definition kv_allocated_bytes :: "world \<Rightarrow> nat" where
  "kv_allocated_bytes w = allocated_bytes (st w)"

definition kv_peak_allocated_bytes :: "world \<Rightarrow> nat" where
  "kv_peak_allocated_bytes w = peak_allocated_bytes (st w)"

definition kv_max_memory_budget :: "world \<Rightarrow> nat" where
  "kv_max_memory_budget w = max_memory_budget (st w)"

section \<open>The invariant\<close>

fun wf_value :: "kv_value \<Rightarrow> bool" where
  "wf_value (VString v) \<longleftrightarrow> valid_value v \<and> cstring v"
| "wf_value (VList l) \<longleftrightarrow>
     l_count l = length (l_nodes l) \<and> (\<forall>v\<in>set (l_nodes l). valid_value v \<and> cstring v)"
| "wf_value (VSet t) \<longleftrightarrow>
     s_bucket_count t = length (s_buckets t) \<and> s_buckets t \<noteq> [] \<and>
     placed hash_key (\<lambda>m. m) (s_buckets t) \<and> s_count t = table_sum (\<lambda>_. 1) (s_buckets t) \<and>
     (\<forall>b\<in>set (s_buckets t). \<forall>v\<in>set b. valid_value v \<and> cstring v)"

definition wf_entry :: "kv_entry \<Rightarrow> bool" where
  "wf_entry e \<longleftrightarrow> valid_key (e_key e) \<and> cstring (e_key e) \<and> wf_value (e_value e)"

text \<open>The table is placed, the entry and byte counters are exact (\<open>base\<close> is what the store
  owns beside the table: the copy of the log's path) and the peak is an upper bound.\<close>

definition wf_store :: "nat \<Rightarrow> kv_store \<Rightarrow> bool" where
  "wf_store base s \<longleftrightarrow>
     bucket_count s = length (buckets s) \<and> 0 < bucket_count s \<and>
     bucket_count s * sizeof_ptr < 2 ^ 64 \<and>
     placed hash_key e_key (buckets s) \<and>
     (\<forall>b\<in>set (buckets s). \<forall>e\<in>set b. wf_entry e) \<and>
     kv_size s = table_sum (\<lambda>_. 1) (buckets s) \<and>
     allocated_bytes s = bucket_count s * sizeof_ptr + base + table_sum entry_bytes (buckets s) \<and>
     allocated_bytes s \<le> peak_allocated_bytes s"

text \<open>The abstract map, and the part of an entry that a client can observe.\<close>

definition lookup :: "kv_store \<Rightarrow> string \<Rightarrow> kv_entry option" where
  "lookup s k = table_find hash_key e_key (buckets s) k"

definition kv_view :: "kv_store \<Rightarrow> string \<Rightarrow> (kv_value \<times> int) option" where
  "kv_view s k = map_option (\<lambda>e. (e_value e, expire_at_ms e)) (lookup s k)"

definition valid_ptr :: "kv_store \<Rightarrow> entry_ptr \<Rightarrow> bool" where
  "valid_ptr s ptr \<longleftrightarrow> fst ptr < length (buckets s) \<and> snd ptr < length (buckets s ! fst ptr)"

definition within_budget :: "kv_store \<Rightarrow> bool" where
  "within_budget s \<longleftrightarrow> max_memory_budget s = 0 \<or> allocated_bytes s \<le> max_memory_budget s"

lemma wf_storeD:
  assumes "wf_store base s"
  shows "bucket_count s = length (buckets s)" "0 < bucket_count s" "buckets s \<noteq> []"
    "bucket_count s * sizeof_ptr < 2 ^ 64"
    "placed hash_key e_key (buckets s)" "kv_size s = table_sum (\<lambda>_. 1) (buckets s)"
    "allocated_bytes s = bucket_count s * sizeof_ptr + base + table_sum entry_bytes (buckets s)"
    "allocated_bytes s \<le> peak_allocated_bytes s"
  using assms by (auto simp: wf_store_def)

lemma wf_store_entry: "wf_store base s \<Longrightarrow> valid_ptr s ptr \<Longrightarrow> wf_entry (deref s ptr)"
  unfolding wf_store_def valid_ptr_def by (meson nth_mem)

lemma lookup_wf: "wf_store base s \<Longrightarrow> lookup s k = Some e \<Longrightarrow> wf_entry e \<and> e_key e = k"
  using entries.table_find_Some [of "buckets s" k e]
  by (fastforce simp: wf_store_def lookup_def)

lemma lookup_deref: "wf_store base s \<Longrightarrow> valid_ptr s ptr \<Longrightarrow>
    lookup s (e_key (deref s ptr)) = Some (deref s ptr)"
  by (simp add: lookup_def valid_ptr_def entries.table_find_at wf_storeD)

lemma locate_None: "wf_store base s \<Longrightarrow> locate s k = None \<longleftrightarrow> lookup s k = None"
  by (auto simp: locate_def lookup_def table_find_def wf_storeD find_pos_None find_None_iff Let_def)

lemma locate_Some:
  assumes "wf_store base s" and "locate s k = Some ptr"
  shows "valid_ptr s ptr" "e_key (deref s ptr) = k" "lookup s k = Some (deref s ptr)"
proof -
  note wf = wf_storeD [OF assms(1)]
  obtain p where p: "find_pos (\<lambda>e. e_key e = k) (buckets s ! hash_key k (bucket_count s)) = Some p"
    and ptr: "ptr = (hash_key k (bucket_count s), p)"
    using assms(2) by (auto simp: locate_def Let_def)
  from find_pos_Some [OF p] ptr wf show v: "valid_ptr s ptr" and k: "e_key (deref s ptr) = k"
    by (auto simp: valid_ptr_def hash_key_less)
  from lookup_deref [OF assms(1) v] k show "lookup s k = Some (deref s ptr)" by simp
qed

section \<open>Each update keeps the invariant\<close>

lemma wf_expire_and_delete [wf_intro]:
  assumes "wf_store base s" and "valid_ptr s ptr"
  shows "wf_store base (expire_and_delete_unlocked ptr s)"
proof -
  note wf = wf_storeD [OF assms(1)]
  obtain i p where ptr: "ptr = (i, p)" by (cases ptr)
  have ip: "i < length (buckets s)" "p < length (buckets s ! i)"
    using assms(2) by (auto simp: valid_ptr_def ptr)
  have "\<forall>b\<in>set (remove_at i p (buckets s)). \<forall>e\<in>set b. wf_entry e"
    using assms(1) set_remove_nth_subset [of p "buckets s ! i"] ip(1)
    by (fastforce simp: wf_store_def remove_at_def dest!: set_update_subset_insert [THEN subsetD])
  then show ?thesis
    using wf table_sum_remove_at [OF ip, of "\<lambda>_. 1"] table_sum_remove_at [OF ip, of entry_bytes]
    by (auto simp: wf_store_def expire_and_delete_unlocked_def ptr Let_def entries.placed_remove)
qed

lemma lookup_expire_and_delete:
  assumes "wf_store base s" and "valid_ptr s ptr"
  shows "lookup (expire_and_delete_unlocked ptr s) k =
    (if k = e_key (deref s ptr) then None else lookup s k)"
  using assms entries.find_remove [of "buckets s" "fst ptr" "snd ptr" k]
  by (auto simp: expire_and_delete_unlocked_def lookup_def split_beta Let_def wf_storeD valid_ptr_def)

lemma size_expire_and_delete:
  "kv_size (expire_and_delete_unlocked ptr s) = kv_size s - 1"
  by (auto simp: expire_and_delete_unlocked_def split_beta Let_def)

lemma allocated_expire_and_delete_le:
  "allocated_bytes (expire_and_delete_unlocked ptr s) \<le> allocated_bytes s"
  by (auto simp: expire_and_delete_unlocked_def split_beta Let_def)

lemma expire_and_delete_frame [simp]:
  "max_memory_budget (expire_and_delete_unlocked ptr s) = max_memory_budget s"
  "max_capacity (expire_and_delete_unlocked ptr s) = max_capacity s"
  "bucket_count (expire_and_delete_unlocked ptr s) = bucket_count s"
  "peak_allocated_bytes (expire_and_delete_unlocked ptr s) = peak_allocated_bytes s"
  "auto_resize (expire_and_delete_unlocked ptr s) = auto_resize s"
  "bucket_locks (expire_and_delete_unlocked ptr s) = bucket_locks s"
  "num_locks (expire_and_delete_unlocked ptr s) = num_locks s"
  "lock_initialized (expire_and_delete_unlocked ptr s) = lock_initialized s"
  "lru_clock (expire_and_delete_unlocked ptr s) = lru_clock s"
  by (auto simp: expire_and_delete_unlocked_def split_beta Let_def)

text \<open>Rewriting one entry in place: the accounting must be corrected by the change of its
  footprint, which \<open>grow\<close> adds and \<open>shrink\<close> takes away.\<close>

lemma lookup_set_entry:
  assumes "wf_store base s" and "valid_ptr s ptr" and "e_key (g (deref s ptr)) = e_key (deref s ptr)"
  shows "lookup (set_entry ptr g s) k =
    (if k = e_key (deref s ptr) then Some (g (deref s ptr)) else lookup s k)"
  using assms entries.find_update [of "buckets s" "fst ptr" "snd ptr" g k]
  by (simp add: lookup_def set_entry_def valid_ptr_def wf_storeD)

lemma valid_ptr_set_entry [simp]: "valid_ptr (set_entry ptr' g s) ptr = valid_ptr s ptr"
  by (cases "fst ptr' < length (buckets s)")
    (auto simp: valid_ptr_def set_entry_def update_at_def nth_list_update list_update_beyond)

lemma deref_set_entry: "valid_ptr s ptr \<Longrightarrow> deref (set_entry ptr g s) ptr = g (deref s ptr)"
  by (simp add: valid_ptr_def set_entry_def update_at_def)

lemma wf_rewrite_entry:
  assumes "wf_store base s" and "valid_ptr s ptr"
    and "e_key (g (deref s ptr)) = e_key (deref s ptr)" and "wf_entry (g (deref s ptr))"
    and "a + entry_bytes (deref s ptr) = allocated_bytes s + entry_bytes (g (deref s ptr))"
    and "a \<le> pk"
  shows "wf_store base ((set_entry ptr g s)\<lparr>allocated_bytes := a, peak_allocated_bytes := pk\<rparr>)"
proof -
  note wf = wf_storeD [OF assms(1)]
  have ip: "fst ptr < length (buckets s)" "snd ptr < length (buckets s ! fst ptr)"
    using assms(2) by (auto simp: valid_ptr_def)
  have "\<forall>b\<in>set (update_at (fst ptr) (snd ptr) g (buckets s)). \<forall>e\<in>set b. wf_entry e"
    using assms(1,4) ip(1)
    by (fastforce simp: wf_store_def update_at_def dest!: set_update_subset_insert [THEN subsetD])
  then show ?thesis
    using wf assms(3,5,6) entries.placed_update [OF wf(5) ip]
      table_sum_update_at [OF ip, of "\<lambda>_. 1" g] table_sum_update_at [OF ip, of entry_bytes g]
    by (simp add: wf_store_def set_entry_def)
qed

lemma wf_set_entry_same_bytes:
  assumes "wf_store base s" and "valid_ptr s ptr"
    and "e_key (g (deref s ptr)) = e_key (deref s ptr)" and "wf_entry (g (deref s ptr))"
    and "entry_bytes (g (deref s ptr)) = entry_bytes (deref s ptr)"
  shows "wf_store base (set_entry ptr g s)"
  using wf_rewrite_entry [of base s ptr g "allocated_bytes s" "peak_allocated_bytes s"]
    assms wf_storeD(8) [OF assms(1)]
  by (simp add: set_entry_def)

lemma wf_touch [wf_intro]:
  assumes "wf_store base s" and "valid_ptr s ptr"
  shows "wf_store base (touch ptr s)"
proof -
  have "wf_store base (s\<lparr>lru_clock := c\<rparr>)" for c
    using assms(1) by (auto simp: wf_store_def)
  moreover have "valid_ptr (s\<lparr>lru_clock := c\<rparr>) ptr" for c
    using assms(2) by (simp add: valid_ptr_def)
  ultimately show ?thesis
    unfolding touch_def Let_def
    using wf_store_entry [OF assms]
    by (intro wf_set_entry_same_bytes) (auto simp: wf_entry_def entry_bytes_def)
qed

lemma touch_frame [simp]:
  "max_memory_budget (touch ptr s) = max_memory_budget s" "max_capacity (touch ptr s) = max_capacity s"
  "bucket_count (touch ptr s) = bucket_count s" "kv_size (touch ptr s) = kv_size s"
  "allocated_bytes (touch ptr s) = allocated_bytes s"
  "peak_allocated_bytes (touch ptr s) = peak_allocated_bytes s"
  "bucket_locks (touch ptr s) = bucket_locks s" "num_locks (touch ptr s) = num_locks s"
  "lock_initialized (touch ptr s) = lock_initialized s" "auto_resize (touch ptr s) = auto_resize s"
  by (simp_all add: touch_def set_entry_def Let_def)

lemma valid_ptr_touch [simp]: "valid_ptr (touch ptr' s) ptr = valid_ptr s ptr"
  using valid_ptr_set_entry [of ptr' _ "s\<lparr>lru_clock := lru_clock s + 1\<rparr>" ptr]
  by (simp add: touch_def Let_def) (simp add: valid_ptr_def)

lemma deref_touch:
  "valid_ptr s ptr \<Longrightarrow> deref (touch ptr s) ptr = (deref s ptr)\<lparr>last_accessed_time := lru_clock s + 1\<rparr>"
  by (simp add: touch_def set_entry_def update_at_def valid_ptr_def Let_def)

lemma lookup_touch:
  assumes "wf_store base s" and "valid_ptr s ptr"
  shows "lookup (touch ptr s) k =
    (if k = e_key (deref s ptr) then Some ((deref s ptr)\<lparr>last_accessed_time := lru_clock s + 1\<rparr>)
     else lookup s k)"
  using assms entries.find_update [of "buckets s" "fst ptr" "snd ptr"
      "\<lambda>e. e\<lparr>last_accessed_time := lru_clock s + 1\<rparr>" k]
  by (simp add: lookup_def touch_def set_entry_def valid_ptr_def wf_storeD Let_def)

lemma kv_view_touch:
  assumes "wf_store base s" and "valid_ptr s ptr"
  shows "kv_view (touch ptr s) = kv_view s"
  using lookup_deref [OF assms] by (auto simp: kv_view_def lookup_touch [OF assms])

lemma add_bytes_frame [simp]:
  "buckets (add_bytes n s) = buckets s" "bucket_count (add_bytes n s) = bucket_count s"
  "kv_size (add_bytes n s) = kv_size s" "max_capacity (add_bytes n s) = max_capacity s"
  "max_memory_budget (add_bytes n s) = max_memory_budget s" "auto_resize (add_bytes n s) = auto_resize s"
  "bucket_locks (add_bytes n s) = bucket_locks s" "num_locks (add_bytes n s) = num_locks s"
  "lock_initialized (add_bytes n s) = lock_initialized s" "lru_clock (add_bytes n s) = lru_clock s"
  "allocated_bytes (add_bytes n s) = allocated_bytes s + n"
  "lookup (add_bytes n s) = lookup s"
  by (simp_all add: add_bytes_def lookup_def fun_eq_iff Let_def)

lemma add_bytes_peak [simp]:
  "allocated_bytes s + n \<le> peak_allocated_bytes (add_bytes n s)"
  "peak_allocated_bytes s \<le> peak_allocated_bytes (add_bytes n s)"
  by (simp_all add: add_bytes_def Let_def)

lemma wf_insert_entry:
  assumes "wf_store base s" and "wf_entry e" and "lookup s (e_key e) = None"
  shows "wf_store base (add_bytes (entry_bytes e) (insert_entry e s))"
proof -
  note wf = wf_storeD [OF assms(1)]
  let ?i = "hash_key (e_key e) (length (buckets s))"
  have i: "?i < length (buckets s)" using wf by (simp add: hash_key_less)
  have "\<forall>b\<in>set (push_at ?i e (buckets s)). \<forall>e\<in>set b. wf_entry e"
    using assms(1,2) i
    by (fastforce simp: wf_store_def push_at_def dest!: set_update_subset_insert [THEN subsetD])
  moreover have "placed hash_key e_key (push_at ?i e (buckets s))"
    using assms(3) wf by (intro entries.placed_push) (auto simp: lookup_def)
  ultimately show ?thesis
    using wf i by (simp add: wf_store_def insert_entry_def add_bytes_def Let_def)
qed

lemma lookup_insert_entry:
  assumes "wf_store base s"
  shows "lookup (insert_entry e s) k = (if k = e_key e then Some e else lookup s k)"
  using entries.find_push [of "buckets s" e k] wf_storeD [OF assms]
  by (simp add: lookup_def insert_entry_def)

lemma insert_entry_frame [simp]:
  "max_memory_budget (insert_entry e s) = max_memory_budget s" "max_capacity (insert_entry e s) = max_capacity s"
  "bucket_count (insert_entry e s) = bucket_count s" "kv_size (insert_entry e s) = kv_size s + 1"
  "allocated_bytes (insert_entry e s) = allocated_bytes s"
  "bucket_locks (insert_entry e s) = bucket_locks s" "num_locks (insert_entry e s) = num_locks s"
  "lock_initialized (insert_entry e s) = lock_initialized s" "auto_resize (insert_entry e s) = auto_resize s"
  "lru_clock (insert_entry e s) = lru_clock s"
  by (simp_all add: insert_entry_def)

section \<open>Lookup with lazy expiry\<close>

lemma find_entry_frame [frame]:
  "aof (snd (find_entry_unlocked k w)) = aof w" "repl (snd (find_entry_unlocked k w)) = repl w"
  "lock_trace (snd (find_entry_unlocked k w)) = lock_trace w"
  "lock_initialized (st (snd (find_entry_unlocked k w))) = lock_initialized (st w)"
  "bucket_locks (st (snd (find_entry_unlocked k w))) = bucket_locks (st w)"
  "num_locks (st (snd (find_entry_unlocked k w))) = num_locks (st w)"
  "max_memory_budget (st (snd (find_entry_unlocked k w))) = max_memory_budget (st w)"
  "max_capacity (st (snd (find_entry_unlocked k w))) = max_capacity (st w)"
  "bucket_count (st (snd (find_entry_unlocked k w))) = bucket_count (st w)"
  by (auto simp: find_entry_unlocked_def split_beta Let_def frame split: option.splits)

lemma no_oom_find_entry [simp]: "no_oom (snd (find_entry_unlocked k w)) = no_oom w"
  by (auto simp: find_entry_unlocked_def split_beta Let_def kv_current_time_ms_def no_oom_def
      split: option.splits)

text \<open>The reading of the clock that decides whether the entry has expired.\<close>

abbreviation now_of :: "world \<Rightarrow> int" where
  "now_of w \<equiv> fst (kv_current_time_ms w)"

lemma find_entry_cases:
  assumes "wf_store base (st w)"
  obtains (absent) "lookup (st w) k = None" "fst (find_entry_unlocked k w) = None"
      "st (snd (find_entry_unlocked k w)) = st w"
  | (expired) ptr where "locate (st w) k = Some ptr" "valid_ptr (st w) ptr" "e_key (deref (st w) ptr) = k"
      "lookup (st w) k = Some (deref (st w) ptr)" "entry_is_expired (deref (st w) ptr) (now_of w)"
      "fst (find_entry_unlocked k w) = None"
      "st (snd (find_entry_unlocked k w)) = expire_and_delete_unlocked ptr (st w)"
  | (live) ptr where "locate (st w) k = Some ptr" "valid_ptr (st w) ptr" "e_key (deref (st w) ptr) = k"
      "lookup (st w) k = Some (deref (st w) ptr)" "\<not> entry_is_expired (deref (st w) ptr) (now_of w)"
      "fst (find_entry_unlocked k w) = Some ptr"
      "st (snd (find_entry_unlocked k w)) = st w"
proof (cases "locate (st w) k")
  case None
  then show thesis
    using assms absent locate_None [OF assms, of k]
    by (auto simp: find_entry_unlocked_def split_beta Let_def frame wf_storeD)
next
  case (Some ptr)
  note l = locate_Some [OF assms Some]
  show thesis
  proof (cases "entry_is_expired (deref (st w) ptr) (now_of w)")
    case True
    then show thesis
      using assms Some l
      by (intro expired [of ptr]) (auto simp: find_entry_unlocked_def split_beta Let_def frame wf_storeD)
  next
    case False
    then show thesis
      using assms Some l
      by (intro live [of ptr]) (auto simp: find_entry_unlocked_def split_beta Let_def frame wf_storeD)
  qed
qed

lemma wf_find_entry [wf_intro]:
  assumes "wf_store base (st w)"
  shows "wf_store base (st (snd (find_entry_unlocked k w)))"
  using assms by (rule find_entry_cases [where k = k]) (auto simp: assms intro: wf_intro)

lemma find_entry_Some:
  assumes "wf_store base (st w)" and "find_entry_unlocked k w = (Some ptr, w')"
  shows "valid_ptr (st w') ptr" "st w' = st w" "e_key (deref (st w) ptr) = k"
    "lookup (st w) k = Some (deref (st w) ptr)" "\<not> entry_is_expired (deref (st w) ptr) (now_of w)"
proof -
  have *: "valid_ptr (st w') ptr \<and> st w' = st w \<and> e_key (deref (st w) ptr) = k \<and>
    lookup (st w) k = Some (deref (st w) ptr) \<and> \<not> entry_is_expired (deref (st w) ptr) (now_of w)"
    using assms(1) by (rule find_entry_cases [where k = k]) (use assms(2) in auto)
  then show "valid_ptr (st w') ptr" "st w' = st w" "e_key (deref (st w) ptr) = k"
    "lookup (st w) k = Some (deref (st w) ptr)" "\<not> entry_is_expired (deref (st w) ptr) (now_of w)"
    by blast+
qed

lemma find_entry_None:
  assumes "wf_store base (st w)" and "find_entry_unlocked k w = (None, w')"
  shows "lookup (st w') = (lookup (st w))(k := None)"
    and "kv_size (st w') \<le> kv_size (st w)" and "allocated_bytes (st w') \<le> allocated_bytes (st w)"
proof -
  have *: "lookup (st w') = (lookup (st w))(k := None) \<and> kv_size (st w') \<le> kv_size (st w) \<and>
    allocated_bytes (st w') \<le> allocated_bytes (st w)"
    using assms(1)
    by (rule find_entry_cases [where k = k])
      (use assms in \<open>auto simp: lookup_expire_and_delete size_expire_and_delete
        allocated_expire_and_delete_le fun_eq_iff\<close>)
  then show "lookup (st w') = (lookup (st w))(k := None)"
    and "kv_size (st w') \<le> kv_size (st w)" and "allocated_bytes (st w') \<le> allocated_bytes (st w)"
    by blast+
qed

section \<open>Resizing\<close>

lemma rehash_concat:
  "rehash n bs = fold (\<lambda>e. push_at (hash_key (e_key e) n) e) (concat bs) (replicate n [])"
proof -
  have "fold (\<lambda>chain new. fold (\<lambda>e new. push_at (hash_key (e_key e) n) e new) chain new) bs new =
    fold (\<lambda>e. push_at (hash_key (e_key e) n) e) (concat bs) new" for new
    by (induction bs arbitrary: new) auto
  then show ?thesis by (simp add: rehash_def)
qed

lemma rehash_correct:
  assumes "placed hash_key e_key bs" and "bs \<noteq> []" and "0 < n"
  shows "placed hash_key e_key (rehash n bs)" "length (rehash n bs) = n"
    "table_find hash_key e_key (rehash n bs) k = table_find hash_key e_key bs k"
    "table_sum w (rehash n bs) = table_sum w bs"
proof -
  from assms entries.push_all [OF entries.distinct_concat_placed [OF assms(1)]
      entries.placed_empty [of n], of n k w]
  show "placed hash_key e_key (rehash n bs)" "length (rehash n bs) = n"
    "table_find hash_key e_key (rehash n bs) k = table_find hash_key e_key bs k"
    "table_sum w (rehash n bs) = table_sum w bs"
    by (auto simp: rehash_concat entries.find_empty entries.find_concat_placed
        sum_list_map_concat split: option.splits)
qed

lemma wf_entry_rehash:
  assumes "wf_store base s" and "0 < n"
  shows "\<forall>b\<in>set (rehash n (buckets s)). \<forall>e\<in>set b. wf_entry e"
proof (intro ballI)
  fix b e assume b: "b \<in> set (rehash n (buckets s))" and e: "e \<in> set b"
  note wf = wf_storeD [OF assms(1)]
  note r = rehash_correct [OF wf(5,3) assms(2)]
  from b e obtain i p where "i < length (rehash n (buckets s))" "p < length (rehash n (buckets s) ! i)"
    and eq: "rehash n (buckets s) ! i ! p = e"
    by (metis in_set_conv_nth)
  then have "table_find hash_key e_key (rehash n (buckets s)) (e_key e) = Some e"
    using entries.table_find_at [OF r(1)] by metis
  then have "lookup s (e_key e) = Some e"
    by (simp add: r(3) lookup_def)
  then show "wf_entry e" using lookup_wf [OF assms(1)] by blast
qed

lemma kv_resize_unlocked_frame [frame]:
  "aof (snd (kv_resize_unlocked n w)) = aof w" "repl (snd (kv_resize_unlocked n w)) = repl w"
  "lock_trace (snd (kv_resize_unlocked n w)) = lock_trace w"
  "lock_initialized (st (snd (kv_resize_unlocked n w))) = lock_initialized (st w)"
  "bucket_locks (st (snd (kv_resize_unlocked n w))) = bucket_locks (st w)"
  "num_locks (st (snd (kv_resize_unlocked n w))) = num_locks (st w)"
  "kv_size (st (snd (kv_resize_unlocked n w))) = kv_size (st w)"
  "max_capacity (st (snd (kv_resize_unlocked n w))) = max_capacity (st w)"
  "max_memory_budget (st (snd (kv_resize_unlocked n w))) = max_memory_budget (st w)"
  "lru_clock (st (snd (kv_resize_unlocked n w))) = lru_clock (st w)"
  by (auto simp: kv_resize_unlocked_def Let_def split_beta frame)

lemma kv_resize_unlocked_cases:
  assumes "wf_store base (st w)"
  obtains (refused) "fst (kv_resize_unlocked n w) \<noteq> KV_OK" "st (snd (kv_resize_unlocked n w)) = st w"
  | (resized) "fst (kv_resize_unlocked n w) = KV_OK" "0 < n" "n * sizeof_ptr < 2 ^ 64"
      "max_memory_budget (st w) = 0 \<or> allocated_bytes (st w) + n * sizeof_ptr \<le> max_memory_budget (st w)"
      "st (snd (kv_resize_unlocked n w)) =
        (add_bytes (n * sizeof_ptr) (st w))\<lparr>buckets := rehash n (buckets (st w)), bucket_count := n,
          allocated_bytes := allocated_bytes (st w) + n * sizeof_ptr - bucket_count (st w) * sizeof_ptr\<rparr>"
proof (cases "fst (kv_resize_unlocked n w) = KV_OK")
  case True
  note wf = wf_storeD [OF assms]
  from True have n: "0 < n" "n * sizeof_ptr < 2 ^ 64"
    by (auto simp: kv_resize_unlocked_def Let_def split_beta tracked_calloc_def split: if_splits)
  show thesis
    using True n wf
    by (intro resized) (auto simp: kv_resize_unlocked_def Let_def split_beta frame split: if_splits)
next
  case False
  then show thesis
    by (intro refused) (auto simp: kv_resize_unlocked_def Let_def split_beta frame)
qed

lemma wf_resize_unlocked [wf_intro]:
  assumes "wf_store base (st w)"
  shows "wf_store base (st (snd (kv_resize_unlocked n w)))"
  using assms
proof (rule kv_resize_unlocked_cases [where n = n])
  assume n: "0 < n" "n * sizeof_ptr < 2 ^ 64"
    and s': "st (snd (kv_resize_unlocked n w)) =
        (add_bytes (n * sizeof_ptr) (st w))\<lparr>buckets := rehash n (buckets (st w)), bucket_count := n,
          allocated_bytes := allocated_bytes (st w) + n * sizeof_ptr - bucket_count (st w) * sizeof_ptr\<rparr>"
  note wf = wf_storeD [OF assms]
  have "allocated_bytes (st w) + n * sizeof_ptr - bucket_count (st w) * sizeof_ptr
      \<le> peak_allocated_bytes (add_bytes (n * sizeof_ptr) (st w))"
    using add_bytes_peak(1) [of "st w" "n * sizeof_ptr"] by linarith
  then show ?thesis
    using n wf rehash_correct [OF wf(5,3) n(1)] wf_entry_rehash [OF assms n(1)]
    by (simp add: s' wf_store_def)
qed (simp add: assms)

lemma lookup_resize_unlocked:
  assumes "wf_store base (st w)"
  shows "lookup (st (snd (kv_resize_unlocked n w))) = lookup (st w)"
  using assms
proof (rule kv_resize_unlocked_cases [where n = n])
  assume n: "0 < n"
    and s': "st (snd (kv_resize_unlocked n w)) =
        (add_bytes (n * sizeof_ptr) (st w))\<lparr>buckets := rehash n (buckets (st w)), bucket_count := n,
          allocated_bytes := allocated_bytes (st w) + n * sizeof_ptr - bucket_count (st w) * sizeof_ptr\<rparr>"
  note wf = wf_storeD [OF assms]
  show ?thesis
    using rehash_correct(3) [OF wf(5,3) n] by (auto simp: s' lookup_def)
qed simp

lemma budget_resize_unlocked:
  assumes "wf_store base (st w)" and "within_budget (st w)"
  shows "within_budget (st (snd (kv_resize_unlocked n w)))"
  using assms(1)
  by (rule kv_resize_unlocked_cases [where n = n])
    (use assms(2) in \<open>auto simp: within_budget_def\<close>)

lemma no_oom_resize_unlocked [simp]: "no_oom w \<Longrightarrow> no_oom (snd (kv_resize_unlocked n w))"
  using tracked_calloc_no_oom(2) [of w n sizeof_ptr]
  by (auto simp: kv_resize_unlocked_def Let_def split_beta no_oom_def)

section \<open>The empty table\<close>

definition fresh_store :: "nat \<Rightarrow> nat \<Rightarrow> nat \<Rightarrow> kv_store" where
  "fresh_store n capacity budget =
     \<lparr>buckets = replicate n [], bucket_count = n, kv_size = 0, max_capacity = capacity,
      allocated_bytes = n * sizeof_ptr, peak_allocated_bytes = n * sizeof_ptr, max_memory_budget = budget,
      auto_resize = True, bucket_locks = True, num_locks = shard_count n, lock_initialized = True,
      lru_clock = 0, bgsave_pid = 0\<rparr>"

lemma fresh_store_sel [simp]:
  "max_capacity (fresh_store n c b) = c" "max_memory_budget (fresh_store n c b) = b"
  "lock_initialized (fresh_store n c b)" "bucket_count (fresh_store n c b) = n" "kv_size (fresh_store n c b) = 0"
  "allocated_bytes (fresh_store n c b) = n * sizeof_ptr" "lru_clock (fresh_store n c b) = 0"
  by (simp_all add: fresh_store_def)

lemma wf_fresh_store: "0 < n \<Longrightarrow> n * sizeof_ptr < 2 ^ 64 \<Longrightarrow> wf_store 0 (fresh_store n capacity budget)"
  by (auto simp: wf_store_def fresh_store_def entries.placed_empty)

lemma lookup_fresh_store [simp]: "0 < n \<Longrightarrow> lookup (fresh_store n capacity budget) k = None"
  by (simp add: lookup_def fresh_store_def entries.find_empty)

lemma wf_store_eight [simp]: "wf_store 0 (fresh_store 8 capacity budget)"
  by (rule wf_fresh_store) simp_all

text \<open>A table of eight buckets with one entry.\<close>

definition singleton_store :: "nat \<Rightarrow> kv_entry \<Rightarrow> kv_store" where
  "singleton_store budget e = add_bytes (entry_bytes e) (insert_entry e (fresh_store 8 0 budget))"

lemma singleton_store_sel [simp]:
  "max_capacity (singleton_store b e) = 0" "max_memory_budget (singleton_store b e) = b"
  "lock_initialized (singleton_store b e)" "kv_size (singleton_store b e) = 1"
  "allocated_bytes (singleton_store b e) = 64 + entry_bytes e"
  "bucket_count (singleton_store b e) = 8" "lru_clock (singleton_store b e) = 0"
  by (simp_all add: singleton_store_def)

lemma wf_singleton_store [simp]: "wf_entry e \<Longrightarrow> wf_store 0 (singleton_store budget e)"
  unfolding singleton_store_def by (rule wf_insert_entry) simp_all

lemma lookup_singleton_store [simp]: "lookup (singleton_store budget e) = [e_key e \<mapsto> e]"
  using lookup_insert_entry [of 0 "fresh_store 8 0 budget" e] by (auto simp: singleton_store_def fun_eq_iff)

text \<open>Keys and values of the examples.\<close>

lemma example_strings [simp]:
  "cstring ''a''" "cstring ''1''" "cstring ''2''" "valid_key ''a''" "valid_value ''1''" "valid_value ''2''"
  by (simp_all add: cstring_def valid_key_def valid_value_def isspace_def)

definition string_entry :: "string \<Rightarrow> string \<Rightarrow> int \<Rightarrow> kv_entry" where
  "string_entry k v t = \<lparr>e_key = k, e_value = VString v, expire_at_ms = t, last_accessed_time = 0\<rparr>"

lemma string_entry_sel [simp]:
  "e_key (string_entry k v t) = k" "e_value (string_entry k v t) = VString v"
  "expire_at_ms (string_entry k v t) = t" "last_accessed_time (string_entry k v t) = 0" "entry_bytes (string_entry k v t) = 50 + length k + length v"
  "wf_entry (string_entry k v t) \<longleftrightarrow> valid_key k \<and> cstring k \<and> valid_value v \<and> cstring v"
  by (simp_all add: string_entry_def entry_bytes_def wf_entry_def)

section \<open>Properties\<close>

text \<open>C27. Resizing to any bucket count leaves every key with its entry, keeps the invariant
  with its exact byte and entry counts, and never breaks the memory budget.\<close>

theorem kv_resize_preserves_contents:
  assumes "wf_store base (st w)"
  shows "lookup (st (snd (kv_resize n w))) = lookup (st w) \<and>
    wf_store base (st (snd (kv_resize n w))) \<and>
    (within_budget (st w) \<longrightarrow> within_budget (st (snd (kv_resize n w))))"
  using assms lookup_resize_unlocked [of base "kv_acquire_all_locks w" n]
    wf_resize_unlocked [of base "kv_acquire_all_locks w" n]
    budget_resize_unlocked [of base "kv_acquire_all_locks w" n]
  by (simp add: kv_resize_def Let_def split_beta frame)

theorem kv_resize_preserves_contents_witness:
  "lookup (st (snd (kv_resize 3 (quiet_world 7 (singleton_store 0 (string_entry ''a'' ''1'' 0)))))) =
     [''a'' \<mapsto> string_entry ''a'' ''1'' 0]"
  using kv_resize_preserves_contents [of 0 "quiet_world 7 (singleton_store 0 (string_entry ''a'' ''1'' 0))" 3]
  by simp

lemma bucket_guarded_by_one_lock_witness:
  "kv_lock_index (fresh_store 64 0 0) ''a'' = kv_lock_index (fresh_store 64 0 0) ''ad''"
  by (rule bucket_guarded_by_one_lock) (simp_all add: fresh_store_def shard_count_def hash_key_def)

text \<open>Below 32 buckets there are more locks than buckets, and a bucket is no longer guarded
  by one lock: in a table of eight buckets the keys \<open>a\<close> and \<open>i\<close> share a chain, yet
  commands on them take different locks.\<close>

lemma shards_split_a_bucket:
  "hash_key ''a'' (bucket_count (fresh_store 8 0 0)) = hash_key ''i'' (bucket_count (fresh_store 8 0 0)) \<and>
   kv_lock_index (fresh_store 8 0 0) ''a'' \<noteq> kv_lock_index (fresh_store 8 0 0) ''i''"
  by (simp add: fresh_store_def shard_count_def kv_lock_index_def hash_key_def)

end
