(* ===== verification/KV_Evict.thy ===== *)
theory KV_Evict
  imports KV_Table
begin

text \<open>
  Eviction and active expiry, the part of \<^verbatim>\<open>src/eviction.c\<close> that works on the table alone:
  the xorshift generator, the sampled least-recently-used eviction, the loop that evicts
  until a request fits the memory budget, and the periodic sweep of expired entries.
\<close>

section \<open>Sampled LRU eviction\<close>

definition xorshift32 :: "32 word \<Rightarrow> 32 word" where
  "xorshift32 x0 =
     (let x = (if x0 = 0 then 2463534242 else x0);
          x = x XOR push_bit 13 x;
          x = x XOR drop_bit 17 x
      in x XOR push_bit 5 x)"

text \<open>The best candidate so far: its access time and its address.\<close>

type_synonym candidate = "64 word \<times> entry_ptr option"

fun scan_chain :: "nat \<Rightarrow> nat \<Rightarrow> kv_entry list \<Rightarrow> candidate \<Rightarrow> candidate" where
  "scan_chain idx p [] best = best"
| "scan_chain idx p (e # es) best =
     scan_chain idx (Suc p) es
       (if last_accessed_time e < fst best then (last_accessed_time e, Some (idx, p)) else best)"

text \<open>At most 64 draws, stopping once 16 non-empty buckets have been scanned.\<close>

fun sample_loop :: "nat \<Rightarrow> kv_store \<Rightarrow> nat \<Rightarrow> 32 word \<Rightarrow> candidate \<Rightarrow> 32 word \<times> candidate" where
  "sample_loop 0 s samples_found x best = (x, best)"
| "sample_loop (Suc n) s samples_found x best =
     (if samples_found < 16
      then let x1 = xorshift32 x;
               idx = unat x1 mod bucket_count s
           in if buckets s ! idx \<noteq> []
              then sample_loop n s (samples_found + 1) x1 (scan_chain idx 0 (buckets s ! idx) best)
              else sample_loop n s samples_found x1 best
      else (x, best))"

definition linear_scan :: "kv_store \<Rightarrow> candidate \<Rightarrow> candidate" where
  "linear_scan s best = fold (\<lambda>idx. scan_chain idx 0 (buckets s ! idx)) [0..<bucket_count s] best"

definition kv_evict_lru_unlocked :: "world \<Rightarrow> int \<times> world" where
  "kv_evict_lru_unlocked w =
     (if kv_size (st w) = 0 \<or> buckets (st w) = [] then (KV_ERR_NOT_FOUND, w)
      else
        (let (x, best) = sample_loop 64 (st w) 0 (g_xorshift_state (os w)) (- 1, None);
             w1 = w\<lparr>os := (os w)\<lparr>g_xorshift_state := x\<rparr>\<rparr>;
             best1 = (if snd best = None then linear_scan (st w1) best else best)
         in case snd best1 of
              Some ptr \<Rightarrow> (KV_OK, upd_st (expire_and_delete_unlocked ptr) w1)
            | None \<Rightarrow> (KV_ERR_INTERNAL, w1)))"

definition kv_evict_lru :: "world \<Rightarrow> int \<times> world" where
  "kv_evict_lru w =
     (if \<not> lock_initialized (st w) then (KV_ERR_INVALID_PARAM, w)
      else
        (let w1 = kv_acquire_all_locks w;
             (res, w2) = kv_evict_lru_unlocked w1
         in (res, kv_release_all_locks w2)))"

section \<open>Evicting until a request fits\<close>

lemma evict_decreases_size:
  "fst (kv_evict_lru_unlocked w) = KV_OK \<Longrightarrow>
     kv_size (st (snd (kv_evict_lru_unlocked w))) < kv_size (st w)"
  by (auto simp: kv_evict_lru_unlocked_def Let_def split_beta size_expire_and_delete
      split: if_splits option.splits)

text \<open>The loop \<^verbatim>\<open>while (allocated + need > budget && size > 0) if (evict() != KV_OK) break;\<close>.\<close>

function evict_for :: "nat \<Rightarrow> world \<Rightarrow> world" where
  "evict_for need w =
     (if allocated_bytes (st w) + need > max_memory_budget (st w) \<and> kv_size (st w) > 0
      then if fst (kv_evict_lru_unlocked w) \<noteq> KV_OK then snd (kv_evict_lru_unlocked w)
           else evict_for need (snd (kv_evict_lru_unlocked w))
      else w)"
  by pat_completeness auto
termination
  by (relation "measure (\<lambda>(need, w). kv_size (st w))") (auto simp: evict_decreases_size)

declare evict_for.simps [simp del]

section \<open>Active expiry\<close>

text \<open>Walking one chain: \<open>p\<close> is the position of the current node in what is left of the
  chain, the list the nodes still to visit.\<close>

fun sweep_chain :: "nat \<Rightarrow> int \<Rightarrow> nat \<Rightarrow> nat \<Rightarrow> kv_entry list \<Rightarrow> nat \<Rightarrow> kv_store \<Rightarrow> nat \<times> kv_store" where
  "sweep_chain idx now max_del p [] deleted s = (deleted, s)"
| "sweep_chain idx now max_del p (e # es) deleted s =
     (if deleted < max_del
      then if expire_at_ms e > 0 \<and> expire_at_ms e \<le> now
           then sweep_chain idx now max_del p es (deleted + 1) (expire_and_delete_unlocked (idx, p) s)
           else sweep_chain idx now max_del (Suc p) es deleted s
      else (deleted, s))"

fun sampled_sweep :: "nat \<Rightarrow> int \<Rightarrow> nat \<Rightarrow> 32 word \<Rightarrow> nat \<Rightarrow> kv_store \<Rightarrow> 32 word \<times> nat \<times> kv_store" where
  "sampled_sweep 0 now max_del x deleted s = (x, deleted, s)"
| "sampled_sweep (Suc n) now max_del x deleted s =
     (if deleted < max_del \<and> kv_size s > 0
      then let x1 = xorshift32 x;
               idx = unat x1 mod bucket_count s;
               (d, s1) = sweep_chain idx now max_del 0 (buckets s ! idx) deleted s
           in sampled_sweep n now max_del x1 d s1
      else (x, deleted, s))"

fun full_sweep :: "nat list \<Rightarrow> int \<Rightarrow> nat \<Rightarrow> nat \<Rightarrow> kv_store \<Rightarrow> nat \<times> kv_store" where
  "full_sweep [] now max_del deleted s = (deleted, s)"
| "full_sweep (idx # idxs) now max_del deleted s =
     (if deleted < max_del \<and> kv_size s > 0
      then let (d, s1) = sweep_chain idx now max_del 0 (buckets s ! idx) deleted s
           in full_sweep idxs now max_del d s1
      else (deleted, s))"

definition kv_expire_sample_sweep :: "nat \<Rightarrow> nat \<Rightarrow> world \<Rightarrow> nat \<times> world" where
  "kv_expire_sample_sweep sample_size max_del w =
     (if \<not> lock_initialized (st w) then (0, w)
      else
        (let w1 = kv_acquire_all_locks w
         in if kv_size (st w1) = 0 then (0, kv_release_all_locks w1)
            else
              (let (now, w2) = kv_current_time_ms w1;
                   tries = (if sample_size < 16 then 16 else sample_size);
                   (x, d, s1) = sampled_sweep tries now max_del (g_xorshift_state (os w2)) 0 (st w2);
                   (d', s2) = (if sample_size \<ge> 100 \<or> (d = 0 \<and> kv_size s1 > 0)
                               then full_sweep [0..<bucket_count s1] now max_del d s1 else (d, s1));
                   w3 = w2\<lparr>st := s2, os := (os w2)\<lparr>g_xorshift_state := x\<rparr>\<rparr>
               in (d', kv_release_all_locks w3))))"

text \<open>The timer of the event loop submits this task to the pool (\<^verbatim>\<open>src/server.c\<close>).\<close>

definition eviction_sweep_task :: "world \<Rightarrow> world" where
  "eviction_sweep_task w = snd (kv_expire_sample_sweep 20 10 w)"

section \<open>The candidate is least recently used\<close>

text \<open>What a scan over the buckets \<open>I\<close> has established: either nothing is older than the
  initial bound, or the candidate is a real entry of one of the buckets and none of their
  entries was accessed earlier.\<close>

definition oldest_in :: "kv_store \<Rightarrow> nat set \<Rightarrow> candidate \<Rightarrow> bool" where
  "oldest_in s I best \<longleftrightarrow>
     (\<forall>i\<in>I. \<forall>e\<in>set (buckets s ! i). fst best \<le> last_accessed_time e) \<and>
     (case snd best of
        None \<Rightarrow> fst best = - 1
      | Some ptr \<Rightarrow> valid_ptr s ptr \<and> fst ptr \<in> I \<and> fst best = last_accessed_time (deref s ptr))"

lemma scan_chain_spec:
  "fst (scan_chain idx p es best) \<le> fst best \<and>
   (\<forall>e\<in>set es. fst (scan_chain idx p es best) \<le> last_accessed_time e) \<and>
   (scan_chain idx p es best = best \<or>
    (\<exists>q<length es. scan_chain idx p es best = (last_accessed_time (es ! q), Some (idx, p + q))))"
proof (induction es arbitrary: p best)
  case Nil
  then show ?case by simp
next
  case (Cons e es)
  let ?best = "if last_accessed_time e < fst best then (last_accessed_time e, Some (idx, p)) else best"
  have b: "fst ?best \<le> fst best" "fst ?best \<le> last_accessed_time e"
    by auto
  note ih = Cons.IH [of "Suc p" ?best]
  have "fst (scan_chain idx (Suc p) es ?best) \<le> fst best"
    "fst (scan_chain idx (Suc p) es ?best) \<le> last_accessed_time e"
    using ih b by (blast intro: order_trans)+
  moreover have "scan_chain idx (Suc p) es ?best = best \<or>
    (\<exists>q<length (e # es). scan_chain idx (Suc p) es ?best =
       (last_accessed_time ((e # es) ! q), Some (idx, p + q)))"
  proof -
    from ih consider (same) "scan_chain idx (Suc p) es ?best = ?best"
      | (found) q where "q < length es"
        "scan_chain idx (Suc p) es ?best = (last_accessed_time (es ! q), Some (idx, Suc p + q))"
      by blast
    then show ?thesis
    proof cases
      case same
      then show ?thesis by (metis add_0_right length_greater_0_conv list.discI nth_Cons_0)
    next
      case (found q)
      then show ?thesis by (intro disjI2 exI [of _ "Suc q"]) simp
    qed
  qed
  ultimately show ?case using ih by simp
qed

lemma oldest_scan:
  assumes "oldest_in s I best" and "idx < length (buckets s)"
  shows "oldest_in s (insert idx I) (scan_chain idx 0 (buckets s ! idx) best)"
proof -
  let ?b = "scan_chain idx 0 (buckets s ! idx) best"
  note sc = scan_chain_spec [of idx 0 "buckets s ! idx" best]
  have le: "\<forall>i\<in>insert idx I. \<forall>e\<in>set (buckets s ! i). fst ?b \<le> last_accessed_time e"
    using sc assms(1) by (fastforce simp: oldest_in_def)
  from sc consider (same) "?b = best"
    | (found) q where "q < length (buckets s ! idx)"
        "?b = (last_accessed_time (buckets s ! idx ! q), Some (idx, q))"
    by auto
  then show ?thesis
  proof cases
    case same
    with le assms show ?thesis by (auto simp: oldest_in_def split: option.splits)
  next
    case (found q)
    with le assms show ?thesis by (auto simp: oldest_in_def valid_ptr_def)
  qed
qed

text \<open>The non-empty buckets the sampling visits.\<close>

fun sampled :: "nat \<Rightarrow> kv_store \<Rightarrow> nat \<Rightarrow> 32 word \<Rightarrow> nat set" where
  "sampled 0 s found x = {}"
| "sampled (Suc n) s found x =
     (if found < 16
      then let idx = unat (xorshift32 x) mod bucket_count s
           in if buckets s ! idx \<noteq> [] then insert idx (sampled n s (found + 1) (xorshift32 x))
              else sampled n s found (xorshift32 x)
      else {})"

lemma sample_loop_oldest:
  assumes "oldest_in s I best" and "bucket_count s = length (buckets s)" and "0 < bucket_count s"
  shows "oldest_in s (I \<union> sampled n s found x) (snd (sample_loop n s found x best))"
  using assms
proof (induction n arbitrary: I found x best)
  case 0
  then show ?case by simp
next
  case (Suc n)
  let ?idx = "unat (xorshift32 x) mod bucket_count s"
  have i: "?idx < length (buckets s)" using Suc.prems by simp
  show ?case
    using Suc.IH [OF oldest_scan [OF Suc.prems(1) i] Suc.prems(2,3), of "found + 1" "xorshift32 x"]
      Suc.IH [OF Suc.prems, of found "xorshift32 x"] Suc.prems(1)
    by (auto simp: Let_def)
qed

lemma linear_scan_oldest:
  assumes "oldest_in s I best" and "bucket_count s = length (buckets s)"
  shows "oldest_in s (I \<union> {0..<bucket_count s}) (linear_scan s best)"
proof -
  have "oldest_in s (I \<union> {0..<n}) (fold (\<lambda>idx. scan_chain idx 0 (buckets s ! idx)) [0..<n] best)"
    if "n \<le> bucket_count s" for n
    using that
  proof (induction n)
    case 0
    with assms show ?case by simp
  next
    case (Suc n)
    then show ?case
      using oldest_scan [of s "I \<union> {0..<n}" _ n] assms(2) by (simp add: atLeast0_lessThan_Suc)
  qed
  then show ?thesis by (simp add: linear_scan_def)
qed

lemma evict_cases:
  assumes "wf_store base (st w)"
  obtains (stuck) "fst (kv_evict_lru_unlocked w) \<noteq> KV_OK"
      "st (snd (kv_evict_lru_unlocked w)) = st w"
      "kv_size (st w) = 0 \<or> (\<forall>b\<in>set (buckets (st w)). \<forall>e\<in>set b. last_accessed_time e = - 1)"
  | (evicted) ptr where "fst (kv_evict_lru_unlocked w) = KV_OK" "valid_ptr (st w) ptr"
      "st (snd (kv_evict_lru_unlocked w)) = expire_and_delete_unlocked ptr (st w)"
      "\<forall>i\<in>sampled 64 (st w) 0 (g_xorshift_state (os w)). \<forall>e\<in>set (buckets (st w) ! i).
         last_accessed_time (deref (st w) ptr) \<le> last_accessed_time e"
proof (cases "kv_size (st w) = 0")
  case True
  then show thesis by (intro stuck) (auto simp: kv_evict_lru_unlocked_def)
next
  case False
  note wf = wf_storeD [OF assms]
  define best where "best = snd (sample_loop 64 (st w) 0 (g_xorshift_state (os w)) (- 1, None))"
  define final where "final = (if snd best = None then linear_scan (st w) best else best)"
  have run: "kv_evict_lru_unlocked w = (case snd final of
      Some ptr \<Rightarrow> (KV_OK, upd_st (expire_and_delete_unlocked ptr)
         (w\<lparr>os := (os w)\<lparr>g_xorshift_state := fst (sample_loop 64 (st w) 0 (g_xorshift_state (os w)) (- 1, None))\<rparr>\<rparr>))
    | None \<Rightarrow> (KV_ERR_INTERNAL,
         w\<lparr>os := (os w)\<lparr>g_xorshift_state := fst (sample_loop 64 (st w) 0 (g_xorshift_state (os w)) (- 1, None))\<rparr>\<rparr>))"
    using False wf(3) by (simp add: kv_evict_lru_unlocked_def final_def best_def Let_def split_beta)
  have "oldest_in (st w) {} (- 1, None)" by (simp add: oldest_in_def)
  from sample_loop_oldest [OF this wf(1,2)]
  have best: "oldest_in (st w) (sampled 64 (st w) 0 (g_xorshift_state (os w))) best"
    by (simp add: best_def)
  from linear_scan_oldest [OF best wf(1)]
  have lin: "oldest_in (st w) (sampled 64 (st w) 0 (g_xorshift_state (os w)) \<union> {0..<bucket_count (st w)})
    (linear_scan (st w) best)" .
  show thesis
  proof (cases "snd final")
    case None
    then have "snd best = None" "snd (linear_scan (st w) best) = None"
      by (auto simp: final_def split: if_splits)
    with lin have "\<forall>i<length (buckets (st w)). \<forall>e\<in>set (buckets (st w) ! i). - 1 \<le> last_accessed_time e"
      using wf(1) by (auto simp: oldest_in_def ball_Un)
    then have "\<forall>b\<in>set (buckets (st w)). \<forall>e\<in>set b. last_accessed_time e = - 1"
      by (metis in_set_conv_nth word_order.extremum_unique)
    then show thesis
      using None by (intro stuck) (auto simp: run)
  next
    case (Some ptr)
    have "valid_ptr (st w) ptr \<and> (\<forall>i\<in>sampled 64 (st w) 0 (g_xorshift_state (os w)).
        \<forall>e\<in>set (buckets (st w) ! i). last_accessed_time (deref (st w) ptr) \<le> last_accessed_time e)"
      using Some best lin by (auto simp: final_def oldest_in_def split: if_splits)
    then show thesis
      using Some by (intro evicted [of ptr]) (auto simp: run)
  qed
qed

lemma evict_frame [frame]:
  "aof (snd (kv_evict_lru_unlocked w)) = aof w" "repl (snd (kv_evict_lru_unlocked w)) = repl w"
  "lock_trace (snd (kv_evict_lru_unlocked w)) = lock_trace w"
  by (auto simp: kv_evict_lru_unlocked_def Let_def split_beta split: option.splits)

lemma no_oom_evict: "no_oom (snd (kv_evict_lru_unlocked w)) = no_oom w"
  by (auto simp: kv_evict_lru_unlocked_def no_oom_def Let_def split_beta split: option.splits)

lemma now_of_evict: "now_of (snd (kv_evict_lru_unlocked w)) = now_of w"
  by (auto simp: kv_evict_lru_unlocked_def kv_current_time_ms_def Let_def split_beta split: option.splits)

section \<open>The contract of eviction\<close>

text \<open>\<open>shrunk s s'\<close>: entries may have disappeared, nothing else has changed that an
  operation in progress relies on.\<close>

definition shrunk :: "kv_store \<Rightarrow> kv_store \<Rightarrow> bool" where
  "shrunk s s' \<longleftrightarrow>
     lookup s' \<subseteq>\<^sub>m lookup s \<and> kv_size s' \<le> kv_size s \<and> allocated_bytes s' \<le> allocated_bytes s \<and>
     max_memory_budget s' = max_memory_budget s \<and> max_capacity s' = max_capacity s \<and>
     bucket_count s' = bucket_count s \<and> peak_allocated_bytes s' = peak_allocated_bytes s \<and>
     auto_resize s' = auto_resize s \<and> bucket_locks s' = bucket_locks s \<and>
     num_locks s' = num_locks s \<and> lock_initialized s' = lock_initialized s \<and>
     lru_clock s' = lru_clock s"

lemma shrunk_refl [simp]: "shrunk s s"
  by (simp add: shrunk_def)

lemma shrunk_trans: "shrunk s t \<Longrightarrow> shrunk t u \<Longrightarrow> shrunk s u"
  by (auto simp: shrunk_def intro: map_le_trans)

lemma shrunk_lookup: "shrunk s s' \<Longrightarrow> lookup s' k = Some e \<Longrightarrow> lookup s k = Some e"
  by (auto simp: shrunk_def map_le_def dom_def)

lemma shrunk_lookup_None: "shrunk s s' \<Longrightarrow> lookup s k = None \<Longrightarrow> lookup s' k = None"
  by (metis not_Some_eq shrunk_lookup)

lemma shrunk_expire_and_delete:
  assumes "wf_store base s" and "valid_ptr s ptr"
  shows "shrunk s (expire_and_delete_unlocked ptr s)"
  by (auto simp: shrunk_def map_le_def dom_def lookup_expire_and_delete [OF assms]
      size_expire_and_delete allocated_expire_and_delete_le split: if_splits)

lemma shrunk_find_entry:
  assumes "wf_store base (st w)"
  shows "shrunk (st w) (st (snd (find_entry_unlocked k w)))"
  using assms
  by (rule find_entry_cases [where k = k]) (auto intro: shrunk_expire_and_delete assms)

text \<open>An eviction policy and the loop that drives it: the policy removes at most one entry and
  makes progress when it reports success, the loop stops when the request fits, the table
  is empty or the policy gives up. What the mutating commands need of eviction follows from
  that alone.\<close>

locale eviction_policy =
  fixes evict :: "world \<Rightarrow> int \<times> world" and loop :: "nat \<Rightarrow> world \<Rightarrow> world"
  assumes evict_keeps_wf: "wf_store base (st w) \<Longrightarrow> wf_store base (st (snd (evict w)))"
    and evict_shrinks: "wf_store base (st w) \<Longrightarrow> shrunk (st w) (st (snd (evict w)))"
    and evict_progress: "fst (evict w) = KV_OK \<Longrightarrow> kv_size (st (snd (evict w))) < kv_size (st w)"
    and evict_others: "aof (snd (evict w)) = aof w" "repl (snd (evict w)) = repl w"
      "lock_trace (snd (evict w)) = lock_trace w" "no_oom (snd (evict w)) = no_oom w"
      "now_of (snd (evict w)) = now_of w"
    and loop_unfold: "loop need w =
      (if allocated_bytes (st w) + need > max_memory_budget (st w) \<and> kv_size (st w) > 0
       then if fst (evict w) \<noteq> KV_OK then snd (evict w) else loop need (snd (evict w)) else w)"
begin

lemma loop_induct:
  assumes "P w"
    and "\<And>w. P w \<Longrightarrow> allocated_bytes (st w) + need > max_memory_budget (st w) \<Longrightarrow>
      kv_size (st w) > 0 \<Longrightarrow> P (snd (evict w))"
  shows "P (loop need w)"
  using assms(1)
proof (induction "kv_size (st w)" arbitrary: w rule: less_induct)
  case less
  show ?case
  proof (cases "allocated_bytes (st w) + need > max_memory_budget (st w) \<and> kv_size (st w) > 0")
    case True
    then have "P (snd (evict w))" using assms(2) less.prems by blast
    with True less.hyps evict_progress [of w] show ?thesis
      by (subst loop_unfold) auto
  next
    case False
    with less.prems show ?thesis by (subst loop_unfold) auto
  qed
qed

lemma loop_keeps_wf: "wf_store base (st w) \<Longrightarrow> wf_store base (st (loop need w))"
  by (rule loop_induct) (auto intro: evict_keeps_wf)

lemma loop_shrinks:
  assumes "wf_store base (st w)"
  shows "shrunk (st w) (st (loop need w))"
proof -
  have "wf_store base (st (loop need w)) \<and> shrunk (st w) (st (loop need w))"
    by (rule loop_induct) (use assms in \<open>auto intro: evict_keeps_wf evict_shrinks shrunk_trans\<close>)
  then show ?thesis by blast
qed

lemma loop_others:
  "aof (loop need w) = aof w" "repl (loop need w) = repl w" "lock_trace (loop need w) = lock_trace w"
  "no_oom (loop need w) = no_oom w" "now_of (loop need w) = now_of w"
proof -
  have "aof (loop need w) = aof w \<and> repl (loop need w) = repl w \<and>
    lock_trace (loop need w) = lock_trace w \<and> no_oom (loop need w) = no_oom w \<and> now_of (loop need w) = now_of w"
    by (rule loop_induct) (auto simp: evict_others)
  then show "aof (loop need w) = aof w" "repl (loop need w) = repl w"
    "lock_trace (loop need w) = lock_trace w" "no_oom (loop need w) = no_oom w"
    "now_of (loop need w) = now_of w"
    by blast+
qed

lemma loop_idle: "allocated_bytes (st w) + need \<le> max_memory_budget (st w) \<Longrightarrow> loop need w = w"
  by (subst loop_unfold) simp

text \<open>If the policy never gives up on a non-empty table, the request fits or the table is
  empty when the loop ends.\<close>

lemma loop_fits:
  assumes "\<And>w. P w \<Longrightarrow> kv_size (st w) > 0 \<Longrightarrow> fst (evict w) = KV_OK \<and> P (snd (evict w))" and "P w"
  shows "allocated_bytes (st (loop need w)) + need \<le> max_memory_budget (st (loop need w)) \<or>
    kv_size (st (loop need w)) = 0"
  using assms(2)
proof (induction "kv_size (st w)" arbitrary: w rule: less_induct)
  case less
  show ?case
  proof (cases "allocated_bytes (st w) + need > max_memory_budget (st w) \<and> kv_size (st w) > 0")
    case True
    with assms(1) [OF less.prems] less.hyps [of "snd (evict w)"] evict_progress [of w] show ?thesis
      by (subst (1 2 3) loop_unfold) auto
  next
    case False
    then show ?thesis by (subst (1 2 3) loop_unfold) auto
  qed
qed

end

interpretation lru: eviction_policy kv_evict_lru_unlocked evict_for
proof unfold_locales
  fix base and w :: world assume wf: "wf_store base (st w)"
  from wf show "wf_store base (st (snd (kv_evict_lru_unlocked w)))"
    by (rule evict_cases) (auto simp: wf intro: wf_expire_and_delete)
  from wf show "shrunk (st w) (st (snd (kv_evict_lru_unlocked w)))"
    by (rule evict_cases) (auto intro: shrunk_expire_and_delete [OF wf])
qed (auto simp: evict_decreases_size frame no_oom_evict now_of_evict evict_for.simps)


text \<open>No entry carries the last value the LRU clock can take.\<close>

definition clock_live :: "kv_store \<Rightarrow> bool" where
  "clock_live s \<longleftrightarrow> (\<forall>b\<in>set (buckets s). \<forall>e\<in>set b. last_accessed_time e \<noteq> - 1)"

lemma clock_live_evict:
  assumes "wf_store base (st w)" and "clock_live (st w)" and "kv_size (st w) > 0"
  shows "fst (kv_evict_lru_unlocked w) = KV_OK" and "clock_live (st (snd (kv_evict_lru_unlocked w)))"
proof -
  have sub: "clock_live (expire_and_delete_unlocked ptr (st w))" for ptr
    using assms(2) set_remove_nth_subset [of "snd ptr" "buckets (st w) ! fst ptr"]
    by (cases "fst ptr < length (buckets (st w))")
      (fastforce simp: clock_live_def expire_and_delete_unlocked_def split_beta Let_def remove_at_def
        list_update_beyond dest!: set_update_subset_insert [THEN subsetD])+
  have some: "\<exists>b\<in>set (buckets (st w)). b \<noteq> []"
    using assms(3) wf_storeD(6) [OF assms(1)] table_sum_all_empty by (metis less_nat_zero_code)
  from assms(1) show "fst (kv_evict_lru_unlocked w) = KV_OK"
  proof (rule evict_cases)
    assume "kv_size (st w) = 0 \<or> (\<forall>b\<in>set (buckets (st w)). \<forall>e\<in>set b. last_accessed_time e = - 1)"
    with some assms(2,3) show ?thesis
      by (metis bot_nat_0.not_eq_extremum clock_live_def list.set_sel(1))
  qed simp
  from assms(1) show "clock_live (st (snd (kv_evict_lru_unlocked w)))"
    by (rule evict_cases) (use assms(2) sub in auto)
qed

lemma clock_live_singleton [simp]: "last_accessed_time e \<noteq> - 1 \<Longrightarrow> clock_live (singleton_store budget e)"
  by (auto simp: clock_live_def singleton_store_def insert_entry_def fresh_store_def push_at_def
      hash_key_less dest!: set_update_subset_insert [THEN subsetD])


text \<open>As long as no entry carries the last value of the LRU clock, the eviction loop ends
  with room for the request or an empty table.\<close>

lemma evict_for_makes_room:
  assumes "wf_store base (st w)" and "clock_live (st w)"
  shows "allocated_bytes (st (evict_for need w)) + need \<le> max_memory_budget (st w) \<or>
    kv_size (st (evict_for need w)) = 0"
proof -
  have "allocated_bytes (st (evict_for need w)) + need \<le> max_memory_budget (st (evict_for need w)) \<or>
    kv_size (st (evict_for need w)) = 0"
    by (rule lru.loop_fits [where P = "\<lambda>w. wf_store base (st w) \<and> clock_live (st w)"])
      (use assms in \<open>auto intro: clock_live_evict lru.evict_keeps_wf\<close>)
  then show ?thesis
    using lru.loop_shrinks [OF assms(1), of need] by (simp add: shrunk_def)
qed

lemma evict_for_makes_room_witness:
  "allocated_bytes (st (evict_for 100 (quiet_world 7 (singleton_store 200 (string_entry ''a'' ''1'' 0))))) + 100 \<le> 200 \<or>
   kv_size (st (evict_for 100 (quiet_world 7 (singleton_store 200 (string_entry ''a'' ''1'' 0))))) = 0"
  using evict_for_makes_room [of 0 "quiet_world 7 (singleton_store 200 (string_entry ''a'' ''1'' 0))" 100]
  by simp

section \<open>Sweeping expired entries\<close>

text \<open>\<open>swept now s s'\<close>: every entry that has gone was expired at \<open>now\<close>.\<close>

definition swept :: "int \<Rightarrow> kv_store \<Rightarrow> kv_store \<Rightarrow> bool" where
  "swept now s s' \<longleftrightarrow>
     shrunk s s' \<and> (\<forall>k e. lookup s k = Some e \<longrightarrow> \<not> entry_is_expired e now \<longrightarrow> lookup s' k = Some e)"

lemma swept_refl [simp]: "swept now s s"
  by (simp add: swept_def)

lemma swept_trans: "swept now s t \<Longrightarrow> swept now t u \<Longrightarrow> swept now s u"
  by (auto simp: swept_def intro: shrunk_trans)

lemma swept_delete:
  assumes "wf_store base s" and "valid_ptr s ptr" and "entry_is_expired (deref s ptr) now"
  shows "swept now s (expire_and_delete_unlocked ptr s)"
  using assms lookup_deref [OF assms(1,2)] shrunk_expire_and_delete [OF assms(1,2)]
  by (auto simp: swept_def lookup_expire_and_delete)

lemma sweep_chain_correct:
  assumes "wf_store base s" and "idx < length (buckets s)" and "drop p (buckets s ! idx) = es"
    and "sweep_chain idx now max_del p es d s = (d', s')" and "d \<le> max_del"
  shows "wf_store base s' \<and> swept now s s' \<and> d \<le> d' \<and> d' \<le> max_del \<and>
    kv_size s' + d' = kv_size s + d \<and> length (buckets s') = length (buckets s) \<and>
    (\<forall>i<length (buckets s). i \<noteq> idx \<longrightarrow> buckets s' ! i = buckets s ! i) \<and>
    (d' < max_del \<longrightarrow> (\<forall>e\<in>set (drop p (buckets s' ! idx)). \<not> entry_is_expired e now)) \<and>
    take p (buckets s' ! idx) = take p (buckets s ! idx)"
  using assms
proof (induction es arbitrary: p d s)
  case Nil
  then show ?case by simp
next
  case (Cons e es)
  have p: "p < length (buckets s ! idx)" and e: "buckets s ! idx ! p = e"
    and es: "drop (Suc p) (buckets s ! idx) = es"
    using drop_eq_Cons [OF Cons.prems(3)] by simp_all
  have v: "valid_ptr s (idx, p)" using Cons.prems(2) p by (simp add: valid_ptr_def)
  show ?case
  proof (cases "d < max_del \<and> entry_is_expired e now")
    case True
    let ?s = "expire_and_delete_unlocked (idx, p) s"
    have bs: "buckets ?s = remove_at idx p (buckets s)"
      by (simp add: expire_and_delete_unlocked_def Let_def)
    have "kv_size s > 0"
      using table_sum_member_le [of idx "buckets s" e "\<lambda>_. 1"] Cons.prems(1,2) p e
      by (auto simp: wf_store_def)
    moreover have "drop p (buckets ?s ! idx) = es" "take p (buckets ?s ! idx) = take p (buckets s ! idx)"
      using Cons.prems(2) p es by (simp_all add: bs remove_at_def remove_nth_def)
    moreover have "sweep_chain idx now max_del p es (d + 1) ?s = (d', s')"
      using Cons.prems(4) True by (auto simp: entry_is_expired_def)
    moreover have "swept now s ?s"
      using swept_delete [OF Cons.prems(1) v] True e by simp
    ultimately show ?thesis
      using Cons.IH [of ?s p "d + 1"] wf_expire_and_delete [OF Cons.prems(1) v] Cons.prems(2) True
      by (auto simp: bs size_expire_and_delete remove_at_def intro: swept_trans)
  next
    case False
    show ?thesis
    proof (cases "d < max_del")
      case lt: True
      with False have ne: "\<not> entry_is_expired e now" by simp
      with lt Cons.prems(4) have "sweep_chain idx now max_del (Suc p) es d s = (d', s')"
        by (auto simp: entry_is_expired_def)
      note ih = Cons.IH [OF Cons.prems(1,2) es this Cons.prems(5)]
      have "drop p (buckets s' ! idx) = e # drop (Suc p) (buckets s' ! idx) \<and>
        take p (buckets s' ! idx) = take p (buckets s ! idx)"
        if t: "take (Suc p) (buckets s' ! idx) = take (Suc p) (buckets s ! idx)"
      proof -
        have len: "p < length (buckets s' ! idx)"
          using arg_cong [OF t, of length] p by simp
        have "buckets s' ! idx ! p = e"
          using arg_cong [OF t, of "\<lambda>l. l ! p"] e by simp
        with len have "drop p (buckets s' ! idx) = e # drop (Suc p) (buckets s' ! idx)"
          by (metis Cons_nth_drop_Suc)
        moreover have "take p (buckets s' ! idx) = take p (buckets s ! idx)"
          using arg_cong [OF t, of "take p"] by (simp add: min_def)
        ultimately show ?thesis by blast
      qed
      with ih ne show ?thesis by auto
    next
      case False
      with Cons.prems show ?thesis by auto
    qed
  qed
qed

text \<open>The whole of a sweep step: what it keeps and how it counts.\<close>

definition sweep_ok :: "nat \<Rightarrow> int \<Rightarrow> nat \<Rightarrow> nat \<times> kv_store \<Rightarrow> nat \<times> kv_store \<Rightarrow> bool" where
  "sweep_ok base now max_del a b \<longleftrightarrow>
     wf_store base (snd b) \<and> swept now (snd a) (snd b) \<and> fst a \<le> fst b \<and> fst b \<le> max_del \<and>
     kv_size (snd b) + fst b = kv_size (snd a) + fst a \<and>
     length (buckets (snd b)) = length (buckets (snd a))"

lemma sweep_ok_trans:
  "sweep_ok base now max_del a b \<Longrightarrow> sweep_ok base now max_del b c \<Longrightarrow> sweep_ok base now max_del a c"
  by (auto simp: sweep_ok_def intro: swept_trans)

lemma sweep_chain_ok:
  assumes "wf_store base s" and "idx < length (buckets s)" and "d \<le> max_del"
  shows "sweep_ok base now max_del (d, s) (sweep_chain idx now max_del 0 (buckets s ! idx) d s)"
  using sweep_chain_correct [OF assms(1,2), of 0 "buckets s ! idx" now max_del d] assms(3)
  by (cases "sweep_chain idx now max_del 0 (buckets s ! idx) d s") (simp add: sweep_ok_def)

lemma sampled_sweep_ok:
  assumes "wf_store base s" and "d \<le> max_del"
  shows "sweep_ok base now max_del (d, s) (snd (sampled_sweep n now max_del x d s))"
  using assms
proof (induction n arbitrary: x d s)
  case 0
  then show ?case by (simp add: sweep_ok_def)
next
  case (Suc n)
  let ?idx = "unat (xorshift32 x) mod bucket_count s"
  obtain d1 s1 where c: "sweep_chain ?idx now max_del 0 (buckets s ! ?idx) d s = (d1, s1)"
    by fastforce
  have i: "?idx < length (buckets s)" using wf_storeD [OF Suc.prems(1)] by simp
  note ok = sweep_chain_ok [OF Suc.prems(1) i Suc.prems(2), of now, unfolded c]
  then have "sweep_ok base now max_del (d1, s1) (snd (sampled_sweep n now max_del (xorshift32 x) d1 s1))"
    using Suc.IH by (simp add: sweep_ok_def)
  with ok have "sweep_ok base now max_del (d, s) (snd (sampled_sweep n now max_del (xorshift32 x) d1 s1))"
    by (rule sweep_ok_trans)
  with c Suc.prems show ?case by (simp add: Let_def sweep_ok_def)
qed

lemma empty_no_entries: "wf_store base s \<Longrightarrow> kv_size s = 0 \<Longrightarrow> i < length (buckets s) \<Longrightarrow> buckets s ! i = []"
  using table_sum_member_le [of i "buckets s" _ "\<lambda>_. 1"] wf_storeD(6) [of base s]
  by (cases "buckets s ! i") fastforce+

lemma full_sweep_correct:
  assumes "wf_store base s" and "d \<le> max_del" and "distinct idxs" and "\<forall>i\<in>set idxs. i < length (buckets s)"
    and "full_sweep idxs now max_del d s = (d', s')"
  shows "sweep_ok base now max_del (d, s) (d', s') \<and>
    (\<forall>i<length (buckets s). i \<notin> set idxs \<longrightarrow> buckets s' ! i = buckets s ! i) \<and>
    (d' < max_del \<longrightarrow> (\<forall>i\<in>set idxs. \<forall>e\<in>set (buckets s' ! i). \<not> entry_is_expired e now))"
  using assms
proof (induction idxs arbitrary: d s)
  case Nil
  then show ?case by (simp add: sweep_ok_def)
next
  case (Cons idx idxs)
  show ?case
  proof (cases "d < max_del \<and> kv_size s > 0")
    case True
    obtain d1 s1 where c: "sweep_chain idx now max_del 0 (buckets s ! idx) d s = (d1, s1)"
      by fastforce
    from Cons.prems have i: "idx < length (buckets s)" by simp
    note ok = sweep_chain_ok [OF Cons.prems(1) i Cons.prems(2), of now, unfolded c]
    note cc = sweep_chain_correct [OF Cons.prems(1) i _ c Cons.prems(2)]
    have "full_sweep idxs now max_del d1 s1 = (d', s')"
      using Cons.prems(5) True c by simp
    with ok Cons.prems(3,4) Cons.IH [of s1 d1]
    have ih: "sweep_ok base now max_del (d1, s1) (d', s') \<and>
      (\<forall>i<length (buckets s1). i \<notin> set idxs \<longrightarrow> buckets s' ! i = buckets s1 ! i) \<and>
      (d' < max_del \<longrightarrow> (\<forall>i\<in>set idxs. \<forall>e\<in>set (buckets s' ! i). \<not> entry_is_expired e now))"
      by (simp add: sweep_ok_def)
    then have "d' < max_del \<Longrightarrow> \<forall>e\<in>set (buckets s' ! idx). \<not> entry_is_expired e now"
      using cc Cons.prems(3) i by (auto simp: sweep_ok_def)
    with ih sweep_ok_trans [OF ok] cc show ?thesis by auto
  next
    case False
    with Cons.prems have "d' = d" "s' = s" by auto
    with False Cons.prems empty_no_entries [OF Cons.prems(1)] show ?thesis
      by (auto simp: sweep_ok_def)
  qed
qed

lemma full_sweep_complete:
  assumes "wf_store base s" and "d \<le> max_del" and "full_sweep [0..<bucket_count s] now max_del d s = (d', s')"
    and "d' < max_del" and "lookup s' k = Some e"
  shows "\<not> entry_is_expired e now"
proof -
  note wf = wf_storeD [OF assms(1)]
  have fs: "sweep_ok base now max_del (d, s) (d', s') \<and>
    (\<forall>i\<in>set [0..<bucket_count s]. \<forall>e\<in>set (buckets s' ! i). \<not> entry_is_expired e now)"
    using full_sweep_correct [OF assms(1,2) _ _ assms(3)] wf assms(4) by simp
  then have "wf_store base s'" and len: "length (buckets s') = bucket_count s"
    using wf by (auto simp: sweep_ok_def)
  from entries.table_find_Some [OF assms(5) [unfolded lookup_def] wf_storeD(3) [OF this(1)]]
  show ?thesis using fs len by auto
qed

lemma sweep_spec:
  assumes "wf_store base (st w)" and "lock_initialized (st w)"
    and "kv_expire_sample_sweep sample_size max_del w = (d, w')"
  shows "wf_store base (st w') \<and> swept (now_of w) (st w) (st w') \<and> d \<le> max_del \<and>
    kv_size (st w') + d = kv_size (st w) \<and>
    (d < max_del \<and> (d = 0 \<or> sample_size \<ge> 100) \<longrightarrow>
      (\<forall>k e. lookup (st w') k = Some e \<longrightarrow> \<not> entry_is_expired e (now_of w)))"
proof (cases "kv_size (st w) = 0")
  case True
  with assms have "d = 0" "st w' = st w"
    by (auto simp: kv_expire_sample_sweep_def frame)
  moreover have "lookup (st w) k = None" for k
    using empty_no_entries [OF assms(1) True] wf_storeD [OF assms(1)]
    by (auto simp: lookup_def table_find_def hash_key_less)
  ultimately show ?thesis using assms(1) by simp
next
  case False
  let ?tries = "if sample_size < 16 then 16 else sample_size"
  obtain x d1 s1 where smp:
    "sampled_sweep ?tries (now_of w) max_del (g_xorshift_state (os w)) 0 (st w) = (x, d1, s1)"
    by (metis prod_cases3)
  have ok: "sweep_ok base (now_of w) max_del (0, st w) (d1, s1)"
    using sampled_sweep_ok [OF assms(1), of 0 max_del "now_of w" ?tries "g_xorshift_state (os w)"] smp
    by simp
  let ?full = "sample_size \<ge> 100 \<or> (d1 = 0 \<and> kv_size s1 > 0)"
  obtain d2 s2 where full: "(if ?full then full_sweep [0..<bucket_count s1] (now_of w) max_del d1 s1
      else (d1, s1)) = (d2, s2)"
    by fastforce
  have res: "d = d2" "st w' = s2"
    using assms(2,3) False smp full
    by (auto simp: kv_expire_sample_sweep_def Let_def frame kv_current_time_ms_def cong: if_cong)
  have wf1: "wf_store base s1" and d1: "d1 \<le> max_del" using ok by (auto simp: sweep_ok_def)
  have "sweep_ok base (now_of w) max_del (d1, s1) (d2, s2)"
    using full full_sweep_correct [OF wf1 d1, of "[0..<bucket_count s1]" "now_of w" d2 s2]
      wf1 d1 wf_storeD(1) [OF wf1]
    by (cases ?full) (auto simp: sweep_ok_def)
  with ok have all: "sweep_ok base (now_of w) max_del (0, st w) (d2, s2)"
    by (rule sweep_ok_trans)
  have "\<not> entry_is_expired e (now_of w)"
    if "d2 < max_del" "d2 = 0 \<or> sample_size \<ge> 100" "lookup s2 k = Some e" for k e
  proof (cases ?full)
    case True
    with full that full_sweep_complete [OF wf1 d1] show ?thesis by simp
  next
    case False
    with full that have "kv_size s1 = 0" "s2 = s1" by auto
    then have "lookup s2 k = None"
      using empty_no_entries [OF wf1] wf_storeD [OF wf1]
      by (auto simp: lookup_def table_find_def hash_key_less)
    with that show ?thesis by simp
  qed
  with all res show ?thesis by (auto simp: sweep_ok_def)
qed

text \<open>C29. The active sweep only removes entries whose time has passed, counts exactly what it
  removes and never more than its limit; a sweep that found nothing, and a high-volume sweep
  that stayed below its limit, leave no expired entry behind.\<close>

theorem sweep_removes_expired_only:
  assumes "wf_store base (st w)" and "lock_initialized (st w)"
    and "kv_expire_sample_sweep sample_size max_del w = (d, w')"
  shows "wf_store base (st w') \<and> swept (now_of w) (st w) (st w') \<and> d \<le> max_del \<and>
    kv_size (st w') + d = kv_size (st w) \<and>
    (d < max_del \<and> (d = 0 \<or> sample_size \<ge> 100) \<longrightarrow>
      (\<forall>k e. lookup (st w') k = Some e \<longrightarrow> \<not> entry_is_expired e (now_of w)))"
  by (rule sweep_spec [OF assms])

theorem sweep_removes_expired_only_witness:
  "lookup (st (snd (kv_expire_sample_sweep 20 5 (quiet_world 7 (singleton_store 0 (string_entry ''a'' ''1'' 9)))))) ''a''
     = Some (string_entry ''a'' ''1'' 9)"
  using sweep_removes_expired_only [of 0 "quiet_world 7 (singleton_store 0 (string_entry ''a'' ''1'' 9))" 20 5,
      OF _ _ prod.collapse [symmetric]]
  by (simp add: swept_def entry_is_expired_def)

end
