(* ===== verification/KV_Log.thy ===== *)
theory KV_Log
  imports KV_Evict
begin

text \<open>
  Writing the append-only log (\<^verbatim>\<open>src/aof.c\<close>), the buffer that collects mutations while a
  rewrite is running (\<^verbatim>\<open>append_aof_rewrite_buffer\<close> of \<^verbatim>\<open>src/kv.c\<close>) and the broadcast of a
  record to the replicas (\<^verbatim>\<open>src/replication.c\<close>), which every log write starts with. A stream
  opened with \<^verbatim>\<open>"a+"\<close> appends whatever its offset is; the offset only shows in \<^verbatim>\<open>ftell\<close>.
\<close>

section \<open>Streams\<close>

abbreviation tab :: char where "tab \<equiv> CHR 0x09"
abbreviation nl :: char where "nl \<equiv> CHR 0x0A"
abbreviation cr :: char where "cr \<equiv> CHR 0x0D"

text \<open>The outcome of the next I/O call: \<open>None\<close> success, \<open>Some n\<close> a failure after \<open>n\<close> bytes.\<close>

definition io_step :: "world \<Rightarrow> nat option \<times> world" where
  "io_step w = (io_fault (os w) (io_calls (os w)), w\<lparr>os := (os w)\<lparr>io_calls := Suc (io_calls (os w))\<rparr>\<rparr>)"

definition ftell :: "aof_stream \<Rightarrow> nat" where
  "ftell f = (if f_buf f = [] then f_pos f else length (f_disk f) + length (f_buf f))"

definition flush_bytes :: "nat \<Rightarrow> aof_stream \<Rightarrow> aof_stream" where
  "flush_bytes n f =
     f\<lparr>f_disk := f_disk f @ take n (f_buf f), f_buf := drop n (f_buf f),
       f_pos := length (f_disk f) + length (take n (f_buf f))\<rparr>"

abbreviation set_fp :: "aof_stream \<Rightarrow> world \<Rightarrow> world" where
  "set_fp f w \<equiv> w\<lparr>aof := (aof w)\<lparr>aof_fp := Some f\<rparr>\<rparr>"

text \<open>Each returns whether the call succeeded.\<close>

definition fwrite :: "string \<Rightarrow> aof_stream \<Rightarrow> world \<Rightarrow> bool \<times> aof_stream \<times> world" where
  "fwrite d f w =
     (case io_step w of
        (None, w1) \<Rightarrow> (let f1 = f\<lparr>f_buf := f_buf f @ d\<rparr> in (True, f1, set_fp f1 w1))
      | (Some n, w1) \<Rightarrow>
          (let f1 = f\<lparr>f_buf := f_buf f @ take (min n (length d - 1)) d\<rparr> in (False, f1, set_fp f1 w1)))"

definition fflush :: "aof_stream \<Rightarrow> world \<Rightarrow> bool \<times> aof_stream \<times> world" where
  "fflush f w =
     (if f_buf f = [] then (True, f, set_fp f w)
      else case io_step w of
        (None, w1) \<Rightarrow> (let f1 = flush_bytes (length (f_buf f)) f in (True, f1, set_fp f1 w1))
      | (Some n, w1) \<Rightarrow>
          (let f1 = flush_bytes (min n (length (f_buf f) - 1)) f in (False, f1, set_fp f1 w1)))"

definition fsync :: "aof_stream \<Rightarrow> world \<Rightarrow> bool \<times> aof_stream \<times> world" where
  "fsync f w =
     (case io_step w of
        (None, w1) \<Rightarrow> (let f1 = f\<lparr>f_synced := length (f_disk f)\<rparr> in (True, f1, set_fp f1 w1))
      | (Some n, w1) \<Rightarrow> (False, f, set_fp f w1))"

section \<open>Broadcasting to replicas\<close>

text \<open>\<^verbatim>\<open>send\<close> returns a negative value (\<open>Some 0\<close>), accepts everything (\<open>None\<close>) or only a first
  part (\<open>Some (Suc n)\<close>: at most \<open>n + 1\<close> bytes), which the loop does not look at. A replica
  whose \<^verbatim>\<open>send\<close> fails is closed and unlinked.\<close>

fun broadcast_loop :: "string \<Rightarrow> int list \<Rightarrow> world \<Rightarrow> int list \<times> world" where
  "broadcast_loop d [] w = ([], w)"
| "broadcast_loop d (fd # fds) w =
     (case io_step w of
        (Some 0, w1) \<Rightarrow>
          broadcast_loop d fds (w1\<lparr>repl := (repl w1)\<lparr>closed_fds := fd # closed_fds (repl w1)\<rparr>\<rparr>)
      | (r, w1) \<Rightarrow>
          (let d1 = (case r of None \<Rightarrow> d | Some n \<Rightarrow> take n d);
               w2 = w1\<lparr>repl := (repl w1)\<lparr>sent := (fd, d1) # sent (repl w1)\<rparr>\<rparr>;
               (rest, w3) = broadcast_loop d fds w2
           in (fd # rest, w3)))"

definition replication_broadcast :: "string \<Rightarrow> world \<Rightarrow> world" where
  "replication_broadcast d w =
     (if mode (repl w) \<noteq> REPLICA_MODE_MASTER then w
      else
        (let w1 = mutex_lock Replicas_Lock w;
             (fds, w2) = broadcast_loop d (replicas (repl w1)) w1
         in mutex_unlock Replicas_Lock (w2\<lparr>repl := (repl w2)\<lparr>replicas := fds\<rparr>\<rparr>)))"

section \<open>Records\<close>

definition record1 :: "string \<Rightarrow> string \<Rightarrow> string" where
  "record1 cmd k = cmd @ tab # k @ [nl]"

definition record2 :: "string \<Rightarrow> string \<Rightarrow> string \<Rightarrow> string" where
  "record2 cmd k v = cmd @ tab # k @ tab # v @ [nl]"

text \<open>\<open>snprintf\<close> formats into 4096 bytes: a record fits when it is shorter than that.\<close>

abbreviation record_fits :: "string \<Rightarrow> bool" where
  "record_fits buf \<equiv> 0 < length buf \<and> length buf < 4096"

text \<open>What happens between locking and unlocking: push the bytes as far as the durability level
  asks, after appending the record. The result is the status, the position stored in
  \<^verbatim>\<open>*out_pos\<close> (\<open>-1\<close> when none is stored) and the new state.\<close>

definition persist_locked :: "aof_stream \<Rightarrow> world \<Rightarrow> int \<times> world" where
  "persist_locked f w =
     (let (ok, f1, w1) =
            (if durability_level (aof w) \<ge> KV_DURABILITY_FLUSH then fflush f w else (True, f, w))
      in if \<not> ok then (KV_ERR_IO, w1)
         else
           (let (ok2, f2, w2) =
                  (if durability_level (aof w1) \<ge> KV_DURABILITY_SYNC then fsync f1 w1 else (True, f1, w1))
            in (if ok2 then KV_OK else KV_ERR_IO, w2)))"

definition write_locked :: "string \<Rightarrow> aof_stream \<Rightarrow> world \<Rightarrow> int \<times> int \<times> world" where
  "write_locked buf f w =
     (let (tell, w1) = io_step w
      in if tell \<noteq> None then (KV_ERR_IO, - 1, w1)
         else if \<not> record_fits buf then (KV_ERR_IO, int (ftell f), w1)
         else
           (let (ok, f1, w2) = fwrite buf f w1
            in if \<not> ok then (KV_ERR_IO, int (ftell f), w2)
               else let (err, w3) = persist_locked f1 w2 in (err, int (ftell f), w3)))"

definition write_aof_record :: "string \<Rightarrow> world \<Rightarrow> int \<times> int \<times> world" where
  "write_aof_record buf w =
     (let w1 = (if record_fits buf then replication_broadcast buf w else w)
      in case aof_fp (aof w1) of
           None \<Rightarrow> (KV_OK, - 1, w1)
         | Some f \<Rightarrow>
             if g_io_fail (os w1) then (KV_ERR_IO, - 1, w1)
             else let (err, pos, w2) = write_locked buf f (mutex_lock Aof_Lock w1)
                  in (err, pos, mutex_unlock Aof_Lock w2))"

definition rollback_aof_record :: "int \<Rightarrow> world \<Rightarrow> world" where
  "rollback_aof_record pos w =
     (case aof_fp (aof w) of
        None \<Rightarrow> w
      | Some f \<Rightarrow>
          if pos < 0 then w
          else
            (let w1 = mutex_lock Aof_Lock w;
                 (_, f1, w2) = fflush f w1;
                 (trunc, w3) = io_step w2;
                 n = nat pos;
                 f2 = (if trunc = None
                       then f1\<lparr>f_disk := take n (f_disk f1) @ replicate (n - length (f_disk f1)) (CHR 0x00)\<rparr>
                       else f1);
                 (ok, f3, w4) = fflush f2 (set_fp f2 w3);
                 f4 = (if ok then f3\<lparr>f_pos := n\<rparr> else f3)
             in mutex_unlock Aof_Lock (set_fp f4 w4)))"

section \<open>The rewrite buffer\<close>

text \<open>Doubling the capacity until the data fits. A capacity of zero would make the C loop run
  forever; an allocated buffer has at least 4096 bytes.\<close>

function grow_cap :: "nat \<Rightarrow> nat \<Rightarrow> nat" where
  "grow_cap need cap = (if need \<le> cap \<or> cap = 0 then cap else grow_cap need (cap * 2))"
  by pat_completeness auto
termination
  by (relation "measure (\<lambda>(need, cap). need - cap)") auto

declare grow_cap.simps [simp del]

definition append_aof_rewrite_buffer :: "string \<Rightarrow> world \<Rightarrow> world" where
  "append_aof_rewrite_buffer d w =
     (if d = [] \<or> aof_rewrite_pid (aof w) \<le> 0 then w
      else
        (let w1 = mutex_lock Aof_Lock w
         in if aof_rewrite_pid (aof w1) \<le> 0 then mutex_unlock Aof_Lock w1
            else
              (let w2 =
                 (case aof_rewrite_buf (aof w1) of
                    None \<Rightarrow>
                      (let cap = (if length d > 4096 then length d * 2 else 4096);
                           (ok, w') = libc_malloc w1
                       in upd_aof (\<lambda>a. a\<lparr>aof_rewrite_buf_cap := cap,
                             aof_rewrite_buf := (if ok then Some [] else None), aof_rewrite_buf_len := 0\<rparr>) w')
                  | Some b \<Rightarrow>
                      if aof_rewrite_buf_len (aof w1) + length d > aof_rewrite_buf_cap (aof w1)
                      then
                        (let cap = grow_cap (aof_rewrite_buf_len (aof w1) + length d) (aof_rewrite_buf_cap (aof w1));
                             (ok, w') = libc_malloc w1
                         in upd_aof (\<lambda>a. a\<lparr>aof_rewrite_buf_cap := cap,
                               aof_rewrite_buf := (if ok then Some b else None)\<rparr>) w')
                      else w1);
                   w3 =
                 (case aof_rewrite_buf (aof w2) of
                    None \<Rightarrow> w2
                  | Some b \<Rightarrow>
                      upd_aof (\<lambda>a. a\<lparr>aof_rewrite_buf := Some (take (aof_rewrite_buf_len a) b @ d),
                            aof_rewrite_buf_len := aof_rewrite_buf_len a + length d\<rparr>) w2)
               in mutex_unlock Aof_Lock w3)))"

text \<open>The three or five appends with which every mutation adds its record to the buffer.\<close>

definition append_record1 :: "string \<Rightarrow> string \<Rightarrow> world \<Rightarrow> world" where
  "append_record1 cmd k w =
     append_aof_rewrite_buffer [nl] (append_aof_rewrite_buffer k (append_aof_rewrite_buffer (cmd @ [tab]) w))"

definition append_record2 :: "string \<Rightarrow> string \<Rightarrow> string \<Rightarrow> world \<Rightarrow> world" where
  "append_record2 cmd k v w =
     append_aof_rewrite_buffer [nl] (append_aof_rewrite_buffer v (append_aof_rewrite_buffer [tab]
       (append_aof_rewrite_buffer k (append_aof_rewrite_buffer (cmd @ [tab]) w))))"

section \<open>Durability\<close>

definition kv_set_durability :: "int \<Rightarrow> world \<Rightarrow> world" where
  "kv_set_durability level w =
     mutex_unlock Aof_Lock (upd_aof (\<lambda>a. a\<lparr>durability_level := level\<rparr>) (mutex_lock Aof_Lock w))"

definition kv_sync :: "world \<Rightarrow> int \<times> world" where
  "kv_sync w =
     (let w1 = mutex_lock Aof_Lock w
      in if g_io_fail (os w1) then (KV_ERR_IO, mutex_unlock Aof_Lock w1)
         else
           case aof_fp (aof w1) of
             None \<Rightarrow> (KV_OK, mutex_unlock Aof_Lock w1)
           | Some f \<Rightarrow>
               (let (ok, f1, w2) = fflush f w1
                in if \<not> ok then (KV_ERR_IO, mutex_unlock Aof_Lock w2)
                   else
                     (let (ok2, f2, w3) = fsync f1 w2
                      in if \<not> ok2 then (KV_ERR_IO, mutex_unlock Aof_Lock w3)
                         else (KV_OK, mutex_unlock Aof_Lock w3))))"

definition kv_aof_path :: "world \<Rightarrow> cstr" where
  "kv_aof_path w = aof_path (aof w)"

section \<open>What logging leaves alone\<close>

text \<open>\<open>same_but_log w w'\<close>: only the log, the replicas and the I/O history may differ.\<close>

definition same_but_log :: "world \<Rightarrow> world \<Rightarrow> bool" where
  "same_but_log w w' \<longleftrightarrow>
     st w' = st w \<and> aof_path (aof w') = aof_path (aof w) \<and> aof_rewrite_pid (aof w') = aof_rewrite_pid (aof w) \<and>
     durability_level (aof w') = durability_level (aof w) \<and>
     (aof_fp (aof w') = None \<longleftrightarrow> aof_fp (aof w) = None) \<and>
     mode (repl w') = mode (repl w) \<and> is_running (repl w') = is_running (repl w) \<and>
     clock (os w') = clock (os w) \<and> clock_reads (os w') = clock_reads (os w) \<and>
     malloc_ok (os w') = malloc_ok (os w) \<and> io_fault (os w') = io_fault (os w) \<and>
     g_alloc_fail_countdown (os w') = g_alloc_fail_countdown (os w) \<and>
     g_io_fail (os w') = g_io_fail (os w) \<and> g_xorshift_state (os w') = g_xorshift_state (os w)"

lemma same_but_log_refl [simp]: "same_but_log w w"
  by (simp add: same_but_log_def)

lemma same_but_log_trans [trans]:
  "same_but_log u v \<Longrightarrow> same_but_log v w \<Longrightarrow> same_but_log u w"
  by (auto simp: same_but_log_def)

lemma same_but_logD:
  assumes "same_but_log w w'"
  shows "st w' = st w" "aof_path (aof w') = aof_path (aof w)" "no_oom w' = no_oom w"
    "now_of w' = now_of w" "aof_fp (aof w') = None \<longleftrightarrow> aof_fp (aof w) = None"
    "aof_rewrite_pid (aof w') = aof_rewrite_pid (aof w)"
  using assms by (auto simp: same_but_log_def no_oom_def kv_current_time_ms_def)

lemma same_but_log_io_step: "same_but_log w (snd (io_step w))"
  by (simp add: same_but_log_def io_step_def)

lemma same_but_log_mutex [simp]:
  "same_but_log w (mutex_lock m w') = same_but_log w w'" "same_but_log w (mutex_unlock m w') = same_but_log w w'"
  "same_but_log (mutex_lock m w) w' = same_but_log w w'" "same_but_log (mutex_unlock m w) w' = same_but_log w w'"
  by (simp_all add: same_but_log_def frame)

lemma same_but_log_set_fp: "same_but_log w w' \<Longrightarrow> aof_fp (aof w) \<noteq> None \<Longrightarrow> same_but_log w (set_fp f w')"
  by (simp add: same_but_log_def)

lemma same_but_log_stream:
  assumes "aof_fp (aof w) \<noteq> None"
  shows "same_but_log w (snd (snd (fwrite d f w)))" "same_but_log w (snd (snd (fflush f w)))"
    "same_but_log w (snd (snd (fsync f w)))"
  using assms same_but_log_io_step [of w]
  by (auto simp: fwrite_def fflush_def fsync_def Let_def split_beta same_but_log_set_fp
      split: prod.splits option.splits)

lemma stream_fp:
  "aof_fp (aof (snd (snd (fwrite d f w)))) = Some (fst (snd (fwrite d f w)))"
  "aof_fp (aof (snd (snd (fflush f w)))) = Some (fst (snd (fflush f w)))"
  "aof_fp (aof (snd (snd (fsync f w)))) = Some (fst (snd (fsync f w)))"
  by (auto simp: fwrite_def fflush_def fsync_def Let_def split: prod.splits option.splits)

lemma same_but_log_repl [simp]:
  "mode (g (repl w)) = mode (repl w) \<Longrightarrow> is_running (g (repl w)) = is_running (repl w) \<Longrightarrow> same_but_log w (w\<lparr>repl := g (repl w)\<rparr>)"
  by (simp add: same_but_log_def)

lemma same_but_log_broadcast_loop: "same_but_log w (snd (broadcast_loop d fds w))"
proof (induction fds arbitrary: w)
  case Nil
  then show ?case by simp
next
  case (Cons fd fds)
  obtain r w1 where io: "io_step w = (r, w1)" by fastforce
  have 1: "same_but_log w (w1\<lparr>repl := (repl w1)\<lparr>closed_fds := c\<rparr>\<rparr>)"
    "same_but_log w (w1\<lparr>repl := (repl w1)\<lparr>sent := x\<rparr>\<rparr>)" for c x
    using same_but_log_io_step [of w] io by (auto simp: same_but_log_def)
  show ?case
  proof (cases "r = Some 0")
    case True
    with io same_but_log_trans [OF 1(1) Cons.IH] show ?thesis by simp
  next
    case False
    have "snd (broadcast_loop d (fd # fds) w) = snd (broadcast_loop d fds
        (w1\<lparr>repl := (repl w1)\<lparr>sent := (fd, case r of None \<Rightarrow> d | Some n \<Rightarrow> take n d) # sent (repl w1)\<rparr>\<rparr>))"
      using False io by (simp add: Let_def split_beta split: option.split nat.split)
    with same_but_log_trans [OF 1(2) Cons.IH] show ?thesis by simp
  qed
qed

lemma same_but_log_broadcast: "same_but_log w (replication_broadcast d w)"
  using same_but_log_broadcast_loop [of "mutex_lock Replicas_Lock w" d "replicas (repl w)"]
  by (auto simp: replication_broadcast_def Let_def split_beta same_but_log_def frame)

lemma same_but_log_persist: "aof_fp (aof w) \<noteq> None \<Longrightarrow> same_but_log w (snd (persist_locked f w))"
proof -
  assume f: "aof_fp (aof w) \<noteq> None"
  define r where "r = (if durability_level (aof w) \<ge> KV_DURABILITY_FLUSH then fflush f w else (True, f, w))"
  have 1: "same_but_log w (snd (snd r))" "aof_fp (aof (snd (snd r))) \<noteq> None"
    using same_but_log_stream(2) [OF f, of f] stream_fp(2) [of f w] f by (auto simp: r_def)
  then have "same_but_log (snd (snd r)) (snd (snd (fsync (fst (snd r)) (snd (snd r)))))"
    by (intro same_but_log_stream)
  with 1 same_but_log_trans [OF 1(1)] show ?thesis
    by (simp add: persist_locked_def r_def [symmetric] split_beta Let_def)
qed

lemma same_but_log_write_locked:
  assumes "aof_fp (aof w) \<noteq> None"
  shows "same_but_log w (snd (snd (write_locked buf f w)))"
proof -
  define w1 where "w1 = snd (io_step w)"
  define r where "r = fwrite buf f w1"
  have 1: "same_but_log w w1" and f1: "aof_fp (aof w1) \<noteq> None"
    using same_but_log_io_step [of w] assms by (auto simp: w1_def same_but_log_def)
  have 2: "same_but_log w (snd (snd r))" and f2: "aof_fp (aof (snd (snd r))) \<noteq> None"
    using same_but_log_trans [OF 1 same_but_log_stream(1) [OF f1]] stream_fp(1) [of buf f w1]
    by (auto simp: r_def)
  show ?thesis
    using 1 2 same_but_log_trans [OF 2 same_but_log_persist [OF f2]]
    by (simp add: write_locked_def split_beta Let_def w1_def [symmetric] r_def [symmetric])
qed

lemma same_but_log_write: "same_but_log w (snd (snd (write_aof_record buf w)))"
proof -
  define w1 where "w1 = (if record_fits buf then replication_broadcast buf w else w)"
  have 1: "same_but_log w w1" using same_but_log_broadcast by (simp add: w1_def)
  have run: "write_aof_record buf w = (case aof_fp (aof w1) of
           None \<Rightarrow> (KV_OK, - 1, w1)
         | Some f \<Rightarrow>
             if g_io_fail (os w1) then (KV_ERR_IO, - 1, w1)
             else let (err, pos, w2) = write_locked buf f (mutex_lock Aof_Lock w1)
                  in (err, pos, mutex_unlock Aof_Lock w2))"
    unfolding write_aof_record_def w1_def [symmetric] Let_def ..
  have "same_but_log w1 (snd (snd (write_locked buf f (mutex_lock Aof_Lock w1))))"
    if "aof_fp (aof w1) = Some f" for f
    using same_but_log_write_locked [of "mutex_lock Aof_Lock w1" buf f] that by (simp add: frame)
  with 1 show ?thesis
    by (auto simp: run split_beta Let_def split: option.split intro: same_but_log_trans)
qed

lemma same_but_log_rollback: "same_but_log w (rollback_aof_record pos w)"
proof (cases "aof_fp (aof w)")
  case None
  then show ?thesis by (simp add: rollback_aof_record_def)
next
  case (Some f)
  define r where "r = fflush f (mutex_lock Aof_Lock w)"
  define w3 where "w3 = snd (io_step (snd (snd r)))"
  have "same_but_log w (snd (snd r))"
    using same_but_log_stream(2) [of "mutex_lock Aof_Lock w" f] Some by (simp add: r_def frame)
  then have 3: "same_but_log w w3"
    using same_but_log_trans same_but_log_io_step unfolding w3_def by blast
  have "same_but_log w (set_fp g (snd (snd (fflush f2 (set_fp f2 w3)))))" for f2 g
    using same_but_log_trans [OF same_but_log_set_fp [OF 3, of f2] same_but_log_stream(2)] Some
    by (intro same_but_log_set_fp) auto
  then show ?thesis
    using Some
    by (simp add: rollback_aof_record_def split_beta Let_def r_def [symmetric] w3_def [symmetric])
qed

lemma same_but_log_append: "same_but_log w (append_aof_rewrite_buffer d w)"
  by (auto simp: append_aof_rewrite_buffer_def Let_def split_beta same_but_log_def libc_malloc_def frame
      split: option.split)

lemma same_but_log_append_record:
  "same_but_log w (append_record1 cmd k w)" "same_but_log w (append_record2 cmd k v w)"
  unfolding append_record1_def append_record2_def
  by (rule same_but_log_append same_but_log_trans [OF _ same_but_log_append])+

lemma same_but_log_sync: "same_but_log w (snd (kv_sync w))"
proof (cases "aof_fp (aof w)")
  case None
  then show ?thesis by (simp add: kv_sync_def Let_def frame)
next
  case (Some f)
  define r where "r = fflush f (mutex_lock Aof_Lock w)"
  define q where "q = fsync (fst (snd r)) (snd (snd r))"
  have 1: "same_but_log w (snd (snd r))"
    using same_but_log_stream(2) [of "mutex_lock Aof_Lock w" f] Some by (simp add: r_def frame)
  have "same_but_log (snd (snd r)) (snd (snd q))"
    using stream_fp(2) [of f "mutex_lock Aof_Lock w"] unfolding q_def
    by (intro same_but_log_stream) (simp add: r_def)
  with 1 have 2: "same_but_log w (snd (snd q))" by (rule same_but_log_trans)
  from Some have fp: "aof_fp (aof (mutex_lock Aof_Lock w)) = Some f" by (simp add: frame)
  show ?thesis
    using 1 2 by (simp add: kv_sync_def Let_def split_beta fp r_def [symmetric] q_def [symmetric])
qed

end
