(* ===== verification/KV_Text.thy ===== *)
theory KV_Text
  imports KV_Log
begin

text \<open>
  The pieces of the C library that the log, the protocol and the replication stream use on
  text: printing and parsing decimal integers (\<^verbatim>\<open>printf\<close> with \<^verbatim>\<open>PRId64\<close>, \<^verbatim>\<open>strtoll\<close>), reading
  a file line by line (\<^verbatim>\<open>fgets\<close>), and splitting at a character (\<^verbatim>\<open>strchr\<close>).
\<close>

section \<open>64-bit integers\<close>

definition int64 :: "int \<Rightarrow> bool" where
  "int64 n \<longleftrightarrow> - (2 ^ 63) \<le> n \<and> n < 2 ^ 63"

section \<open>Printing\<close>

definition digit :: "nat \<Rightarrow> char" where
  "digit d = char_of (48 + d)"

fun show_nat :: "nat \<Rightarrow> string" where
  "show_nat n = (if n < 10 then [digit n] else show_nat (n div 10) @ [digit (n mod 10)])"

declare show_nat.simps [simp del]

definition show_int :: "int \<Rightarrow> string" where
  "show_int n = (if n < 0 then CHR ''-'' # show_nat (nat (- n)) else show_nat (nat n))"

section \<open>Parsing\<close>

definition isdigit :: "char \<Rightarrow> bool" where
  "isdigit c \<longleftrightarrow> 48 \<le> (of_char c :: nat) \<and> (of_char c :: nat) \<le> 57"

definition digit_val :: "char \<Rightarrow> nat" where
  "digit_val c = of_char c - 48"

fun read_digits :: "nat \<Rightarrow> string \<Rightarrow> nat \<times> string" where
  "read_digits acc [] = (acc, [])"
| "read_digits acc (c # cs) =
     (if isdigit c then read_digits (acc * 10 + digit_val c) cs else (acc, c # cs))"

text \<open>\<^verbatim>\<open>strtoll(s, &end, 10)\<close>: blanks, an optional sign, digits; the value saturates at the limits
  of 64 bits. The second component is where \<^verbatim>\<open>end\<close> points; without digits it is the start.\<close>

definition clamp64 :: "int \<Rightarrow> int" where
  "clamp64 n = max (- (2 ^ 63)) (min (2 ^ 63 - 1) n)"

definition strtoll :: "string \<Rightarrow> int \<times> string" where
  "strtoll s =
     (let s1 = dropWhile isspace s;
          (neg, s2) = (case s1 of
             c # cs \<Rightarrow> if c = CHR ''-'' then (True, cs) else if c = CHR ''+'' then (False, cs) else (False, s1)
           | [] \<Rightarrow> (False, s1))
      in case s2 of
           [] \<Rightarrow> (0, s)
         | c # cs \<Rightarrow>
             if isdigit c
             then let (n, rest) = read_digits 0 s2 in (clamp64 (if neg then - int n else int n), rest)
             else (0, s))"

section \<open>Lines\<close>

text \<open>\<open>fgets n\<close> takes at most \<open>n\<close> characters, up to and including the first line feed.\<close>

fun fgets :: "nat \<Rightarrow> string \<Rightarrow> string \<times> string" where
  "fgets 0 s = ([], s)"
| "fgets (Suc n) [] = ([], [])"
| "fgets (Suc n) (c # cs) =
     (if c = nl then ([c], cs) else case fgets n cs of (line, rest) \<Rightarrow> (c # line, rest))"

lemma fgets_split: "fgets n s = (line, rest) \<Longrightarrow> s = line @ rest"
  by (induction n s arbitrary: line rest rule: fgets.induct) (auto split: if_splits prod.splits)

lemma fgets_progress: "fgets (Suc n) s = (line, rest) \<Longrightarrow> s \<noteq> [] \<Longrightarrow> length rest < length s"
  by (cases s) (auto split: if_splits prod.splits dest!: fgets_split)

function fgets_all :: "nat \<Rightarrow> string \<Rightarrow> string list" where
  "fgets_all n s =
     (if s = [] then []
      else case fgets (Suc n) s of (line, rest) \<Rightarrow> line # fgets_all n rest)"
  by pat_completeness auto
termination
  by (relation "measure (length \<circ> snd)") (auto dest: fgets_progress [OF sym])

declare fgets_all.simps [simp del]

text \<open>\<open>split_at c s\<close> is \<^verbatim>\<open>strchr\<close> followed by writing a terminator over what it found.\<close>

definition split_at :: "char \<Rightarrow> string \<Rightarrow> (string \<times> string) option" where
  "split_at c s =
     (if c \<in> set s then Some (takeWhile (\<lambda>x. x \<noteq> c) s, tl (dropWhile (\<lambda>x. x \<noteq> c) s)) else None)"

definition has_prefix :: "string \<Rightarrow> string \<Rightarrow> bool" where
  "has_prefix p s \<longleftrightarrow> take (length p) s = p"

section \<open>Printing and parsing are inverse\<close>

lemma of_char_digit: "d < 10 \<Longrightarrow> (of_char (digit d) :: nat) = 48 + d"
  by (simp add: digit_def)

lemma digit_neq: "d < 10 \<Longrightarrow> (of_char c :: nat) \<notin> {48..57} \<Longrightarrow> digit d \<noteq> c"
  using of_char_digit by fastforce

lemma digit_props:
  assumes "d < 10"
  shows "isdigit (digit d)" "digit_val (digit d) = d" "digit d \<noteq> CHR ''-''" "digit d \<noteq> CHR ''+''"
    "\<not> isspace (digit d)" "digit d \<noteq> nl" "digit d \<noteq> cr" "digit d \<noteq> tab" "digit d \<noteq> CHR 0x00"
  using assms by (simp_all add: isdigit_def digit_val_def isspace_def of_char_digit digit_neq)

lemma show_nat_digits: "c \<in> set (show_nat n) \<Longrightarrow> \<exists>d<10. c = digit d"
proof (induction n rule: show_nat.induct)
  case (1 n)
  then show ?case
    by (subst (asm) (2) show_nat.simps) (auto split: if_splits intro: exI [of _ "n mod 10"])
qed

lemma show_nat_nonempty [simp]: "show_nat n \<noteq> []"
  by (subst show_nat.simps) simp

lemma read_digits_append:
  "(\<And>c. c \<in> set ds \<Longrightarrow> isdigit c) \<Longrightarrow> read_digits acc (ds @ s) = read_digits (fst (read_digits acc ds)) s"
  by (induction ds arbitrary: acc) auto

lemma read_digits_show:
  assumes "rest = [] \<or> \<not> isdigit (hd rest)"
  shows "read_digits 0 (show_nat n @ rest) = (n, rest)"
proof -
  have stop: "read_digits a rest = (a, rest)" for a using assms by (cases rest) auto
  have dig: "isdigit c" if "c \<in> set (show_nat m)" for c m
    using show_nat_digits [OF that] digit_props(1) by auto
  have "fst (read_digits 0 (show_nat n)) = n"
  proof (induction n rule: show_nat.induct)
    case (1 n)
    then show ?case
      by (subst show_nat.simps)
        (auto simp: digit_props read_digits_append [OF dig])
  qed
  then show ?thesis using read_digits_append [OF dig, where s = rest and acc = 0] stop by simp
qed

lemma clamp64_id [simp]: "int64 n \<Longrightarrow> clamp64 n = n"
  by (simp add: int64_def clamp64_def)

lemma strtoll_show_int:
  assumes "int64 n" and "rest = [] \<or> \<not> isdigit (hd rest)"
  shows "strtoll (show_int n @ rest) = (n, rest)"
proof -
  obtain c cs where s: "show_nat (nat \<bar>n\<bar>) = c # cs" by (cases "show_nat (nat \<bar>n\<bar>)") auto
  then obtain d where "d < 10" "c = digit d" using show_nat_digits [of c "nat \<bar>n\<bar>"] by auto
  note c = digit_props [OF this(1), folded this(2)]
  have read: "read_digits 0 (c # cs @ rest) = (nat \<bar>n\<bar>, rest)"
    using read_digits_show [OF assms(2), of "nat \<bar>n\<bar>"] s by simp
  show ?thesis
  proof (cases "n < 0")
    case True
    then have "show_int n = CHR ''-'' # c # cs" using s by (simp add: show_int_def)
    then show ?thesis
      using True read c assms(1) by (simp add: strtoll_def Let_def isspace_def)
  next
    case False
    then have "show_int n = c # cs" using s by (simp add: show_int_def)
    then show ?thesis
      using False read c assms(1) by (simp add: strtoll_def Let_def)
  qed
qed

lemma show_nat_length: "n < 10 ^ m \<Longrightarrow> 0 < m \<Longrightarrow> length (show_nat n) \<le> m"
proof (induction m arbitrary: n)
  case 0
  then show ?case by simp
next
  case (Suc m)
  show ?case
  proof (cases "n < 10")
    case True
    then show ?thesis by (subst show_nat.simps) simp
  next
    case False
    with Suc.prems have "n div 10 < 10 ^ m" "0 < m" by (auto intro: gr0I)
    from Suc.IH [OF this] False show ?thesis by (subst show_nat.simps) simp
  qed
qed

lemma show_int_length: "int64 n \<Longrightarrow> length (show_int n) \<le> 20"
  using show_nat_length [of "nat \<bar>n\<bar>" 19] by (cases "n < 0") (simp_all add: show_int_def int64_def nat_less_iff)

text \<open>Decimal digits are none of the characters that separate fields or lines.\<close>

lemma show_int_chars:
  assumes "c \<in> set (show_int n)"
  shows "\<not> isspace c" "c \<noteq> nl" "c \<noteq> cr" "c \<noteq> tab" "c \<noteq> CHR 0x00"
proof -
  consider "c = CHR ''-''" | d where "d < 10" "c = digit d"
    using assms show_nat_digits [of c] by (auto simp: show_int_def split: if_splits)
  then have "\<not> isspace c \<and> c \<noteq> CHR 0x00"
    by cases (simp_all add: isspace_def digit_props(9) digit_neq)
  then show "\<not> isspace c" "c \<noteq> nl" "c \<noteq> cr" "c \<noteq> tab" "c \<noteq> CHR 0x00"
    by (auto simp: isspace_def)
qed

section \<open>Lines and fields\<close>

lemma fgets_line:
  "nl \<notin> set s \<Longrightarrow> length s < n \<Longrightarrow> fgets n (s @ nl # rest) = (s @ [nl], rest)"
proof (induction s arbitrary: n)
  case Nil
  then show ?case by (cases n) auto
next
  case (Cons c s)
  then show ?case by (cases n) auto
qed

lemma fgets_all_Nil [simp]: "fgets_all n [] = []"
  by (subst fgets_all.simps) simp

lemma fgets_all_line:
  "nl \<notin> set s \<Longrightarrow> length s \<le> n \<Longrightarrow> fgets_all n (s @ nl # rest) = (s @ [nl]) # fgets_all n rest"
  by (subst fgets_all.simps) (simp add: fgets_line)

lemma fgets_all_lines:
  "(\<And>s. s \<in> set ls \<Longrightarrow> nl \<notin> set s \<and> length s \<le> n) \<Longrightarrow>
   fgets_all n (concat (map (\<lambda>s. s @ [nl]) ls)) = map (\<lambda>s. s @ [nl]) ls"
  by (induction ls) (auto simp: fgets_all_line)

lemma split_at_field: "c \<notin> set a \<Longrightarrow> split_at c (a @ c # b) = Some (a, b)"
  by (induction a) (auto simp: split_at_def)

lemma split_at_None: "split_at c s = None \<longleftrightarrow> c \<notin> set s"
  by (simp add: split_at_def)

lemma has_prefix_append [simp]: "has_prefix p (p @ s)"
  by (simp add: has_prefix_def)

end
