(* ===== verification/KV_Store.thy ===== *)
theory KV_Store
  imports KV_Text
begin

text \<open>
  String commands of \<^verbatim>\<open>src/kv.c\<close>: storing, reading, deleting and testing a key, with the
  choice between a shard lock and all locks, the log record written before the table changes
  and taken back when the change fails.
\<close>

section \<open>Making room\<close>

text \<open>The guard every allocating command runs: with a memory budget, evict until the request
  fits, and refuse it if it still does not.\<close>

definition make_room :: "nat \<Rightarrow> world \<Rightarrow> bool \<times> world" where
  "make_room need w =
     (if max_memory_budget (st w) > 0
      then let w1 = evict_for need w
           in (allocated_bytes (st w1) + need \<le> max_memory_budget (st w1), w1)
      else (True, w))"

section \<open>Storing a string\<close>

definition overwrite_string :: "entry_ptr \<Rightarrow> string \<Rightarrow> string \<Rightarrow> nat \<Rightarrow> world \<Rightarrow> int \<times> world" where
  "overwrite_string ptr k v old_val_bytes w =
     (let new_val_bytes = length v + 1;
          (new_value, w1) = copy_string_bounded v KV_MAX_VALUE_LEN w
      in case new_value of
           None \<Rightarrow> (KV_ERR_INTERNAL, w1)
         | Some v' \<Rightarrow>
             (let s1 = touch ptr (set_entry ptr (\<lambda>e. e\<lparr>e_value := VString v'\<rparr>) (st w1));
                  s2 = (if new_val_bytes > old_val_bytes then add_bytes (new_val_bytes - old_val_bytes) s1
                        else s1\<lparr>allocated_bytes := sz_sub (allocated_bytes s1) (old_val_bytes - new_val_bytes)\<rparr>)
              in (KV_OK, append_record2 ''SET'' k v (w1\<lparr>st := s2\<rparr>))))"

text \<open>The three allocations of a new entry; an earlier one is released when a later one fails.\<close>

definition alloc_string_entry :: "string \<Rightarrow> string \<Rightarrow> world \<Rightarrow> (string \<times> string) option \<times> world" where
  "alloc_string_entry k v w =
     (let (ok, w1) = tracked_malloc sizeof_kv_entry w
      in if \<not> ok then (None, w1)
         else
           (let (key', w2) = copy_string_bounded k KV_MAX_KEY_LEN w1
            in case key' of
                 None \<Rightarrow> (None, w2)
               | Some k' \<Rightarrow>
                   (let (value', w3) = copy_string_bounded v KV_MAX_VALUE_LEN w2
                    in (map_option (Pair k') value', w3))))"

definition insert_string :: "string \<Rightarrow> string \<Rightarrow> world \<Rightarrow> int \<times> world" where
  "insert_string k v w =
     (if max_capacity (st w) > 0 \<and> kv_size (st w) \<ge> max_capacity (st w) then (KV_ERR_CAPACITY_FULL, w)
      else
        (let bytes = sizeof_kv_entry + length k + 1 + length v + 1;
             (fits, w1) = make_room bytes w
         in if \<not> fits then (KV_ERR_BUDGET_EXCEEDED, w1)
            else
              (let (copies, w2) = alloc_string_entry k v w1
               in case copies of
                    None \<Rightarrow> (KV_ERR_INTERNAL, w2)
                  | Some (k', v') \<Rightarrow>
                      (let c = lru_clock (st w2) + 1;
                           e = \<lparr>e_key = k', e_value = VString v', expire_at_ms = 0, last_accessed_time = c\<rparr>;
                           s3 = add_bytes bytes (insert_entry e ((st w2)\<lparr>lru_clock := c\<rparr>))
                       in (KV_OK, append_record2 ''SET'' k v (w2\<lparr>st := s3\<rparr>))))))"

text \<open>An existing string: evict for the growth alone, then look again whether the entry is
  still there.\<close>

definition replace_string :: "string \<Rightarrow> string \<Rightarrow> string \<Rightarrow> world \<Rightarrow> int \<times> world" where
  "replace_string k v old w =
     (let old_val_bytes = length old + 1;
          new_val_bytes = length v + 1;
          delta = (if new_val_bytes > old_val_bytes then new_val_bytes - old_val_bytes else 0);
          (fits, w1) = (if delta > 0 then make_room delta w else (True, w))
      in if \<not> fits then (KV_ERR_BUDGET_EXCEEDED, w1)
         else case locate (st w1) k of
                None \<Rightarrow> insert_string k v w1
              | Some ptr \<Rightarrow> overwrite_string ptr k v old_val_bytes w1)"

definition kv_set_internal :: "cstr \<Rightarrow> cstr \<Rightarrow> world \<Rightarrow> int \<times> world" where
  "kv_set_internal key value w =
     (case validate_key key of
        Inl err \<Rightarrow> (err, w)
      | Inr key_len \<Rightarrow>
          (case validate_value value of
             Inl err \<Rightarrow> (err, w)
           | Inr val_len \<Rightarrow>
               (let k = the key; v = the value
                in case locate (st w) k of
                     None \<Rightarrow> insert_string k v w
                   | Some ptr \<Rightarrow>
                       (case e_value (deref (st w) ptr) of
                          VString old \<Rightarrow> replace_string k v old w
                        | _ \<Rightarrow> (KV_ERR_WRONG_TYPE, w)))))"

text \<open>The load factor and budget tests that decide whether the whole table must be locked.\<close>

definition load_exceeded :: "kv_store \<Rightarrow> bool" where
  "load_exceeded s \<longleftrightarrow>
     auto_resize s \<and> (kv_size s + 1) * KV_LOAD_FACTOR_DEN \<ge> bucket_count s * KV_LOAD_FACTOR_NUM"

definition budget_exceeded :: "nat \<Rightarrow> kv_store \<Rightarrow> bool" where
  "budget_exceeded bytes s \<longleftrightarrow> max_memory_budget s > 0 \<and> allocated_bytes s + bytes > max_memory_budget s"

text \<open>Locking everything and resizing; \<open>True\<close> in the result of \<open>set_acquire\<close> means that all
  locks are held.\<close>

definition acquire_global :: "world \<Rightarrow> world" where
  "acquire_global w =
     (let w1 = kv_acquire_all_locks w
      in if load_exceeded (st w1) then snd (kv_resize_unlocked (sz_mul (bucket_count (st w1)) 2) w1) else w1)"

definition set_acquire :: "nat \<Rightarrow> string \<Rightarrow> world \<Rightarrow> bool \<times> world" where
  "set_acquire bytes k w =
     (if load_exceeded (st w) \<or> budget_exceeded bytes (st w) then (True, acquire_global w)
      else
        (let w1 = kv_acquire_bucket_lock k w
         in if load_exceeded (st w1) \<or> budget_exceeded bytes (st w1)
            then (True, acquire_global (kv_release_bucket_lock k w1))
            else (False, w1)))"

definition set_release :: "bool \<Rightarrow> string \<Rightarrow> world \<Rightarrow> world" where
  "set_release is_global k w = (if is_global then kv_release_all_locks w else kv_release_bucket_lock k w)"

text \<open>Write-ahead logging as \<^verbatim>\<open>kv_set\<close> and \<^verbatim>\<open>kv_delete\<close> do it: with an open log the record
  goes first, and a failing update takes it back.\<close>

definition logged :: "string \<Rightarrow> (world \<Rightarrow> int \<times> world) \<Rightarrow> world \<Rightarrow> int \<times> world" where
  "logged rec update w =
     (let (aof_err, aof_pos, w1) =
            (if aof_fp (aof w) \<noteq> None then write_aof_record rec w else (KV_OK, - 1, w))
      in if aof_err \<noteq> KV_OK then (aof_err, w1)
         else
           (let (res, w2) = update w1
            in (res, if res \<noteq> KV_OK \<and> aof_fp (aof w2) \<noteq> None then rollback_aof_record aof_pos w2 else w2)))"

definition kv_set :: "cstr \<Rightarrow> cstr \<Rightarrow> world \<Rightarrow> int \<times> world" where
  "kv_set key value w =
     (if \<not> lock_initialized (st w) then (KV_ERR_INVALID_PARAM, w)
      else
        case validate_key key of
          Inl err \<Rightarrow> (err, w)
        | Inr key_len \<Rightarrow>
            (case validate_value value of
               Inl err \<Rightarrow> (err, w)
             | Inr val_len \<Rightarrow>
                 (let k = the key; v = the value;
                      bytes = sizeof_kv_entry + key_len + 1 + val_len + 1;
                      (is_global, w1) = set_acquire bytes k w;
                      (res, w2) = logged (record2 ''SET'' k v) (kv_set_internal key value) w1
                  in (res, set_release is_global k w2))))"

section \<open>Reading, deleting, testing\<close>

definition kv_get :: "cstr \<Rightarrow> world \<Rightarrow> cstr \<times> world" where
  "kv_get key w =
     (case key of
        None \<Rightarrow> (None, w)
      | Some k \<Rightarrow>
          if \<not> lock_initialized (st w) then (None, w)
          else
            (let w1 = kv_acquire_bucket_lock k w;
                 (entry, w2) = find_entry_unlocked k w1
             in case entry of
                  None \<Rightarrow> (None, kv_release_bucket_lock k w2)
                | Some ptr \<Rightarrow>
                    (case e_value (deref (st w2) ptr) of
                       VString v \<Rightarrow> (Some v, kv_release_bucket_lock k (upd_st (touch ptr) w2))
                     | _ \<Rightarrow> (None, kv_release_bucket_lock k w2))))"

definition kv_delete_internal :: "cstr \<Rightarrow> world \<Rightarrow> int \<times> world" where
  "kv_delete_internal key w =
     (case validate_key key of
        Inl err \<Rightarrow> (KV_ERR_INVALID_PARAM, w)
      | Inr _ \<Rightarrow>
          (let k = the key
           in case locate (st w) k of
                None \<Rightarrow> (KV_ERR_NOT_FOUND, w)
              | Some ptr \<Rightarrow>
                  (KV_OK, append_record1 ''DELETE'' k (upd_st (expire_and_delete_unlocked ptr) w))))"

definition kv_delete :: "cstr \<Rightarrow> world \<Rightarrow> int \<times> world" where
  "kv_delete key w =
     (if \<not> lock_initialized (st w) then (KV_ERR_INVALID_PARAM, w)
      else
        case validate_key key of
          Inl err \<Rightarrow> (KV_ERR_INVALID_PARAM, w)
        | Inr _ \<Rightarrow>
            (let k = the key;
                 (res, w1) = logged (record1 ''DELETE'' k) (kv_delete_internal key) (kv_acquire_bucket_lock k w)
             in (res, kv_release_bucket_lock k w1)))"

definition kv_exists :: "cstr \<Rightarrow> world \<Rightarrow> bool \<times> world" where
  "kv_exists key w =
     (case key of
        None \<Rightarrow> (False, w)
      | Some k \<Rightarrow>
          if \<not> lock_initialized (st w) then (False, w)
          else
            (let (entry, w1) = find_entry_unlocked k (kv_acquire_bucket_lock k w)
             in (entry \<noteq> None, kv_release_bucket_lock k w1)))"

section \<open>What a successful update means\<close>

text \<open>\<open>stored k e s s'\<close>: afterwards \<open>k\<close> has the entry \<open>e\<close>; other keys are unchanged, except
  that with a memory budget some may have been evicted.\<close>

definition same_settings :: "kv_store \<Rightarrow> kv_store \<Rightarrow> bool" where
  "same_settings s s' \<longleftrightarrow>
     max_memory_budget s' = max_memory_budget s \<and> max_capacity s' = max_capacity s \<and>
     auto_resize s' = auto_resize s \<and> bucket_locks s' = bucket_locks s \<and>
     num_locks s' = num_locks s \<and> lock_initialized s' = lock_initialized s"

definition stored :: "string \<Rightarrow> kv_entry \<Rightarrow> kv_store \<Rightarrow> kv_store \<Rightarrow> bool" where
  "stored k e s s' \<longleftrightarrow>
     lookup s' k = Some e \<and> (lookup s')(k := None) \<subseteq>\<^sub>m lookup s \<and>
     (max_memory_budget s = 0 \<longrightarrow> lookup s' = (lookup s)(k \<mapsto> e)) \<and> same_settings s s'"

lemma same_settings_refl [simp]: "same_settings s s"
  by (simp add: same_settings_def)

lemma same_settings_trans: "same_settings s t \<Longrightarrow> same_settings t u \<Longrightarrow> same_settings s u"
  by (simp add: same_settings_def)

lemma shrunk_settings: "shrunk s s' \<Longrightarrow> same_settings s s'"
  by (simp add: shrunk_def same_settings_def)

lemma shrunk_within_budget: "shrunk s s' \<Longrightarrow> within_budget s \<Longrightarrow> within_budget s'"
  by (auto simp: shrunk_def within_budget_def)

lemma stored_after_shrunk:
  assumes "shrunk s t" and "lookup s' = (lookup t)(k \<mapsto> e)" and "max_memory_budget s = 0 \<longrightarrow> lookup t = lookup s"
    and "same_settings t s'"
  shows "stored k e s s'"
  using assms shrunk_settings [OF assms(1)]
  by (auto simp: stored_def shrunk_def map_le_def dom_def intro: same_settings_trans)

text \<open>A command that fails may have evicted entries, but only if there is a budget.\<close>

definition only_evicted :: "kv_store \<Rightarrow> kv_store \<Rightarrow> bool" where
  "only_evicted s s' \<longleftrightarrow> shrunk s s' \<and> (max_memory_budget s = 0 \<longrightarrow> s' = s)"

lemma only_evicted_refl [simp]: "only_evicted s s"
  by (simp add: only_evicted_def)

lemma only_evicted_trans: "only_evicted s t \<Longrightarrow> only_evicted t u \<Longrightarrow> only_evicted s u"
  by (auto simp: only_evicted_def shrunk_def intro: map_le_trans)

lemma only_evictedD:
  assumes "only_evicted s s'"
  shows "lookup s' \<subseteq>\<^sub>m lookup s" "max_memory_budget s = 0 \<longrightarrow> s' = s" "same_settings s s'"
    "within_budget s \<longrightarrow> within_budget s'"
  using assms shrunk_settings [of s s'] shrunk_within_budget [of s s']
  by (auto simp: only_evicted_def shrunk_def)

lemma make_room_spec:
  assumes "wf_store base (st w)" and "make_room need w = (fits, w')"
  shows "wf_store base (st w')" "shrunk (st w) (st w')" "max_memory_budget (st w) = 0 \<longrightarrow> fits \<and> w' = w"
    "fits \<longrightarrow> max_memory_budget (st w) = 0 \<or> allocated_bytes (st w') + need \<le> max_memory_budget (st w)"
    "aof w' = aof w" "repl w' = repl w" "lock_trace w' = lock_trace w" "no_oom w' = no_oom w"
    "now_of w' = now_of w"
  using assms lru.loop_keeps_wf [OF assms(1), of need] lru.loop_shrinks [OF assms(1), of need]
  by (auto simp: make_room_def Let_def lru.loop_others shrunk_def split: if_splits)

lemma alloc_string_entry_frame [frame]:
  "st (snd (alloc_string_entry k v w)) = st w" "aof (snd (alloc_string_entry k v w)) = aof w"
  "repl (snd (alloc_string_entry k v w)) = repl w" "lock_trace (snd (alloc_string_entry k v w)) = lock_trace w"
  "now_of (snd (alloc_string_entry k v w)) = now_of w"
  by (simp_all add: alloc_string_entry_def split_beta Let_def frame split: option.split)

lemma copy_string_bounded_fst:
  "fst (copy_string_bounded s m w) = Some t \<Longrightarrow> cstring s \<Longrightarrow> t = s"
  using copy_string_bounded_Some [of s m w t] by (simp add: prod_eq_iff)

lemma alloc_string_entry_Some:
  assumes "cstring k" and "cstring v" and "fst (alloc_string_entry k v w) = Some x"
  shows "x = (k, v)"
  using assms
  by (auto simp: alloc_string_entry_def split_beta Let_def dest: copy_string_bounded_fst
      split: if_splits option.splits)

lemma alloc_string_entry_no_oom:
  assumes "no_oom w" and "cstring k" and "valid_key k" and "cstring v" and "valid_value v"
  shows "fst (alloc_string_entry k v w) = Some (k, v) \<and> no_oom (snd (alloc_string_entry k v w))"
  using assms tracked_malloc_no_oom [OF assms(1), of sizeof_kv_entry]
  by (simp add: alloc_string_entry_def split_beta Let_def copy_string_bounded_no_oom valid_key_def valid_value_def)

text \<open>Linking a new entry after some evictions.\<close>

lemma insert_after_shrunk:
  fixes c :: "64 word"
  assumes "shrunk s t" and "wf_store base t" and "max_memory_budget s = 0 \<longrightarrow> t = s"
    and "wf_entry e" and "lookup s (e_key e) = None"
    and "max_memory_budget s = 0 \<or> allocated_bytes t + entry_bytes e \<le> max_memory_budget s"
  defines "s' \<equiv> add_bytes (entry_bytes e) (insert_entry e (t\<lparr>lru_clock := c\<rparr>))"
  shows "wf_store base s'" and "stored (e_key e) e s s'" and "within_budget s'"
proof -
  define u where "u = t\<lparr>lru_clock := c\<rparr>"
  have u: "wf_store base u" "lookup u = lookup t" "same_settings t u" "allocated_bytes u = allocated_bytes t"
    using assms(2) by (auto simp: u_def wf_store_def lookup_def same_settings_def)
  have "lookup u (e_key e) = None"
    using shrunk_lookup_None [OF assms(1,5)] u(2) by simp
  then show "wf_store base s'"
    using wf_insert_entry [OF u(1) assms(4)] by (simp add: s'_def u_def)
  have "lookup s' = (lookup t)(e_key e \<mapsto> e)"
    using lookup_insert_entry [OF u(1), of e] u(2) by (auto simp: s'_def u_def [symmetric] fun_eq_iff)
  then show "stored (e_key e) e s s'"
    using assms(3) u(3)
    by (intro stored_after_shrunk [OF assms(1)]) (auto simp: s'_def u_def [symmetric] same_settings_def)
  show "within_budget s'"
    using assms(6) shrunk_settings [OF assms(1)] u(3,4)
    by (auto simp: within_budget_def s'_def u_def [symmetric] same_settings_def)
qed

lemma insert_string_cases [consumes 6]:
  assumes "wf_store base (st w)" and "cstring k" and "valid_key k" and "cstring v" and "valid_value v"
    and "lookup (st w) k = None"
  obtains (refused) "fst (insert_string k v w) \<noteq> KV_OK"
      "only_evicted (st w) (st (snd (insert_string k v w)))" "wf_store base (st (snd (insert_string k v w)))"
  | (inserted) c where "fst (insert_string k v w) = KV_OK"
      "stored k \<lparr>e_key = k, e_value = VString v, expire_at_ms = 0, last_accessed_time = c\<rparr>
         (st w) (st (snd (insert_string k v w)))"
      "wf_store base (st (snd (insert_string k v w)))" "within_budget (st (snd (insert_string k v w)))"
proof -
  define bytes where "bytes = sizeof_kv_entry + length k + 1 + length v + 1"
  obtain fits w1 where m: "make_room bytes w = (fits, w1)" by fastforce
  note room = make_room_spec [OF assms(1) m]
  define a where "a = alloc_string_entry k v w1"
  have st2: "st (snd a) = st w1" by (simp add: a_def frame)
  note run = insert_string_def [of k v w, folded bytes_def, unfolded Let_def m split_conv, folded a_def]
  show thesis
  proof (cases "max_capacity (st w) > 0 \<and> kv_size (st w) \<ge> max_capacity (st w) \<or> \<not> fits \<or> fst a = None")
    case True
    then have "fst (insert_string k v w) \<noteq> KV_OK"
      "st (snd (insert_string k v w)) = st w \<or> st (snd (insert_string k v w)) = st w1"
      by (auto simp: run split_beta st2 split: if_splits)
    then show thesis using refused room(1-3) assms(1) by (auto simp: only_evicted_def)
  next
    case False
    define c where "c = lru_clock (st w1) + 1"
    define e where "e = \<lparr>e_key = k, e_value = VString v, expire_at_ms = 0, last_accessed_time = c\<rparr>"
    have "fst a = Some (k, v)"
      using False alloc_string_entry_Some [OF assms(2,4), of w1] by (auto simp: a_def)
    then have "fst (insert_string k v w) = KV_OK"
      "st (snd (insert_string k v w)) = add_bytes bytes (insert_entry e ((st w1)\<lparr>lru_clock := c\<rparr>))"
      using False by (auto simp: run split_beta st2 same_but_logD(1) [OF same_but_log_append_record(2)] e_def c_def)
    moreover have e: "wf_entry e" "entry_bytes e = bytes" "e_key e = k"
      using assms by (auto simp: e_def wf_entry_def entry_bytes_def bytes_def)
    ultimately show thesis
      using insert_after_shrunk [OF room(2,1) _ e(1), of c] room(3,4) False assms(6)
      by (intro inserted [of c]) (auto simp: e_def)
  qed
qed

lemma overwrite_string_cases [consumes 5]:
  assumes "wf_store base (st w)" and "cstring v" and "valid_value v" and "locate (st w) k = Some ptr"
    and "e_value (deref (st w) ptr) = VString old"
  obtains (refused) "fst (overwrite_string ptr k v (length old + 1) w) \<noteq> KV_OK"
      "st (snd (overwrite_string ptr k v (length old + 1) w)) = st w"
  | (stored) c where "fst (overwrite_string ptr k v (length old + 1) w) = KV_OK"
      "lookup (st (snd (overwrite_string ptr k v (length old + 1) w))) =
         (lookup (st w))(k \<mapsto> (deref (st w) ptr)\<lparr>e_value := VString v, last_accessed_time := c\<rparr>)"
      "wf_store base (st (snd (overwrite_string ptr k v (length old + 1) w)))"
      "allocated_bytes (st (snd (overwrite_string ptr k v (length old + 1) w))) + length old =
         allocated_bytes (st w) + length v"
      "same_settings (st w) (st (snd (overwrite_string ptr k v (length old + 1) w)))"
proof (cases "fst (copy_string_bounded v KV_MAX_VALUE_LEN w)")
  case None
  then show thesis
    by (intro refused) (auto simp: overwrite_string_def split_beta Let_def frame)
next
  case (Some v')
  note ptr = locate_Some [OF assms(1,4)]
  let ?s = "st w"
  define c where "c = lru_clock ?s + 1"
  define g where "g = (\<lambda>e :: kv_entry. e\<lparr>e_value := VString v, last_accessed_time := c\<rparr>)"
  define s0 where "s0 = ?s\<lparr>lru_clock := c\<rparr>"
  define a where "a = (if length v > length old then allocated_bytes ?s + (length v - length old)
      else sz_sub (allocated_bytes ?s) (length old - length v))"
  define pk where "pk = (if length v > length old \<and> a > peak_allocated_bytes ?s then a else peak_allocated_bytes ?s)"
  define s2 where "s2 = (set_entry ptr g s0)\<lparr>allocated_bytes := a, peak_allocated_bytes := pk\<rparr>"
  have v': "v' = v" using copy_string_bounded_fst [OF Some assms(2)] .
  have touch: "touch ptr (set_entry ptr (\<lambda>e. e\<lparr>e_value := VString v\<rparr>) ?s) = set_entry ptr g s0"
    using ptr(1) by (simp add: touch_def set_entry_def Let_def s0_def c_def g_def update_at_def valid_ptr_def)
  have run: "fst (overwrite_string ptr k v (length old + 1) w) = KV_OK"
    "st (snd (overwrite_string ptr k v (length old + 1) w)) =
       (if length v > length old then add_bytes (length v - length old) (set_entry ptr g s0)
        else (set_entry ptr g s0)\<lparr>allocated_bytes :=
               sz_sub (allocated_bytes (set_entry ptr g s0)) (length old - length v)\<rparr>)"
    using Some
    by (simp_all add: overwrite_string_def split_beta Let_def frame v' touch
        same_but_logD(1) [OF same_but_log_append_record(2)])
  have run2: "st (snd (overwrite_string ptr k v (length old + 1) w)) = s2"
    unfolding run(2) by (simp add: s2_def a_def pk_def add_bytes_def set_entry_def s0_def Let_def)
  have s0: "wf_store base s0" "valid_ptr s0 ptr" "deref s0 ptr = deref ?s ptr"
    "allocated_bytes s0 = allocated_bytes ?s" "lookup s0 = lookup ?s" "peak_allocated_bytes s0 = peak_allocated_bytes ?s"
    using assms(1) ptr(1) by (auto simp: s0_def wf_store_def valid_ptr_def lookup_def)
  have bytes: "length old \<le> allocated_bytes ?s"
    using wf_storeD(7) [OF assms(1)] table_sum_member_le [of "fst ptr" "buckets ?s" "deref ?s ptr" entry_bytes]
      ptr(1) assms(5) by (simp add: valid_ptr_def entry_bytes_def)
  then have a: "a + length old = allocated_bytes ?s + length v" by (auto simp: a_def)
  have wfg: "wf_entry (g (deref ?s ptr))"
    using wf_store_entry [OF assms(1) ptr(1)] assms(2,3) by (simp add: g_def wf_entry_def)
  have "wf_store base s2"
    unfolding s2_def
    by (rule wf_rewrite_entry [OF s0(1,2)])
      (use s0 wfg a assms(5) wf_storeD(8) [OF assms(1)] in \<open>auto simp: g_def entry_bytes_def pk_def a_def\<close>)
  moreover have "lookup s2 = (lookup ?s)(k \<mapsto> g (deref ?s ptr))"
    using lookup_set_entry [OF s0(1,2), of g] s0(3,5) ptr(2)
    by (auto simp: s2_def lookup_def g_def fun_eq_iff)
  ultimately show thesis
    using run(1) run2 a
    by (intro stored [of c]) (auto simp: g_def s2_def same_settings_def set_entry_def s0_def)
qed

text \<open>The expiry time a key has, \<open>0\<close> (never) when it is absent.\<close>

definition expiry_of :: "kv_store \<Rightarrow> string \<Rightarrow> int" where
  "expiry_of s k = (case lookup s k of None \<Rightarrow> 0 | Some e \<Rightarrow> expire_at_ms e)"

text \<open>What \<open>SET\<close> achieves: the key maps to the string. Its expiry time is the one it had,
  unless the entry itself was evicted to make room and then stored afresh.\<close>

definition string_stored :: "string \<Rightarrow> string \<Rightarrow> kv_store \<Rightarrow> kv_store \<Rightarrow> bool" where
  "string_stored k v s s' \<longleftrightarrow>
     (\<exists>e. stored k e s s' \<and> e_value e = VString v \<and>
        (expire_at_ms e = expiry_of s k \<or> max_memory_budget s > 0 \<and> expire_at_ms e = 0)) \<and>
     (\<forall>e0. lookup s k = Some e0 \<longrightarrow> e_type e0 = KV_TYPE_STRING)"

lemma string_storedI:
  assumes "stored k e s s'" and "e_value e = VString v"
    and "expire_at_ms e = expiry_of s k \<or> max_memory_budget s > 0 \<and> expire_at_ms e = 0"
    and "\<And>e0. lookup s k = Some e0 \<Longrightarrow> e_type e0 = KV_TYPE_STRING"
  shows "string_stored k v s s'"
  using assms by (auto simp: string_stored_def)

lemma stored_shrunk:
  assumes "shrunk s t" and "max_memory_budget s = 0 \<longrightarrow> t = s" and "stored k e t s'"
  shows "stored k e s s'"
  using assms map_le_trans [of "(lookup s')(k := None)" "lookup t" "lookup s"] shrunk_settings [OF assms(1)]
  by (auto simp: stored_def shrunk_def intro: same_settings_trans)

lemma replace_string_run:
  "replace_string k v old w =
     (case (if length v - length old > 0 then make_room (length v - length old) w else (True, w)) of (fits, w1) \<Rightarrow>
        if \<not> fits then (KV_ERR_BUDGET_EXCEEDED, w1)
        else case locate (st w1) k of
               None \<Rightarrow> insert_string k v w1
             | Some ptr \<Rightarrow> overwrite_string ptr k v (Suc (length old)) w1)"
proof -
  have "(if Suc (length old) < Suc (length v) then Suc (length v) - Suc (length old) else 0) =
    length v - length old" by simp
  then show ?thesis by (simp add: replace_string_def Let_def cong: if_cong)
qed

lemma replace_string_cases [consumes 6]:
  assumes "wf_store base (st w)" and "cstring k" and "valid_key k" and "cstring v" and "valid_value v"
    and "lookup (st w) k = Some e0 \<and> e_value e0 = VString old"
  obtains (refused) "fst (replace_string k v old w) \<noteq> KV_OK"
      "only_evicted (st w) (st (snd (replace_string k v old w)))" "wf_store base (st (snd (replace_string k v old w)))"
  | (stored) "fst (replace_string k v old w) = KV_OK"
      "string_stored k v (st w) (st (snd (replace_string k v old w)))"
      "wf_store base (st (snd (replace_string k v old w)))"
      "within_budget (st w) \<longrightarrow> within_budget (st (snd (replace_string k v old w)))"
proof -
  let ?d = "length v - length old" and ?r = "replace_string k v old w"
  obtain fits w1 where m: "(if ?d > 0 then make_room ?d w else (True, w)) = (fits, w1)" by fastforce
  have room: "wf_store base (st w1)" "shrunk (st w) (st w1)" "max_memory_budget (st w) = 0 \<longrightarrow> fits \<and> w1 = w"
    "fits \<longrightarrow> within_budget (st w) \<longrightarrow> max_memory_budget (st w) = 0 \<or> allocated_bytes (st w1) + ?d \<le> max_memory_budget (st w)"
    using m make_room_spec [OF assms(1), of ?d fits w1] assms(1)
    by (auto simp: within_budget_def split: if_splits)
  then have ev: "only_evicted (st w) (st w1)" by (simp add: only_evicted_def)
  have run: "?r = (if \<not> fits then (KV_ERR_BUDGET_EXCEEDED, w1)
                else case locate (st w1) k of None \<Rightarrow> insert_string k v w1
                     | Some ptr' \<Rightarrow> overwrite_string ptr' k v (Suc (length old)) w1)"
    by (simp only: replace_string_run m split_conv)
  show thesis
  proof (cases fits)
    case False
    then show thesis using room(1) ev run by (intro refused) auto
  next
    case fits: True
    show thesis
    proof (cases "locate (st w1) k")
      case None
      then have none: "lookup (st w1) k = None" using locate_None [OF room(1)] by blast
      from room(1) assms(2-5) none show thesis
      proof (cases rule: insert_string_cases)
        case refused
        then show thesis
          using that(1) run fits None only_evicted_trans [OF ev] by simp
      next
        case (inserted c)
        moreover have "max_memory_budget (st w) > 0"
          using none assms(6) room(3) by (cases "max_memory_budget (st w) = 0") auto
        ultimately have "string_stored k v (st w) (st (snd ?r))"
          using run fits None assms(6) room(3)
          by (intro string_storedI [OF stored_shrunk [OF room(2)]]) auto
        with inserted show thesis using that(2) run fits None by simp
      qed
    next
      case (Some ptr)
      note ptr = locate_Some [OF room(1) Some]
      have same: "deref (st w1) ptr = e0"
        using shrunk_lookup [OF room(2) ptr(3)] assms(6) by simp
      with assms(6) have str: "e_value (deref (st w1) ptr) = VString old" by simp
      from room(1) assms(4,5) Some str show thesis
      proof (cases rule: overwrite_string_cases)
        case refused
        then show thesis using that(1) run fits Some room(1) ev by auto
      next
        case (stored c)
        let ?e = "(deref (st w1) ptr)\<lparr>e_value := VString v, last_accessed_time := c\<rparr>"
        have "stored k ?e (st w) (st (snd ?r))"
          using stored(2,5) run fits Some room(3)
          by (intro stored_after_shrunk [OF room(2)]) auto
        then have "string_stored k v (st w) (st (snd ?r))"
          using assms(6) same by (intro string_storedI) (auto simp: expiry_of_def)
        moreover have "within_budget (st w) \<longrightarrow> within_budget (st (snd ?r))"
          using room(4) stored(4,5) run fits Some shrunk_settings [OF room(2)]
          by (auto simp: within_budget_def same_settings_def)
        ultimately show thesis
          using that(2) stored(1,3) run fits Some by simp
      qed
    qed
  qed
qed

lemma kv_set_internal_shape:
  assumes "wf_store base (st w)" and "cstring k" and "cstring v"
  obtains (invalid) "fst (kv_set_internal (Some k) (Some v) w) \<noteq> KV_OK"
      "snd (kv_set_internal (Some k) (Some v) w) = w"
    | (new) "valid_key k" "valid_value v" "lookup (st w) k = None"
        "kv_set_internal (Some k) (Some v) w = insert_string k v w"
    | (old) e0 str where "valid_key k" "valid_value v" "lookup (st w) k = Some e0 \<and> e_value e0 = VString str"
        "kv_set_internal (Some k) (Some v) w = replace_string k v str w"
proof (cases "validate_key (Some k)")
  case (Inl e)
  then show thesis
    using validate_key_error [OF Inl] by (intro invalid) (auto simp: kv_set_internal_def)
next
  case kl: (Inr kl)
  show thesis
  proof (cases "validate_value (Some v)")
    case (Inl e)
    then show thesis
      using kl validate_value_error [OF Inl] by (intro invalid) (auto simp: kv_set_internal_def)
  next
    case vl: (Inr vl)
    with kl assms have v: "valid_key k" "valid_value v"
      by (simp_all add: validate_key_Inr validate_value_Inr)
    show thesis
    proof (cases "locate (st w) k")
      case None
      with v kl vl locate_None [OF assms(1), of k] show thesis
        by (intro new) (simp_all add: kv_set_internal_def)
    next
      case (Some ptr)
      with v kl vl locate_Some [OF assms(1) Some] show thesis
        by (cases "e_value (deref (st w) ptr)")
          (auto simp: kv_set_internal_def Let_def intro: invalid old)
    qed
  qed
qed

lemma kv_set_internal_cases [consumes 3]:
  assumes "wf_store base (st w)" and "cstring k" and "cstring v"
  obtains (refused) "fst (kv_set_internal (Some k) (Some v) w) \<noteq> KV_OK"
      "only_evicted (st w) (st (snd (kv_set_internal (Some k) (Some v) w)))"
      "wf_store base (st (snd (kv_set_internal (Some k) (Some v) w)))"
  | (stored) "fst (kv_set_internal (Some k) (Some v) w) = KV_OK" "valid_key k" "valid_value v"
      "string_stored k v (st w) (st (snd (kv_set_internal (Some k) (Some v) w)))"
      "wf_store base (st (snd (kv_set_internal (Some k) (Some v) w)))"
      "within_budget (st w) \<longrightarrow> within_budget (st (snd (kv_set_internal (Some k) (Some v) w)))"
  using assms
proof (rule kv_set_internal_shape)
  assume "fst (kv_set_internal (Some k) (Some v) w) \<noteq> KV_OK"
    "snd (kv_set_internal (Some k) (Some v) w) = w"
  with assms(1) show thesis by (intro refused) auto
next
  assume k: "valid_key k" and v: "valid_value v" and none: "lookup (st w) k = None"
    and run: "kv_set_internal (Some k) (Some v) w = insert_string k v w"
  from assms(1,2) k assms(3) v none show thesis
  proof (cases rule: insert_string_cases)
    case refused
    then show thesis using that(1) run by simp
  next
    case (inserted c)
    then have "string_stored k v (st w) (st (snd (insert_string k v w)))"
      using none by (intro string_storedI) (auto simp: expiry_of_def)
    with inserted show thesis using that(2) k v run by simp
  qed
next
  fix e0 str
  assume k: "valid_key k" and v: "valid_value v"
    and old: "lookup (st w) k = Some e0 \<and> e_value e0 = VString str"
    and run: "kv_set_internal (Some k) (Some v) w = replace_string k v str w"
  from assms(1,2) k assms(3) v old show thesis
    by (cases rule: replace_string_cases) (use that k v run in simp_all)
qed

section \<open>Locking and logging around an update\<close>

lemma auto_resize_resize [simp]: "auto_resize (st (snd (kv_resize_unlocked n w))) = auto_resize (st w)"
  by (auto simp: kv_resize_unlocked_def Let_def split_beta frame)

lemma now_of_resize [simp]: "now_of (snd (kv_resize_unlocked n w)) = now_of w"
  by (auto simp: kv_resize_unlocked_def Let_def split_beta kv_current_time_ms_def tracked_calloc_def libc_malloc_def)

lemma now_of_locks [simp]:
  "now_of (kv_acquire_bucket_lock k w) = now_of w" "now_of (kv_release_bucket_lock k w) = now_of w"
  "now_of (kv_acquire_all_locks w) = now_of w" "now_of (kv_release_all_locks w) = now_of w"
  by (simp_all add: kv_current_time_ms_def frame)

lemma acquire_global_spec:
  assumes "wf_store base (st w)"
  shows "wf_store base (st (acquire_global w))" "lookup (st (acquire_global w)) = lookup (st w)"
    "same_settings (st w) (st (acquire_global w))"
    "within_budget (st w) \<Longrightarrow> within_budget (st (acquire_global w))"
    "kv_size (st (acquire_global w)) = kv_size (st w)"
    "aof (acquire_global w) = aof w" "repl (acquire_global w) = repl w"
    "now_of (acquire_global w) = now_of w" "no_oom w \<Longrightarrow> no_oom (acquire_global w)"
  using assms wf_resize_unlocked [of base "kv_acquire_all_locks w"]
    lookup_resize_unlocked [of base "kv_acquire_all_locks w"]
    budget_resize_unlocked [of base "kv_acquire_all_locks w"]
  by (simp_all add: acquire_global_def Let_def frame same_settings_def)

lemma set_acquire_spec:
  assumes "wf_store base (st w)" and "set_acquire bytes k w = (g, w')"
  shows "wf_store base (st w')" "lookup (st w') = lookup (st w)" "same_settings (st w) (st w')"
    "within_budget (st w) \<Longrightarrow> within_budget (st w')" "kv_size (st w') = kv_size (st w)"
    "aof w' = aof w" "repl w' = repl w" "now_of w' = now_of w" "no_oom w \<Longrightarrow> no_oom w'"
  using assms acquire_global_spec [OF assms(1)]
  by (auto simp: set_acquire_def Let_def frame split: if_splits)

lemma set_release_frame [frame]:
  "st (set_release g k w) = st w" "aof (set_release g k w) = aof w" "repl (set_release g k w) = repl w"
  "os (set_release g k w) = os w"
  by (simp_all add: set_release_def frame)

lemma logged_cases:
  obtains (io_error) "aof_fp (aof w) \<noteq> None" "fst (logged rec update w) \<noteq> KV_OK" "same_but_log w (snd (logged rec update w))"
  | (ran) w1 where "same_but_log w w1" "fst (logged rec update w) = fst (update w1)"
      "same_but_log (snd (update w1)) (snd (logged rec update w))"
proof -
  define a where "a = (if aof_fp (aof w) \<noteq> None then write_aof_record rec w else (KV_OK, - 1, w))"
  have 1: "same_but_log w (snd (snd a))"
    using same_but_log_write by (simp add: a_def)
  have run: "logged rec update w =
      (if fst a \<noteq> KV_OK then (fst a, snd (snd a))
       else let (res, w2) = update (snd (snd a))
            in (res, if res \<noteq> KV_OK \<and> aof_fp (aof w2) \<noteq> None then rollback_aof_record (fst (snd a)) w2 else w2))"
    unfolding logged_def a_def [symmetric] by (simp add: split_beta)
  show thesis
  proof (cases "fst a = KV_OK")
    case True
    then show thesis
      using 1 same_but_log_rollback by (intro ran) (auto simp: run split_beta Let_def)
  next
    case False
    then show thesis using 1 by (intro io_error) (auto simp: run a_def split: if_splits)
  qed
qed

lemma string_stored_cong:
  "lookup s = lookup t \<Longrightarrow> same_settings s t \<Longrightarrow> string_stored k v t s' \<Longrightarrow> string_stored k v s s'"
  by (auto simp: string_stored_def stored_def expiry_of_def same_settings_def)

lemma kv_set_spec:
  assumes "wf_store base (st w)" and "cstring k" and "cstring v" and "kv_set (Some k) (Some v) w = (r, w')"
  shows "wf_store base (st w') \<and> (within_budget (st w) \<longrightarrow> within_budget (st w')) \<and>
    same_settings (st w) (st w') \<and>
    (if r = KV_OK then valid_key k \<and> valid_value v \<and> string_stored k v (st w) (st w')
     else lookup (st w') \<subseteq>\<^sub>m lookup (st w) \<and>
       (max_memory_budget (st w) = 0 \<longrightarrow> lookup (st w') = lookup (st w)))"
proof (cases "lock_initialized (st w) \<and> valid_key k \<and> valid_value v")
  case False
  then have "r \<noteq> KV_OK" "w' = w"
    using assms(2-4) validate_key_error [of "Some k"] validate_value_error [of "Some v"]
    by (fastforce simp: kv_set_def validate_key_Inr validate_value_Inr split: if_splits sum.splits)+
  with assms(1) show ?thesis by auto
next
  case True
  define bytes where "bytes = sizeof_kv_entry + length k + 1 + length v + 1"
  obtain g w1 where acq: "set_acquire bytes k w = (g, w1)" by fastforce
  note w1 = set_acquire_spec [OF assms(1) acq]
  define q where "q = logged (record2 ''SET'' k v) (kv_set_internal (Some k) (Some v)) w1"
  have res: "r = fst q" "st w' = st (snd q)"
    using assms(2-4) True acq by (auto simp: kv_set_def bytes_def q_def split_beta Let_def frame)
  show ?thesis
  proof (cases rule: logged_cases [where w = w1 and rec = "record2 ''SET'' k v"
        and update = "kv_set_internal (Some k) (Some v)"])
    case io_error
    with w1 res show ?thesis by (auto simp: q_def dest: same_but_logD(1))
  next
    case (ran w2)
    have st: "st w2 = st w1" "st w' = st (snd (kv_set_internal (Some k) (Some v) w2))"
      "r = fst (kv_set_internal (Some k) (Some v) w2)"
      using ran res by (auto simp: q_def dest: same_but_logD(1))
    then have "wf_store base (st w2)" using w1 by simp
    then show ?thesis using assms(2,3)
    proof (cases rule: kv_set_internal_cases)
      case refused
      then have "only_evicted (st w1) (st w')" using st by simp
      note ev = only_evictedD [OF this]
      have "max_memory_budget (st w1) = max_memory_budget (st w)"
        using w1(3) by (simp add: same_settings_def)
      with refused ev w1(1-4) st same_settings_trans [OF w1(3) ev(3)] show ?thesis by auto
    next
      case stored
      then have "string_stored k v (st w) (st w')"
        using w1(2,3) st by (metis string_stored_cong)
      with stored w1(1,4) st show ?thesis
        by (auto simp: string_stored_def stored_def)
    qed
  qed
qed

section \<open>Reading and deleting\<close>

text \<open>The entry a client can see at a given time.\<close>

definition live_entry :: "kv_store \<Rightarrow> int \<Rightarrow> string \<Rightarrow> kv_entry option" where
  "live_entry s now k =
     (case lookup s k of None \<Rightarrow> None | Some e \<Rightarrow> if entry_is_expired e now then None else Some e)"

lemma shrunk_find_entry_view:
  assumes "wf_store base (st w)"
  shows "kv_view (st (snd (find_entry_unlocked k w))) =
     (if live_entry (st w) (now_of w) k = None then (kv_view (st w))(k := None) else kv_view (st w))"
    and "fst (find_entry_unlocked k w) = None \<longleftrightarrow> live_entry (st w) (now_of w) k = None"
  using assms
  by (rule find_entry_cases [where k = k];
      auto simp: kv_view_def live_entry_def lookup_expire_and_delete [OF assms] fun_eq_iff)+

lemma kv_get_spec:
  assumes "wf_store base (st w)" and "lock_initialized (st w)" and "kv_get (Some k) w = (r, w')"
  shows "wf_store base (st w') \<and>
    r = (case live_entry (st w) (now_of w) k of
           Some e \<Rightarrow> (case e_value e of VString v \<Rightarrow> Some v | _ \<Rightarrow> None) | None \<Rightarrow> None) \<and>
    kv_view (st w') =
      (if live_entry (st w) (now_of w) k = None then (kv_view (st w))(k := None) else kv_view (st w)) \<and>
    same_settings (st w) (st w') \<and> (within_budget (st w) \<longrightarrow> within_budget (st w'))"
proof -
  define w1 where "w1 = kv_acquire_bucket_lock k w"
  have w1: "wf_store base (st w1)" "st w1 = st w" "now_of w1 = now_of w"
    using assms(1) by (simp_all add: w1_def frame)
  obtain q w2 where f: "find_entry_unlocked k w1 = (q, w2)" by fastforce
  note view = shrunk_find_entry_view [OF w1(1), of k, unfolded f fst_conv snd_conv w1(2,3)]
  have shr: "shrunk (st w) (st w2)" and wf2: "wf_store base (st w2)"
    using shrunk_find_entry [OF w1(1), of k] wf_find_entry [OF w1(1), of k] f w1(2) by simp_all
  note keep = shrunk_settings [OF shr] shrunk_within_budget [OF shr]
  have run: "kv_get (Some k) w =
     (case q of None \<Rightarrow> (None, kv_release_bucket_lock k w2)
      | Some ptr \<Rightarrow> (case e_value (deref (st w2) ptr) of
                       VString v \<Rightarrow> (Some v, kv_release_bucket_lock k (upd_st (touch ptr) w2))
                     | _ \<Rightarrow> (None, kv_release_bucket_lock k w2)))"
    using assms(2) f by (simp add: kv_get_def Let_def w1_def)
  show ?thesis
  proof (cases q)
    case None
    then show ?thesis using assms(3) run view wf2 keep by (auto simp: frame)
  next
    case (Some ptr)
    note p = find_entry_Some [OF w1(1) f [unfolded Some]]
    have live: "live_entry (st w) (now_of w) k = Some (deref (st w2) ptr)"
      using p w1 by (simp add: live_entry_def)
    have t: "wf_store base (touch ptr (st w2))" "kv_view (touch ptr (st w2)) = kv_view (st w2)"
      "same_settings (st w2) (touch ptr (st w2))"
      using wf_touch [OF wf2 p(1)] kv_view_touch [OF wf2 p(1)] by (simp_all add: same_settings_def)
    show ?thesis
      using assms(3) run view wf2 keep live t Some same_settings_trans [OF keep(1) t(3)]
      by (auto simp: frame within_budget_def split: kv_value.splits)
  qed
qed

lemma kv_exists_spec:
  assumes "wf_store base (st w)" and "lock_initialized (st w)" and "kv_exists (Some k) w = (r, w')"
  shows "wf_store base (st w') \<and> (r \<longleftrightarrow> live_entry (st w) (now_of w) k \<noteq> None) \<and>
    kv_view (st w') =
      (if live_entry (st w) (now_of w) k = None then (kv_view (st w))(k := None) else kv_view (st w)) \<and>
    same_settings (st w) (st w') \<and> (within_budget (st w) \<longrightarrow> within_budget (st w'))"
proof -
  define w1 where "w1 = kv_acquire_bucket_lock k w"
  have w1: "wf_store base (st w1)" "st w1 = st w" "now_of w1 = now_of w"
    using assms(1) by (simp_all add: w1_def frame)
  note shr = shrunk_find_entry [OF w1(1), of k]
  show ?thesis
    using assms(2,3) shrunk_find_entry_view [OF w1(1), of k] w1 wf_find_entry [OF w1(1), of k]
      shrunk_settings [OF shr] shrunk_within_budget [OF shr]
    by (auto simp: kv_exists_def Let_def split_beta w1_def [symmetric] frame)
qed

lemma kv_delete_internal_spec:
  assumes "wf_store base (st w)" and "cstring k" and "valid_key k"
  shows "wf_store base (st (snd (kv_delete_internal (Some k) w)))"
    "fst (kv_delete_internal (Some k) w) = (if lookup (st w) k = None then KV_ERR_NOT_FOUND else KV_OK)"
    "lookup (st (snd (kv_delete_internal (Some k) w))) = (lookup (st w))(k := None)"
    "shrunk (st w) (st (snd (kv_delete_internal (Some k) w)))"
proof -
  have "wf_store base (st (snd (kv_delete_internal (Some k) w))) \<and>
    fst (kv_delete_internal (Some k) w) = (if lookup (st w) k = None then KV_ERR_NOT_FOUND else KV_OK) \<and>
    lookup (st (snd (kv_delete_internal (Some k) w))) = (lookup (st w))(k := None) \<and>
    shrunk (st w) (st (snd (kv_delete_internal (Some k) w)))"
  proof (cases "locate (st w) k")
    case None
    then show ?thesis
      using assms locate_None [OF assms(1), of k] by (simp add: kv_delete_internal_def fun_upd_idem)
  next
    case (Some ptr)
    note p = locate_Some [OF assms(1) Some]
    show ?thesis
      using assms Some p wf_expire_and_delete [OF assms(1) p(1)] lookup_expire_and_delete [OF assms(1) p(1)]
        shrunk_expire_and_delete [OF assms(1) p(1)]
      by (auto simp: kv_delete_internal_def same_but_logD(1) [OF same_but_log_append_record(1)] fun_eq_iff)
  qed
  then show "wf_store base (st (snd (kv_delete_internal (Some k) w)))"
    "fst (kv_delete_internal (Some k) w) = (if lookup (st w) k = None then KV_ERR_NOT_FOUND else KV_OK)"
    "lookup (st (snd (kv_delete_internal (Some k) w))) = (lookup (st w))(k := None)"
    "shrunk (st w) (st (snd (kv_delete_internal (Some k) w)))"
    by blast+
qed

lemma kv_delete_spec:
  assumes "wf_store base (st w)" and "lock_initialized (st w)" and "cstring k" and "valid_key k"
    and "kv_delete (Some k) w = (r, w')"
  shows "wf_store base (st w') \<and> shrunk (st w) (st w') \<and>
    (lookup (st w') = (lookup (st w))(k := None) \<and>
       r = (if lookup (st w) k = None then KV_ERR_NOT_FOUND else KV_OK) \<or>
     aof_fp (aof w) \<noteq> None \<and> lookup (st w') = lookup (st w) \<and> r \<noteq> KV_OK)"
proof -
  define w1 where "w1 = kv_acquire_bucket_lock k w"
  define q where "q = logged (record1 ''DELETE'' k) (kv_delete_internal (Some k)) w1"
  have res: "r = fst q" "st w' = st (snd q)" and w1: "st w1 = st w" "aof w1 = aof w"
    using assms(2-5) by (auto simp: kv_delete_def q_def w1_def split_beta Let_def frame)
  show ?thesis
  proof (cases rule: logged_cases [where w = w1 and rec = "record1 ''DELETE'' k"
        and update = "kv_delete_internal (Some k)"])
    case io_error
    with w1 res assms(1) show ?thesis by (auto simp: q_def dest: same_but_logD(1))
  next
    case (ran w2)
    have "st w2 = st w1" "st w' = st (snd (kv_delete_internal (Some k) w2))"
      "r = fst (kv_delete_internal (Some k) w2)"
      using ran res by (auto simp: q_def dest: same_but_logD(1))
    with w1(1) kv_delete_internal_spec [of base w2 k] assms(1,3,4) show ?thesis by simp
  qed
qed

section \<open>When storing must succeed\<close>

lemma insert_string_total:
  assumes "no_oom w" and "cstring k" and "valid_key k" and "cstring v" and "valid_value v"
    and "max_memory_budget (st w) = 0" and "max_capacity (st w) = 0 \<or> kv_size (st w) < max_capacity (st w)"
  shows "fst (insert_string k v w) = KV_OK"
  using assms alloc_string_entry_no_oom [OF assms(1-5)]
  by (auto simp: insert_string_def make_room_def Let_def split_beta)

lemma replace_string_total:
  assumes "no_oom w" and "cstring v" and "valid_value v"
    and "max_memory_budget (st w) = 0" and "locate (st w) k \<noteq> None"
  shows "fst (replace_string k v old w) = KV_OK"
proof -
  have "fst (copy_string_bounded v KV_MAX_VALUE_LEN w) = Some v"
    using assms(1-3) by (simp add: copy_string_bounded_no_oom valid_value_def)
  with assms(4,5) show ?thesis
    by (auto simp: replace_string_run make_room_def overwrite_string_def Let_def split_beta)
qed

lemma kv_set_internal_total:
  assumes "wf_store base (st w)" and "no_oom w" and "cstring k" and "valid_key k" and "cstring v" and "valid_value v"
    and "max_memory_budget (st w) = 0"
    and "lookup (st w) k = None \<longrightarrow> max_capacity (st w) = 0 \<or> kv_size (st w) < max_capacity (st w)"
    and "\<And>e. lookup (st w) k = Some e \<Longrightarrow> e_type e = KV_TYPE_STRING"
  shows "fst (kv_set_internal (Some k) (Some v) w) = KV_OK"
proof (cases "locate (st w) k")
  case None
  with assms locate_None [OF assms(1), of k] show ?thesis
    by (simp add: kv_set_internal_def insert_string_total)
next
  case (Some ptr)
  with assms(3-6,9) locate_Some [OF assms(1) Some] replace_string_total [OF assms(2,5,6,7)] show ?thesis
    by (cases "e_value (deref (st w) ptr)") (fastforce simp: kv_set_internal_def)+
qed

lemma now_of_make_room [frame]: "now_of (snd (make_room need w)) = now_of w"
  by (simp add: make_room_def Let_def lru.loop_others)

lemma now_of_append_record [frame]:
  "now_of (append_record1 cmd k w) = now_of w" "now_of (append_record2 cmd k v w) = now_of w"
  using same_but_logD(4) same_but_log_append_record by metis+

lemma now_of_insert_string [frame]: "now_of (snd (insert_string k v w)) = now_of w"
  by (simp add: insert_string_def Let_def split_beta frame split: option.split)

lemma now_of_kv_set_internal [frame]: "now_of (snd (kv_set_internal key value w)) = now_of w"
  by (simp add: kv_set_internal_def replace_string_def overwrite_string_def Let_def split_beta frame
      split: sum.split option.split kv_value.split)

lemma now_of_logged:
  "(\<And>w. now_of (snd (update w)) = now_of w) \<Longrightarrow> now_of (snd (logged rec update w)) = now_of w"
  by (rule logged_cases [where w = w and rec = rec and update = update]) (auto dest!: same_but_logD(4))

lemma now_of_set_acquire [frame]: "now_of (snd (set_acquire bytes k w)) = now_of w"
  by (simp add: set_acquire_def acquire_global_def Let_def)

lemma now_of_set_release [frame]: "now_of (set_release g k w) = now_of w"
  by (simp add: set_release_def)

lemma now_of_kv_set: "now_of (snd (kv_set key value w)) = now_of w"
  by (simp add: kv_set_def Let_def split_beta frame now_of_logged split: sum.split)

lemma kv_set_total:
  assumes "wf_store base (st w)" and "lock_initialized (st w)" and "no_oom w" and "aof_fp (aof w) = None"
    and "cstring k" and "valid_key k" and "cstring v" and "valid_value v"
    and "max_memory_budget (st w) = 0"
    and "lookup (st w) k = None \<longrightarrow> max_capacity (st w) = 0 \<or> kv_size (st w) < max_capacity (st w)"
    and "\<And>e. lookup (st w) k = Some e \<Longrightarrow> e_type e = KV_TYPE_STRING"
  shows "fst (kv_set (Some k) (Some v) w) = KV_OK"
proof -
  define bytes where "bytes = sizeof_kv_entry + length k + 1 + length v + 1"
  obtain g w1 where acq: "set_acquire bytes k w = (g, w1)" by fastforce
  note w1 = set_acquire_spec [OF assms(1) acq]
  have "fst (kv_set_internal (Some k) (Some v) w1) = KV_OK"
    using assms w1 by (intro kv_set_internal_total [OF w1(1)]) (auto simp: same_settings_def)
  moreover have "aof_fp (aof w1) = None" using w1(6) assms(4) by simp
  ultimately show ?thesis
    using assms acq by (simp add: kv_set_def bytes_def logged_def Let_def split_beta)
qed

lemma example_set:
  "fst (kv_set (Some ''a'') (Some ''2'') (quiet_world 7 (singleton_store 0 (string_entry ''a'' ''1'' t)))) = KV_OK"
  by (rule kv_set_total [of 0]) auto

section \<open>Properties\<close>

text \<open>C8. Without a memory budget, \<^verbatim>\<open>kv_set\<close> is exactly a map update when it reports success
  (the expiry time of the key is kept), and changes no key when it reports any error.\<close>

theorem kv_set_refines_map_update:
  assumes "wf_store base (st w)" and "cstring k" and "cstring v" and "max_memory_budget (st w) = 0"
  shows "kv_view (st (snd (kv_set (Some k) (Some v) w))) =
    (if fst (kv_set (Some k) (Some v) w) = KV_OK
     then (kv_view (st w))(k \<mapsto> (VString v, expiry_of (st w) k)) else kv_view (st w))"
  using kv_set_spec [OF assms(1-3) prod.collapse [symmetric]] assms(4)
  by (auto simp: string_stored_def stored_def kv_view_def fun_eq_iff)

theorem kv_set_refines_map_update_witness:
  "kv_view (st (snd (kv_set (Some ''a'') (Some ''1'') (quiet_world 7 (fresh_store 8 0 0))))) =
     [''a'' \<mapsto> (VString ''1'', 0)]"
proof -
  have "fst (kv_set (Some ''a'') (Some ''1'') (quiet_world 7 (fresh_store 8 0 0))) = KV_OK"
    by (rule kv_set_total [of 0]) simp_all
  with kv_set_refines_map_update [of 0 "quiet_world 7 (fresh_store 8 0 0)" "''a''" "''1''"] show ?thesis
    by (simp add: kv_view_def expiry_of_def fun_eq_iff)
qed

text \<open>C23. Under a memory budget, \<^verbatim>\<open>kv_set\<close> keeps the store well formed with exact accounting and
  within the budget; other keys keep their entries or are evicted; a reported success means
  that the key holds the new value.\<close>

theorem kv_set_respects_budget:
  assumes "wf_store base (st w)" and "cstring k" and "cstring v" and "within_budget (st w)"
    and "kv_set (Some k) (Some v) w = (r, w')"
  shows "wf_store base (st w') \<and> within_budget (st w') \<and>
    (\<forall>k'. k' \<noteq> k \<longrightarrow> lookup (st w') k' \<in> {None, lookup (st w) k'}) \<and>
    (r = KV_OK \<longrightarrow> (\<exists>e. lookup (st w') k = Some e \<and> e_value e = VString v))"
proof -
  have sub: "lookup (st w') k' \<in> {None, lookup (st w) k'}"
    if "(lookup (st w'))(k := None) \<subseteq>\<^sub>m lookup (st w)" and "k' \<noteq> k" for k'
    using that by (cases "lookup (st w') k'") (auto simp: map_le_def dom_def)
  have "(lookup (st w'))(k := None) \<subseteq>\<^sub>m lookup (st w)" if "lookup (st w') \<subseteq>\<^sub>m lookup (st w)"
    using that by (auto simp: map_le_def dom_def)
  with sub kv_set_spec [OF assms(1-3,5)] assms(4) show ?thesis
    by (auto simp: string_stored_def stored_def split: if_splits)
qed

theorem kv_set_respects_budget_witness:
  "within_budget (st (snd (kv_set (Some ''a'') (Some ''2'') (quiet_world 7 (singleton_store 200 (string_entry ''a'' ''1'' 0))))))"
  using kv_set_respects_budget [of 0 "quiet_world 7 (singleton_store 200 (string_entry ''a'' ''1'' 0))" "''a''" "''2''",
      OF _ _ _ _ prod.collapse [symmetric]]
  by (simp add: within_budget_def)

text \<open>What was stored is read back: after a successful \<^verbatim>\<open>kv_set\<close>, \<^verbatim>\<open>kv_get\<close> returns the
  value, provided that the expiry time the key had before has not passed.\<close>

lemma kv_set_then_get:
  assumes "wf_store base (st w)" and "cstring k" and "cstring v"
    and "kv_set (Some k) (Some v) w = (KV_OK, w')" and "lock_initialized (st w)"
    and "expiry_of (st w) k \<le> 0 \<or> now_of w < expiry_of (st w) k"
  shows "fst (kv_get (Some k) w') = Some v"
proof -
  have now: "now_of w' = now_of w" using now_of_kv_set [of "Some k" "Some v" w] assms(4) by simp
  note spec = kv_set_spec [OF assms(1-4)]
  then obtain e where "lookup (st w') k = Some e" and "e_value e = VString v"
    and "expire_at_ms e = expiry_of (st w) k \<or> expire_at_ms e = 0"
    by (auto simp: string_stored_def stored_def)
  moreover from this assms(6) have "\<not> entry_is_expired e (now_of w')"
    by (auto simp: entry_is_expired_def now)
  moreover have "lock_initialized (st w')" using spec assms(5) by (simp add: same_settings_def)
  ultimately show ?thesis
    using kv_get_spec [of base w' k, OF _ _ prod.collapse [symmetric]] spec by (simp add: live_entry_def)
qed

text \<open>Storing over a key that has expired but was not yet collected keeps the old expiry
  time: the command reports success and the value cannot be read back.\<close>

lemma kv_set_on_expired_key_is_lost:
  assumes "wf_store base (st w)" and "cstring k" and "cstring v"
    and "kv_set (Some k) (Some v) w = (KV_OK, w')" and "lock_initialized (st w)" and "max_memory_budget (st w) = 0"
    and "0 < expiry_of (st w) k" and "expiry_of (st w) k \<le> now_of w"
  shows "fst (kv_get (Some k) w') = None"
proof -
  have now: "now_of w' = now_of w" using now_of_kv_set [of "Some k" "Some v" w] assms(4) by simp
  note spec = kv_set_spec [OF assms(1-4)]
  then obtain e where "lookup (st w') k = Some e" and "expire_at_ms e = expiry_of (st w) k"
    using assms(6) by (auto simp: string_stored_def stored_def)
  moreover from this assms(7,8) have "entry_is_expired e (now_of w')"
    by (auto simp: entry_is_expired_def now)
  moreover have "lock_initialized (st w')" using spec assms(5) by (simp add: same_settings_def)
  ultimately show ?thesis
    using kv_get_spec [of base w' k, OF _ _ prod.collapse [symmetric]] spec by (simp add: live_entry_def)
qed

lemma kv_set_on_expired_key_is_lost_witness:
  "fst (kv_get (Some ''a'')
     (snd (kv_set (Some ''a'') (Some ''2'') (quiet_world 7 (singleton_store 0 (string_entry ''a'' ''1'' 5)))))) = None"
  by (rule kv_set_on_expired_key_is_lost [of 0 "quiet_world 7 (singleton_store 0 (string_entry ''a'' ''1'' 5))" _ "''2''"])
    (simp_all add: expiry_of_def prod_eq_iff example_set)

text \<open>Storing cannot fail without a cause: with no log, no budget, memory available, a free
  slot and no value of another type in the way, \<^verbatim>\<open>kv_set\<close> succeeds on every valid key and
  value.\<close>

lemma kv_set_succeeds:
  assumes "wf_store base (st w)" and "lock_initialized (st w)" and "no_oom w" and "aof_fp (aof w) = None"
    and "cstring k" and "valid_key k" and "cstring v" and "valid_value v"
    and "max_memory_budget (st w) = 0" and "max_capacity (st w) = 0 \<or> kv_size (st w) < max_capacity (st w)"
    and "lookup (st w) k = None \<or> (\<exists>u t. kv_view (st w) k = Some (VString u, t))"
  shows "fst (kv_set (Some k) (Some v) w) = KV_OK"
  using assms(11) by (intro kv_set_total [OF assms(1-9)]) (use assms(10) in \<open>auto simp: kv_view_def\<close>)

lemma kv_set_succeeds_witness:
  "fst (kv_set (Some ''a'') (Some ''2'') (quiet_world 7 (singleton_store 0 (string_entry ''a'' ''1'' 5)))) = KV_OK"
  by (rule kv_set_succeeds [of 0]) (simp_all add: kv_view_def)

text \<open>\<^verbatim>\<open>kv_get\<close> returns the string of a live entry and nothing for an absent, expired or
  non-string one; it collects an expired entry and changes nothing else a client can see.\<close>

lemma kv_get_correct:
  assumes "wf_store base (st w)" and "lock_initialized (st w)" and "kv_get (Some k) w = (r, w')"
  shows "r = (case live_entry (st w) (now_of w) k of
           Some e \<Rightarrow> (case e_value e of VString v \<Rightarrow> Some v | _ \<Rightarrow> None) | None \<Rightarrow> None) \<and>
    kv_view (st w') =
      (if live_entry (st w) (now_of w) k = None then (kv_view (st w))(k := None) else kv_view (st w)) \<and>
    wf_store base (st w')"
  using kv_get_spec [OF assms] by simp

lemma kv_get_correct_witness:
  "fst (kv_get (Some ''a'') (quiet_world 7 (singleton_store 0 (string_entry ''a'' ''1'' 8)))) = Some ''1'' \<and>
   fst (kv_get (Some ''a'') (quiet_world 8 (singleton_store 0 (string_entry ''a'' ''1'' 8)))) = None"
  using kv_get_correct [of 0 "quiet_world 7 (singleton_store 0 (string_entry ''a'' ''1'' 8))" "''a''",
      OF _ _ prod.collapse [symmetric]]
    kv_get_correct [of 0 "quiet_world 8 (singleton_store 0 (string_entry ''a'' ''1'' 8))" "''a''",
      OF _ _ prod.collapse [symmetric]]
  by (simp add: live_entry_def entry_is_expired_def)



end
