(* ===== verification/KV_Coll.thy ===== *)
theory KV_Coll
  imports KV_Store
begin

text \<open>
  What the list and set commands share. \<^verbatim>\<open>kv_lpush\<close> (\<^verbatim>\<open>src/list.c\<close>) and \<^verbatim>\<open>kv_sadd\<close>
  (\<^verbatim>\<open>src/set.c\<close>) choose their locks, find or create the entry and make room for a node in the
  same way; the removing commands log after the change and drop an emptied entry.
\<close>

section \<open>Stages\<close>

text \<open>Like \<open>set_acquire\<close>, but these commands never resize the table.\<close>

definition coll_acquire :: "nat \<Rightarrow> string \<Rightarrow> world \<Rightarrow> bool \<times> world" where
  "coll_acquire bytes k w =
     (if budget_exceeded bytes (st w) \<or> load_exceeded (st w) then (True, kv_acquire_all_locks w)
      else
        (let w1 = kv_acquire_bucket_lock k w
         in if budget_exceeded bytes (st w1) \<or> load_exceeded (st w1)
            then (True, kv_acquire_all_locks (kv_release_bucket_lock k w1))
            else (False, w1)))"

text \<open>Creating the entry: the entry itself, the copy of the key, then the container, whose own
  allocations are the argument \<open>alloc\<close>.\<close>

definition alloc_coll_entry :: "(world \<Rightarrow> bool \<times> world) \<Rightarrow> string \<Rightarrow> world \<Rightarrow> string option \<times> world" where
  "alloc_coll_entry alloc k w =
     (let (ok, w1) = tracked_malloc sizeof_kv_entry w
      in if \<not> ok then (None, w1)
         else
           (let (key', w2) = copy_string_bounded k KV_MAX_KEY_LEN w1
            in case key' of
                 None \<Rightarrow> (None, w2)
               | Some k' \<Rightarrow> (let (ok2, w3) = alloc w2 in (if ok2 then Some k' else None, w3))))"

definition create_entry :: "kv_value \<Rightarrow> (world \<Rightarrow> bool \<times> world) \<Rightarrow> string \<Rightarrow> world \<Rightarrow> int \<times> world" where
  "create_entry fresh alloc k w =
     (if max_capacity (st w) > 0 \<and> kv_size (st w) \<ge> max_capacity (st w) then (KV_ERR_CAPACITY_FULL, w)
      else
        (let overhead = sizeof_kv_entry + length k + 1 + value_bytes fresh;
             (fits, w1) = make_room overhead w
         in if \<not> fits then (KV_ERR_BUDGET_EXCEEDED, w1)
            else
              (let (copy, w2) = alloc_coll_entry alloc k w1
               in case copy of
                    None \<Rightarrow> (KV_ERR_INTERNAL, w2)
                  | Some k' \<Rightarrow>
                      (let c = lru_clock (st w2) + 1;
                           e = \<lparr>e_key = k', e_value = fresh, expire_at_ms = 0, last_accessed_time = c\<rparr>
                       in (KV_OK, w2\<lparr>st := add_bytes overhead (insert_entry e ((st w2)\<lparr>lru_clock := c\<rparr>))\<rparr>)))))"

definition obtain_entry ::
  "kv_type \<Rightarrow> kv_value \<Rightarrow> (world \<Rightarrow> bool \<times> world) \<Rightarrow> string \<Rightarrow> world \<Rightarrow> int \<times> world" where
  "obtain_entry kind fresh alloc k w =
     (let (entry, w1) = find_entry_unlocked k w
      in case entry of
           Some ptr \<Rightarrow>
             if e_type (deref (st w1) ptr) \<noteq> kind then (KV_ERR_WRONG_TYPE, w1)
             else (KV_OK, upd_st (touch ptr) w1)
         | None \<Rightarrow> create_entry fresh alloc k w1)"

text \<open>Room and memory for one node holding \<open>v\<close>.\<close>

definition alloc_node :: "nat \<Rightarrow> string \<Rightarrow> world \<Rightarrow> string option \<times> world" where
  "alloc_node node_size v w =
     (let (ok, w1) = tracked_malloc node_size w
      in if \<not> ok then (None, w1) else copy_string_bounded v KV_MAX_VALUE_LEN w1)"

definition room_for_node :: "nat \<Rightarrow> string \<Rightarrow> world \<Rightarrow> (int + string) \<times> world" where
  "room_for_node node_size v w =
     (let (fits, w1) = make_room (node_size + length v + 1) w
      in if \<not> fits then (Inl KV_ERR_BUDGET_EXCEEDED, w1)
         else
           (let (copy, w2) = alloc_node node_size v w1
            in case copy of None \<Rightarrow> (Inl KV_ERR_INTERNAL, w2) | Some v' \<Rightarrow> (Inr v', w2)))"

text \<open>Logging after the change, ignoring the outcome.\<close>

definition log_quietly :: "string \<Rightarrow> world \<Rightarrow> world" where
  "log_quietly rec w = (if aof_fp (aof w) \<noteq> None then snd (snd (write_aof_record rec w)) else w)"

definition sub_bytes :: "nat \<Rightarrow> kv_store \<Rightarrow> kv_store" where
  "sub_bytes n s =
     (if allocated_bytes s \<ge> n then s\<lparr>allocated_bytes := allocated_bytes s - n\<rparr> else s\<lparr>allocated_bytes := 0\<rparr>)"

section \<open>Lemmas\<close>

lemma coll_acquire_frame [frame]:
  "st (snd (coll_acquire bytes k w)) = st w" "aof (snd (coll_acquire bytes k w)) = aof w"
  "repl (snd (coll_acquire bytes k w)) = repl w" "os (snd (coll_acquire bytes k w)) = os w"
  by (simp_all add: coll_acquire_def Let_def frame)

lemma log_quietly_same: "same_but_log w (log_quietly rec w)"
  by (simp add: log_quietly_def same_but_log_write)

lemmas log_quietly_st [simp] = same_but_logD(1) [OF log_quietly_same]

lemmas append_record_st [simp] =
  same_but_logD(1) [OF same_but_log_append_record(1)] same_but_logD(1) [OF same_but_log_append_record(2)]

lemma alloc_coll_entry_st:
  "(\<And>w. st (snd (alloc w)) = st w) \<Longrightarrow> st (snd (alloc_coll_entry alloc k w)) = st w"
  by (simp add: alloc_coll_entry_def split_beta Let_def frame split: option.split)

lemma alloc_coll_entry_Some:
  assumes "cstring k" and "fst (alloc_coll_entry alloc k w) = Some x"
  shows "x = k"
  using assms
  by (auto simp: alloc_coll_entry_def split_beta Let_def dest: copy_string_bounded_fst
      split: if_splits option.splits)

lemma alloc_node_frame [frame]: "st (snd (alloc_node n v w)) = st w"
  by (simp add: alloc_node_def split_beta Let_def frame)

lemma alloc_node_Some: "fst (alloc_node n v w) = Some x \<Longrightarrow> cstring v \<Longrightarrow> x = v"
  by (auto simp: alloc_node_def split_beta Let_def dest: copy_string_bounded_fst split: if_splits)

lemma room_for_node_spec:
  assumes "wf_store base (st w)" and "cstring v" and "room_for_node n v w = (r, w')"
  shows "wf_store base (st w')" "only_evicted (st w) (st w')"
    "r = Inr x \<Longrightarrow> x = v" "r = Inr x \<Longrightarrow> max_memory_budget (st w) = 0 \<or>
       allocated_bytes (st w') + (n + length v + 1) \<le> max_memory_budget (st w)"
proof -
  obtain fits w1 where m: "make_room (n + length v + 1) w = (fits, w1)" by fastforce
  note room = make_room_spec [OF assms(1) m]
  have "st w' = st w1"
    using assms(3) m by (auto simp: room_for_node_def Let_def split_beta frame split: if_splits option.splits)
  with room show "wf_store base (st w')" "only_evicted (st w) (st w')"
    by (auto simp: only_evicted_def)
  assume r: "r = Inr x"
  then show "x = v"
    using assms(2,3) m alloc_node_Some [of n v w1]
    by (auto simp: room_for_node_def Let_def split_beta split: if_splits option.splits)
  from r have fits using assms(3) m by (auto simp: room_for_node_def Let_def split_beta split: if_splits)
  with room \<open>st w' = st w1\<close>
  show "max_memory_budget (st w) = 0 \<or> allocated_bytes (st w') + (n + length v + 1) \<le> max_memory_budget (st w)"
    by simp
qed

lemma stored_from_shrunk:
  assumes "shrunk s t" and "(lookup t)(k := None) = (lookup s)(k := None)" and "stored k e t s'"
  shows "stored k e s s'"
proof -
  have "(lookup t)(k \<mapsto> e) = (lookup s)(k \<mapsto> e)"
    using assms(2) by (metis fun_upd_upd)
  then show ?thesis
    using assms map_le_trans [of "(lookup s')(k := None)" "lookup t" "lookup s"] shrunk_settings [OF assms(1)]
    by (auto simp: stored_def shrunk_def intro: same_settings_trans)
qed

lemma create_entry_cases [consumes 6]:
  assumes "wf_store base (st w)" and "cstring k" and "valid_key k" and "wf_value fresh"
    and "\<And>w. st (snd (alloc w)) = st w" and "lookup (st w) k = None"
  obtains (refused) "fst (create_entry fresh alloc k w) \<noteq> KV_OK"
      "only_evicted (st w) (st (snd (create_entry fresh alloc k w)))"
      "wf_store base (st (snd (create_entry fresh alloc k w)))"
  | (created) c where "fst (create_entry fresh alloc k w) = KV_OK"
      "stored k \<lparr>e_key = k, e_value = fresh, expire_at_ms = 0, last_accessed_time = c\<rparr>
         (st w) (st (snd (create_entry fresh alloc k w)))"
      "wf_store base (st (snd (create_entry fresh alloc k w)))"
      "within_budget (st (snd (create_entry fresh alloc k w)))"
proof -
  define bytes where "bytes = sizeof_kv_entry + length k + 1 + value_bytes fresh"
  obtain fits w1 where m: "make_room bytes w = (fits, w1)" by fastforce
  note room = make_room_spec [OF assms(1) m]
  define a where "a = alloc_coll_entry alloc k w1"
  have st2: "st (snd a) = st w1" using assms(5) by (simp add: a_def alloc_coll_entry_st)
  note run = create_entry_def [of fresh alloc k w, folded bytes_def, unfolded Let_def m split_conv, folded a_def]
  show thesis
  proof (cases "max_capacity (st w) > 0 \<and> kv_size (st w) \<ge> max_capacity (st w) \<or> \<not> fits \<or> fst a = None")
    case True
    then have "fst (create_entry fresh alloc k w) \<noteq> KV_OK"
      "st (snd (create_entry fresh alloc k w)) = st w \<or> st (snd (create_entry fresh alloc k w)) = st w1"
      by (auto simp: run split_beta st2 split: if_splits)
    then show thesis using refused room(1-3) assms(1) by (auto simp: only_evicted_def)
  next
    case False
    define c where "c = lru_clock (st w1) + 1"
    define e where "e = \<lparr>e_key = k, e_value = fresh, expire_at_ms = 0, last_accessed_time = c\<rparr>"
    have "fst a = Some k"
      using False alloc_coll_entry_Some [OF assms(2), of alloc w1] by (auto simp: a_def)
    then have "fst (create_entry fresh alloc k w) = KV_OK"
      "st (snd (create_entry fresh alloc k w)) = add_bytes bytes (insert_entry e ((st w1)\<lparr>lru_clock := c\<rparr>))"
      using False by (auto simp: run split_beta st2 e_def c_def)
    moreover have e: "wf_entry e" "entry_bytes e = bytes" "e_key e = k"
      using assms by (auto simp: e_def wf_entry_def entry_bytes_def bytes_def)
    ultimately show thesis
      using insert_after_shrunk [OF room(2,1) _ e(1), of c] room(3,4) False assms(6)
      by (intro created [of c]) (auto simp: e_def)
  qed
qed

text \<open>\<open>open_value\<close> is the container a pushing command works on: the live entry's, or a fresh one.\<close>

definition open_value :: "kv_value \<Rightarrow> kv_entry option \<Rightarrow> kv_value \<times> int" where
  "open_value fresh live =
     (case live of Some e \<Rightarrow> (e_value e, expire_at_ms e) | None \<Rightarrow> (fresh, 0))"

lemma obtain_entry_cases [consumes 6]:
  assumes "wf_store base (st w)" and "cstring k" and "valid_key k" and "wf_value fresh"
    and "\<And>w. st (snd (alloc w)) = st w" and "type_of fresh = kind"
  obtains (refused) "fst (obtain_entry kind fresh alloc k w) \<noteq> KV_OK"
      "shrunk (st w) (st (snd (obtain_entry kind fresh alloc k w)))"
      "wf_store base (st (snd (obtain_entry kind fresh alloc k w)))"
  | (ready) e where "fst (obtain_entry kind fresh alloc k w) = KV_OK"
      "stored k e (st w) (st (snd (obtain_entry kind fresh alloc k w)))"
      "(e_value e, expire_at_ms e) = open_value fresh (live_entry (st w) (now_of w) k)" "e_type e = kind"
      "wf_store base (st (snd (obtain_entry kind fresh alloc k w)))"
      "within_budget (st w) \<longrightarrow> within_budget (st (snd (obtain_entry kind fresh alloc k w)))"
proof (cases "find_entry_unlocked k w")
  case (Pair q w1)
  have wf1: "wf_store base (st w1)" and shr: "shrunk (st w) (st w1)"
    using wf_find_entry [OF assms(1), of k] shrunk_find_entry [OF assms(1), of k] Pair by simp_all
  show thesis
  proof (cases q)
    case None
    note gone = find_entry_None [OF assms(1) Pair [unfolded None]]
    have live: "live_entry (st w) (now_of w) k = None"
      using shrunk_find_entry_view(2) [OF assms(1), of k] Pair None by simp
    have run: "obtain_entry kind fresh alloc k w = create_entry fresh alloc k w1"
      using Pair None by (simp add: obtain_entry_def)
    have none: "lookup (st w1) k = None" using gone(1) by simp
    from wf1 assms(2-5) none show thesis
    proof (cases rule: create_entry_cases)
      case refused
      then show thesis
        using that(1) run shrunk_trans [OF shr] by (simp add: only_evicted_def)
    next
      case (created c)
      with that(2) run live assms(6) stored_from_shrunk [OF shr _ created(2)] gone(1) show thesis
        by (simp add: open_value_def)
    qed
  next
    case (Some ptr)
    note p = find_entry_Some [OF assms(1) Pair [unfolded Some]]
    have ptr: "valid_ptr (st w) ptr" using p(1,2) by simp
    have live: "live_entry (st w) (now_of w) k = Some (deref (st w) ptr)"
      using p by (simp add: live_entry_def)
    show thesis
    proof (cases "e_type (deref (st w) ptr) = kind")
      case False
      then have "obtain_entry kind fresh alloc k w = (KV_ERR_WRONG_TYPE, w1)"
        using Pair Some p by (simp add: obtain_entry_def)
      with that(1) wf1 shr show thesis by simp
    next
      case True
      then have run: "obtain_entry kind fresh alloc k w = (KV_OK, upd_st (touch ptr) w1)"
        using Pair Some p by (simp add: obtain_entry_def)
      let ?e = "(deref (st w) ptr)\<lparr>last_accessed_time := lru_clock (st w) + 1\<rparr>"
      have "lookup (touch ptr (st w)) = (lookup (st w))(k \<mapsto> ?e)"
        using p(3) by (auto simp: lookup_touch [OF assms(1) ptr] fun_eq_iff)
      then have "stored k ?e (st w) (touch ptr (st w))"
        by (intro stored_after_shrunk [of _ "st w"]) (auto simp: same_settings_def)
      with that(2) [of ?e] run live True wf_touch [OF assms(1) ptr] p(2) show thesis
        by (simp add: open_value_def within_budget_def)
    qed
  qed
qed

text \<open>Rewriting the container of an entry, with its footprint.\<close>

lemma set_value_spec:
  assumes "wf_store base s" and "locate s k = Some ptr" and "wf_value x"
    and "value_bytes x = value_bytes (e_value (deref s ptr)) + n"
  defines "s' \<equiv> add_bytes n (set_entry ptr (\<lambda>e. e\<lparr>e_value := x\<rparr>) s)"
  shows "wf_store base s'" "lookup s' = (lookup s)(k \<mapsto> (deref s ptr)\<lparr>e_value := x\<rparr>)" "same_settings s s'"
    "allocated_bytes s' = allocated_bytes s + n"
proof -
  note ptr = locate_Some [OF assms(1,2)]
  let ?g = "\<lambda>e :: kv_entry. e\<lparr>e_value := x\<rparr>"
  define pk where "pk = peak_allocated_bytes s'"
  have s': "s' = (set_entry ptr ?g s)\<lparr>allocated_bytes := allocated_bytes s + n, peak_allocated_bytes := pk\<rparr>"
    by (simp add: s'_def pk_def add_bytes_def set_entry_def Let_def)
  have pk: "allocated_bytes s + n \<le> pk"
    by (simp add: pk_def s'_def add_bytes_def set_entry_def Let_def)
  have wfe: "wf_entry (?g (deref s ptr))"
    using wf_store_entry [OF assms(1) ptr(1)] assms(3) by (simp add: wf_entry_def)
  show "wf_store base s'"
    unfolding s'
    by (rule wf_rewrite_entry [OF assms(1) ptr(1)]) (use wfe pk assms(4) in \<open>simp_all add: entry_bytes_def\<close>)
  show "lookup s' = (lookup s)(k \<mapsto> (deref s ptr)\<lparr>e_value := x\<rparr>)"
    using lookup_set_entry [OF assms(1) ptr(1), of ?g] ptr(2) by (auto simp: s'_def fun_eq_iff)
  show "same_settings s s'" "allocated_bytes s' = allocated_bytes s + n"
    by (simp_all add: s'_def same_settings_def set_entry_def)
qed

lemma room_then_update:
  assumes "wf_store base (st w)" and "cstring v" and "room_for_node n v w = (Inr v', w1)"
    and "lookup (st w) k = Some e" and "locate (st w1) k = Some ptr" and "wf_value x"
    and "value_bytes x = value_bytes (e_value e) + (n + length v + 1)"
  defines "s' \<equiv> add_bytes (n + length v + 1) (set_entry ptr (\<lambda>e. e\<lparr>e_value := x\<rparr>) (st w1))"
  shows "deref (st w1) ptr = e" "wf_store base s'" "lookup s' = (lookup (st w1))(k \<mapsto> e\<lparr>e_value := x\<rparr>)"
    "same_settings (st w1) s'" "within_budget s'"
proof -
  note room = room_for_node_spec [OF assms(1-3)]
  show e: "deref (st w1) ptr = e"
    using shrunk_lookup [of "st w" "st w1" k] locate_Some(3) [OF room(1) assms(5)] assms(4) room(2)
    by (simp add: only_evicted_def)
  note upd = set_value_spec [OF room(1) assms(5,6), of "n + length v + 1", unfolded e, OF assms(7), folded s'_def]
  show "wf_store base s'" "lookup s' = (lookup (st w1))(k \<mapsto> e\<lparr>e_value := x\<rparr>)" "same_settings (st w1) s'"
    by (fact upd)+
  show "within_budget s'"
    using room(4) upd(3,4) only_evictedD(3) [OF room(2)] by (auto simp: within_budget_def same_settings_def)
qed

lemma room_for_node_error:
  "room_for_node n v w = (Inl err, w') \<Longrightarrow> err \<in> {KV_ERR_BUDGET_EXCEEDED, KV_ERR_INTERNAL}"
  by (auto simp: room_for_node_def Let_def split_beta split: if_splits option.splits)

lemma evicted_only_with_budget:
  assumes "wf_store base (st w')" and "only_evicted (st w) (st w')" and "lookup (st w) k = Some e"
    and "locate (st w') k = None"
  shows "max_memory_budget (st w) > 0"
  using locate_None [OF assms(1), of k] assms(3,4) only_evictedD(2) [OF assms(2)] by fastforce

lemma stored_then_update:
  assumes "stored k e s t" and "only_evicted t u" and "lookup u' = (lookup u)(k \<mapsto> e')" and "same_settings u u'"
  shows "stored k e' s u'"
proof -
  have "(lookup u)(k := None) \<subseteq>\<^sub>m (lookup t)(k := None)"
    using only_evictedD(1) [OF assms(2)] by (auto simp: map_le_def dom_def)
  then have "(lookup u')(k := None) \<subseteq>\<^sub>m lookup s"
    using assms(1,3) by (auto simp: stored_def intro: map_le_trans)
  moreover have "same_settings s u'"
    using assms(1,4) only_evictedD(3) [OF assms(2)] by (auto simp: stored_def intro: same_settings_trans)
  moreover have "max_memory_budget s = 0 \<longrightarrow> lookup u' = (lookup s)(k \<mapsto> e')"
    using assms(1,3) only_evictedD(2) [OF assms(2)] by (auto simp: stored_def same_settings_def)
  ultimately show ?thesis using assms(3) by (simp add: stored_def)
qed

lemma shrink_value_spec:
  assumes "wf_store base s" and "valid_ptr s ptr" and "wf_value x"
    and "value_bytes (e_value (deref s ptr)) = value_bytes x + n"
  defines "s' \<equiv> sub_bytes n (set_entry ptr (\<lambda>e. e\<lparr>e_value := x\<rparr>) s)"
  shows "wf_store base s'" "lookup s' = (lookup s)(e_key (deref s ptr) \<mapsto> (deref s ptr)\<lparr>e_value := x\<rparr>)"
    "same_settings s s'" "allocated_bytes s' \<le> allocated_bytes s" "valid_ptr s' ptr"
    "deref s' ptr = (deref s ptr)\<lparr>e_value := x\<rparr>"
proof -
  let ?g = "\<lambda>e :: kv_entry. e\<lparr>e_value := x\<rparr>"
  have "n \<le> allocated_bytes s"
    using wf_storeD(7) [OF assms(1)] table_sum_member_le [of "fst ptr" "buckets s" "deref s ptr" entry_bytes]
      assms(2,4) by (simp add: valid_ptr_def entry_bytes_def)
  then have s': "s' = (set_entry ptr ?g s)\<lparr>allocated_bytes := allocated_bytes s - n,
      peak_allocated_bytes := peak_allocated_bytes s\<rparr>"
    by (simp add: s'_def sub_bytes_def set_entry_def)
  have wfe: "wf_entry (?g (deref s ptr))"
    using wf_store_entry [OF assms(1,2)] assms(3) by (simp add: wf_entry_def)
  show "wf_store base s'"
    unfolding s'
    by (rule wf_rewrite_entry [OF assms(1,2)])
      (use wfe assms(4) \<open>n \<le> allocated_bytes s\<close> wf_storeD(8) [OF assms(1)] in \<open>simp_all add: entry_bytes_def\<close>)
  have b: "buckets s' = buckets (set_entry ptr ?g s)" by (simp add: s')
  then show "lookup s' = (lookup s)(e_key (deref s ptr) \<mapsto> ?g (deref s ptr))"
    using lookup_set_entry [OF assms(1,2), of ?g] by (auto simp: lookup_def fun_eq_iff)
  show "same_settings s s'" "allocated_bytes s' \<le> allocated_bytes s"
    by (simp_all add: s' same_settings_def set_entry_def)
  show "valid_ptr s' ptr" using assms(2) valid_ptr_set_entry [of ptr ?g s ptr] b by (simp add: valid_ptr_def)
  show "deref s' ptr = ?g (deref s ptr)" using deref_set_entry [OF assms(2), of ?g] b by simp
qed

text \<open>After a removal the entry is dropped when nothing is left in it, and touched otherwise.\<close>

definition settle :: "bool \<Rightarrow> string \<Rightarrow> entry_ptr \<Rightarrow> world \<Rightarrow> world" where
  "settle emptied k ptr w =
     (if emptied then snd (kv_delete_internal (Some k) w) else upd_st (touch ptr) w)"

lemma settle_spec:
  assumes "wf_store base (st w)" and "valid_ptr (st w) ptr" and "e_key (deref (st w) ptr) = k"
  shows "wf_store base (st (settle emptied k ptr w))" "same_settings (st w) (st (settle emptied k ptr w))"
    "allocated_bytes (st (settle emptied k ptr w)) \<le> allocated_bytes (st w)"
    "kv_view (st (settle emptied k ptr w)) = (if emptied then (kv_view (st w))(k := None) else kv_view (st w))"
proof -
  have "cstring k" "valid_key k"
    using wf_store_entry [OF assms(1,2)] assms(3) by (auto simp: wf_entry_def)
  note del = kv_delete_internal_spec [OF assms(1) this]
  show "wf_store base (st (settle emptied k ptr w))" "same_settings (st w) (st (settle emptied k ptr w))"
    "allocated_bytes (st (settle emptied k ptr w)) \<le> allocated_bytes (st w)"
    using del(1,4) shrunk_settings [OF del(4)] wf_touch [OF assms(1,2)]
    by (auto simp: settle_def shrunk_def same_settings_def)
  show "kv_view (st (settle emptied k ptr w)) = (if emptied then (kv_view (st w))(k := None) else kv_view (st w))"
    using kv_view_touch [OF assms(1,2)] by (auto simp: settle_def kv_view_def del(3) fun_eq_iff)
qed

text \<open>The lookup under the key's lock with which every reading or removing command starts.\<close>

lemma locked_find_cases [consumes 1]:
  assumes "wf_store base (st w)"
  obtains (absent) w2 where "find_entry_unlocked k (kv_acquire_bucket_lock k w) = (None, w2)"
      "live_entry (st w) (now_of w) k = None" "wf_store base (st w2)"
      "kv_view (st w2) = (kv_view (st w))(k := None)" "same_settings (st w) (st w2)"
      "allocated_bytes (st w2) \<le> allocated_bytes (st w)"
  | (found) ptr w2 where "find_entry_unlocked k (kv_acquire_bucket_lock k w) = (Some ptr, w2)"
      "live_entry (st w) (now_of w) k = Some (deref (st w) ptr)" "st w2 = st w" "valid_ptr (st w) ptr"
      "e_key (deref (st w) ptr) = k"
proof -
  define w1 where "w1 = kv_acquire_bucket_lock k w"
  have w1: "wf_store base (st w1)" "st w1 = st w" "now_of w1 = now_of w"
    using assms by (simp_all add: w1_def frame)
  obtain q w2 where f: "find_entry_unlocked k w1 = (q, w2)" by fastforce
  note view = shrunk_find_entry_view [OF w1(1), of k, unfolded f fst_conv snd_conv w1(2,3)]
  have shr: "shrunk (st w) (st w2)" and wf2: "wf_store base (st w2)"
    using shrunk_find_entry [OF w1(1), of k] wf_find_entry [OF w1(1), of k] f w1(2) by simp_all
  show thesis
  proof (cases q)
    case None
    then show thesis
      using absent [of w2] f view wf2 shrunk_settings [OF shr] shr by (simp add: w1_def shrunk_def)
  next
    case (Some ptr)
    note p = find_entry_Some [OF w1(1) f [unfolded Some]]
    then show thesis
      using found [of ptr w2] f Some w1 by (simp add: w1_def [symmetric] live_entry_def)
  qed
qed

text \<open>The same, for the whole command: \<open>lookup_outcome\<close> is what a command that found nothing to
  change leaves behind.\<close>

definition lookup_outcome :: "string \<Rightarrow> world \<Rightarrow> world \<Rightarrow> bool" where
  "lookup_outcome k w w' \<longleftrightarrow>
     kv_view (st w') =
       (if live_entry (st w) (now_of w) k = None then (kv_view (st w))(k := None) else kv_view (st w)) \<and>
     same_settings (st w) (st w') \<and> allocated_bytes (st w') \<le> allocated_bytes (st w)"

lemma lookup_outcome_release [simp]:
  "lookup_outcome k w (kv_release_bucket_lock k' w') = lookup_outcome k w w'"
  by (simp add: lookup_outcome_def frame)

end
