(* ===== verification/KV_List.thy ===== *)
theory KV_List
  imports KV_Coll
begin

text \<open>
  List commands of \<^verbatim>\<open>src/list.c\<close>: pushing at the head, popping at the tail, and the length.
  \<^verbatim>\<open>kv_lpush\<close> keeps a pointer to the list across the eviction loop; when that loop removes the
  list's own entry, the model stops with \<open>Use_After_Free\<close>.
\<close>

section \<open>The linked list\<close>

definition empty_list :: kv_list_t where
  "empty_list = \<lparr>l_nodes = [], l_count = 0\<rparr>"

definition list_push :: "string \<Rightarrow> kv_list_t \<Rightarrow> kv_list_t" where
  "list_push v l = \<lparr>l_nodes = v # l_nodes l, l_count = l_count l + 1\<rparr>"

text \<open>Unlinking the tail; nothing when the tail pointer is null or the count is zero.\<close>

definition list_pop :: "kv_list_t \<Rightarrow> (string \<times> kv_list_t) option" where
  "list_pop l =
     (if l_nodes l = [] \<or> l_count l = 0 then None
      else Some (last (l_nodes l), \<lparr>l_nodes = butlast (l_nodes l), l_count = l_count l - 1\<rparr>))"

section \<open>Commands\<close>

definition alloc_list :: "world \<Rightarrow> bool \<times> world" where
  "alloc_list w = tracked_calloc 1 sizeof_kv_list w"

definition lpush_node :: "string \<Rightarrow> string \<Rightarrow> world \<Rightarrow> int result" where
  "lpush_node k v w =
     (let (node, w1) = room_for_node sizeof_kv_list_node v w
      in case node of
           Inl err \<Rightarrow> Inr (err, w1)
         | Inr v' \<Rightarrow>
             (case locate (st w1) k of
                None \<Rightarrow> Inl Use_After_Free
              | Some ptr \<Rightarrow>
                  (case e_value (deref (st w1) ptr) of
                     VList l \<Rightarrow>
                       (let l' = list_push v' l;
                            w2 = upd_st (\<lambda>s. add_bytes (sizeof_kv_list_node + length v + 1)
                                   (set_entry ptr (\<lambda>e. e\<lparr>e_value := VList l'\<rparr>) s)) w1;
                            w3 = append_record2 ''LPUSH'' k v (log_quietly (record2 ''LPUSH'' k v) w2)
                        in Inr (c_int (l_count l'), w3))
                   | _ \<Rightarrow> Inl Use_After_Free)))"

definition kv_lpush :: "cstr \<Rightarrow> cstr \<Rightarrow> world \<Rightarrow> int result" where
  "kv_lpush key value w =
     (if key = None \<or> value = None \<or> \<not> lock_initialized (st w) then Inr (KV_ERR_INVALID_PARAM, w)
      else
        case validate_key key of
          Inl err \<Rightarrow> Inr (err, w)
        | Inr key_len \<Rightarrow>
            (case validate_value value of
               Inl err \<Rightarrow> Inr (err, w)
             | Inr val_len \<Rightarrow>
                 (let k = the key; v = the value;
                      entry_overhead = sizeof_kv_entry + key_len + 1 + sizeof_kv_list;
                      node_overhead = sizeof_kv_list_node + val_len + 1;
                      (needs_global, w1) = coll_acquire (entry_overhead + node_overhead) k w;
                      (err, w2) = obtain_entry KV_TYPE_LIST (VList empty_list) alloc_list k w1
                  in if err \<noteq> KV_OK then Inr (err, set_release needs_global k w2)
                     else case lpush_node k v w2 of
                            Inl ub \<Rightarrow> Inl ub
                          | Inr (res, w3) \<Rightarrow> Inr (res, set_release needs_global k w3))))"

text \<open>The result is the status and what \<^verbatim>\<open>*out_value\<close> receives, if anything.\<close>

definition rpop_entry :: "string \<Rightarrow> entry_ptr \<Rightarrow> kv_list_t \<Rightarrow> world \<Rightarrow> int \<times> cstr \<times> world" where
  "rpop_entry k ptr l w =
     (case list_pop l of
        None \<Rightarrow> (KV_ERR_NOT_FOUND, None, w)
      | Some (v, l') \<Rightarrow>
          (let (ok, w1) = libc_malloc w
           in if \<not> ok then (KV_ERR_INTERNAL, None, w1)
              else
                (let w2 = upd_st (\<lambda>s. sub_bytes (sizeof_kv_list_node + length v + 1)
                            (set_entry ptr (\<lambda>e. e\<lparr>e_value := VList l'\<rparr>) s)) w1;
                     w3 = append_record1 ''RPOP'' k (log_quietly (record1 ''RPOP'' k) w2);
                     w4 = settle (l_count l' = 0) k ptr w3
                 in (KV_OK, Some v, w4))))"

definition kv_rpop :: "cstr \<Rightarrow> world \<Rightarrow> int \<times> cstr \<times> world" where
  "kv_rpop key w =
     (case key of
        None \<Rightarrow> (KV_ERR_INVALID_PARAM, None, w)
      | Some k \<Rightarrow>
          if \<not> lock_initialized (st w) then (KV_ERR_INVALID_PARAM, None, w)
          else
            (let (entry, w1) = find_entry_unlocked k (kv_acquire_bucket_lock k w)
             in case entry of
                  None \<Rightarrow> (KV_ERR_NOT_FOUND, None, kv_release_bucket_lock k w1)
                | Some ptr \<Rightarrow>
                    (case e_value (deref (st w1) ptr) of
                       VList l \<Rightarrow>
                         (let (res, out, w2) = rpop_entry k ptr l w1
                          in (res, out, kv_release_bucket_lock k w2))
                     | _ \<Rightarrow> (KV_ERR_WRONG_TYPE, None, kv_release_bucket_lock k w1))))"

definition kv_llen :: "cstr \<Rightarrow> world \<Rightarrow> int \<times> world" where
  "kv_llen key w =
     (case key of
        None \<Rightarrow> (KV_ERR_INVALID_PARAM, w)
      | Some k \<Rightarrow>
          if \<not> lock_initialized (st w) then (KV_ERR_INVALID_PARAM, w)
          else
            (let (entry, w1) = find_entry_unlocked k (kv_acquire_bucket_lock k w)
             in case entry of
                  None \<Rightarrow> (0, kv_release_bucket_lock k w1)
                | Some ptr \<Rightarrow>
                    (case e_value (deref (st w1) ptr) of
                       VList l \<Rightarrow> (c_int (l_count l), kv_release_bucket_lock k (upd_st (touch ptr) w1))
                     | _ \<Rightarrow> (KV_ERR_WRONG_TYPE, kv_release_bucket_lock k w1))))"

section \<open>Lists as queues\<close>

interpretation lists: fifo "\<lambda>l. l_count l = length (l_nodes l)" "\<lambda>_. False" "\<lambda>l. rev (l_nodes l)" list_push list_pop
proof unfold_locales
  fix l l' :: kv_list_t and x
  assume inv: "l_count l = length (l_nodes l)" and pop: "list_pop l = Some (x, l')"
  then have "l_nodes l = l_nodes l' @ [x]" "l_count l' = l_count l - 1"
    by (auto simp: list_pop_def split: if_splits)
  with inv show "l_count l' = length (l_nodes l') \<and> rev (l_nodes l) = x # rev (l_nodes l')" by simp
qed (auto simp: list_push_def list_pop_def)

lemma list_push_sel [simp]:
  "l_nodes (list_push v l) = v # l_nodes l" "l_count (list_push v l) = l_count l + 1"
  by (simp_all add: list_push_def)

lemma wf_list_push: "wf_value (VList l) \<Longrightarrow> valid_value v \<Longrightarrow> cstring v \<Longrightarrow> wf_value (VList (list_push v l))"
  by simp

lemma value_bytes_push:
  "value_bytes (VList (list_push v l)) = value_bytes (VList l) + (sizeof_kv_list_node + length v + 1)"
  by (simp add: list_destroy_def)

lemma list_pop_Some:
  assumes "wf_value (VList l)" and "list_pop l = Some (v, l')"
  shows "l_nodes l = l_nodes l' @ [v]" "wf_value (VList l')" "l_count l' = length (l_nodes l')"
    "value_bytes (VList l) = value_bytes (VList l') + (sizeof_kv_list_node + length v + 1)"
proof -
  show nodes: "l_nodes l = l_nodes l' @ [v]"
    using assms(2) by (auto simp: list_pop_def split: if_splits)
  show "l_count l' = length (l_nodes l')"
    using lists.deq_Some [OF _ assms(2)] assms(1) by simp
  with nodes assms(1) show "wf_value (VList l')" by simp
  show "value_bytes (VList l) = value_bytes (VList l') + (sizeof_kv_list_node + length v + 1)"
    using nodes by (simp add: list_destroy_def)
qed

text \<open>The queue a key holds at a given time, oldest element first.\<close>

definition queue_at :: "kv_store \<Rightarrow> int \<Rightarrow> string \<Rightarrow> string list" where
  "queue_at s now k =
     (case live_entry s now k of
        Some e \<Rightarrow> (case e_value e of VList l \<Rightarrow> rev (l_nodes l) | _ \<Rightarrow> []) | None \<Rightarrow> [])"

section \<open>Pushing\<close>

lemma lpush_node_cases [consumes 5]:
  assumes "wf_store base (st w)" and "cstring v" and "valid_value v" and "lookup (st w) k = Some e"
    and "e_value e = VList l"
  obtains (refused) r w' where "lpush_node k v w = Inr (r, w')" "r \<in> {KV_ERR_BUDGET_EXCEEDED, KV_ERR_INTERNAL}"
      "only_evicted (st w) (st w')" "wf_store base (st w')" "isl (fst (room_for_node sizeof_kv_list_node v w))"
  | (freed) "lpush_node k v w = Inl Use_After_Free" "max_memory_budget (st w) > 0"
  | (pushed) w' t where "lpush_node k v w = Inr (c_int (l_count l + 1), w')" "only_evicted (st w) t"
      "lookup (st w') = (lookup t)(k \<mapsto> e\<lparr>e_value := VList (list_push v l)\<rparr>)" "same_settings t (st w')"
      "wf_store base (st w')" "within_budget (st w')"
proof (cases "room_for_node sizeof_kv_list_node v w")
  case (Pair r w1)
  note room = room_for_node_spec [OF assms(1,2) Pair]
  show thesis
  proof (cases r)
    case (Inl err)
    with Pair room room_for_node_error [of sizeof_kv_list_node v w err w1] show thesis
      by (intro refused [of err w1]) (simp_all add: lpush_node_def)
  next
    case (Inr v')
    show thesis
    proof (cases "locate (st w1) k")
      case None
      with Inr Pair evicted_only_with_budget [OF room(1,2) assms(4)] show thesis
        by (intro freed) (simp_all add: lpush_node_def)
    next
      case (Some ptr)
      have wfl: "wf_value (VList l)"
        using lookup_wf [OF assms(1,4)] assms(5) by (simp add: wf_entry_def)
      have bytes: "value_bytes (VList (list_push v l)) = value_bytes (e_value e) + (sizeof_kv_list_node + length v + 1)"
        using assms(5) value_bytes_push by simp
      note upd = room_then_update [OF assms(1,2) Pair [unfolded Inr] assms(4) Some wf_list_push [OF wfl assms(3,2)] bytes]
      define w2 where
        "w2 = append_record2 ''LPUSH'' k v (log_quietly (record2 ''LPUSH'' k v) (w1\<lparr>st :=
           add_bytes (sizeof_kv_list_node + length v + 1)
             (set_entry ptr (\<lambda>e. e\<lparr>e_value := VList (list_push v l)\<rparr>) (st w1))\<rparr>))"
      have "lpush_node k v w = Inr (c_int (l_count l + 1), w2)"
        using Inr Pair Some upd(1) assms(5) room(3) [OF Inr] by (simp add: lpush_node_def Let_def w2_def)
      then show thesis
        using pushed [of w2 "st w1"] room(2) upd by (simp add: w2_def)
    qed
  qed
qed

lemma alloc_list_st: "st (snd (alloc_list w)) = st w"
  by (simp add: alloc_list_def frame)

lemma now_of_coll_acquire [frame]: "now_of (snd (coll_acquire bytes k w)) = now_of w"
  by (simp add: kv_current_time_ms_def frame)

lemma obtain_entry_error:
  "fst (obtain_entry kind fresh alloc k w) \<noteq> KV_OK \<Longrightarrow> fst (obtain_entry kind fresh alloc k w) < 0"
  by (auto simp: obtain_entry_def create_entry_def Let_def split_beta split: option.splits if_splits)

lemma shrunk_other_keys: "shrunk s s' \<Longrightarrow> (lookup s')(k := None) \<subseteq>\<^sub>m lookup s"
  by (auto simp: shrunk_def map_le_def dom_def)

lemma stored_other_keys: "stored k e s t \<Longrightarrow> only_evicted t u \<Longrightarrow> (lookup u)(k := None) \<subseteq>\<^sub>m lookup s"
  using only_evictedD(1) [of t u] by (auto simp: stored_def map_le_def dom_def split: if_splits)

lemma kv_lpush_cases [consumes 3]:
  assumes "wf_store base (st w)" and "cstring k" and "cstring v"
  obtains (refused) r w' where "kv_lpush (Some k) (Some v) w = Inr (r, w')" "r < 0" "wf_store base (st w')"
      "same_settings (st w) (st w')" "within_budget (st w) \<longrightarrow> within_budget (st w')"
      "(lookup (st w'))(k := None) \<subseteq>\<^sub>m lookup (st w)"
  | (freed) "kv_lpush (Some k) (Some v) w = Inl Use_After_Free" "max_memory_budget (st w) > 0"
  | (pushed) w' e l where "kv_lpush (Some k) (Some v) w = Inr (c_int (l_count l + 1), w')"
      "valid_key k" "valid_value v" "lock_initialized (st w)"
      "open_value (VList empty_list) (live_entry (st w) (now_of w) k) = (VList l, expire_at_ms e)"
      "stored k e (st w) (st w')" "e_value e = VList (list_push v l)"
      "wf_store base (st w')" "within_budget (st w')"
proof (cases "lock_initialized (st w) \<and> valid_key k \<and> valid_value v")
  case False
  have kv: "validate_key (Some k) = Inr n \<Longrightarrow> validate_value (Some v) = Inr m \<Longrightarrow> \<not> lock_initialized (st w)" for n m
    using False assms(2,3) by (simp add: validate_key_Inr validate_value_Inr)
  have "\<exists>r. kv_lpush (Some k) (Some v) w = Inr (r, w) \<and> r < 0"
    using validate_key_error [of "Some k"] validate_value_error [of "Some v"] kv
    by (cases "validate_key (Some k)"; cases "validate_value (Some v)") (auto simp: kv_lpush_def)
  then obtain r where "kv_lpush (Some k) (Some v) w = Inr (r, w)" "r < 0" by blast
  with assms(1) show thesis by (intro refused) (auto simp: map_le_def)
next
  case True
  define bytes where "bytes = sizeof_kv_entry + length k + 1 + sizeof_kv_list + (sizeof_kv_list_node + length v + 1)"
  define w1 where "w1 = snd (coll_acquire bytes k w)"
  define g where "g = fst (coll_acquire bytes k w)"
  have w1: "st w1 = st w" "now_of w1 = now_of w" by (simp_all add: w1_def frame)
  define q where "q = obtain_entry KV_TYPE_LIST (VList empty_list) alloc_list k w1"
  have run: "kv_lpush (Some k) (Some v) w =
    (if fst q \<noteq> KV_OK then Inr (fst q, set_release g k (snd q))
     else case lpush_node k v (snd q) of Inl ub \<Rightarrow> Inl ub | Inr (res, w3) \<Rightarrow> Inr (res, set_release g k w3))"
    using True assms(2,3) unfolding w1_def g_def q_def bytes_def
    by (simp add: kv_lpush_def Let_def split_beta split: sum.split)
  have wf1: "wf_store base (st w1)" and k: "valid_key k" and v: "valid_value v" and li: "lock_initialized (st w)"
    using assms(1) w1 True by simp_all
  have fresh: "wf_value (VList empty_list)" "type_of (VList empty_list) = KV_TYPE_LIST"
    by (simp_all add: empty_list_def)
  from wf1 assms(2) k fresh(1) alloc_list_st fresh(2) show thesis
  proof (cases rule: obtain_entry_cases)
    case refused
    then have "kv_lpush (Some k) (Some v) w = Inr (fst q, set_release g k (snd q))" "fst q < 0"
      using run obtain_entry_error by (auto simp: q_def)
    then show thesis
      using that(1) refused shrunk_settings [OF refused(2)] shrunk_within_budget [OF refused(2)]
        shrunk_other_keys [OF refused(2)] w1 by (simp add: q_def [symmetric] frame)
  next
    case (ready e0)
    then have q: "fst q = KV_OK" "stored k e0 (st w) (st (snd q))" "wf_store base (st (snd q))"
      "within_budget (st w) \<longrightarrow> within_budget (st (snd q))"
      using w1 by (simp_all add: q_def)
    from ready(4) obtain l where l: "e_value e0 = VList l" by (cases "e_value e0") simp_all
    have look: "lookup (st (snd q)) k = Some e0" and set0: "same_settings (st w) (st (snd q))"
      using q(2) by (simp_all add: stored_def)
    from q(3) assms(3) v look l show thesis
    proof (cases rule: lpush_node_cases)
      case (refused r w')
      then show thesis
        using that(1) [of r "set_release g k w'"] run q only_evictedD [OF refused(3)]
          stored_other_keys [OF q(2) refused(3)] same_settings_trans [OF set0] by (auto simp: frame)
    next
      case freed
      then show thesis using that(2) run q(1) set0 by (simp add: same_settings_def)
    next
      case (pushed w' t)
      then show thesis
        using that(3) [of l "set_release g k w'" "e0\<lparr>e_value := VList (list_push v l)\<rparr>"] run q(1) k v li
          stored_then_update [OF q(2) pushed(2-4)] ready(3) l w1 by (simp add: frame)
    qed
  qed
qed

section \<open>Popping\<close>

lemma rpop_entry_cases [consumes 4]:
  assumes "wf_store base (st w)" and "valid_ptr (st w) ptr" and "e_key (deref (st w) ptr) = k"
    and "e_value (deref (st w) ptr) = VList l"
  obtains (refused) r w' where "rpop_entry k ptr l w = (r, None, w')" "r \<in> {KV_ERR_NOT_FOUND, KV_ERR_INTERNAL}"
      "st w' = st w" "r = KV_ERR_NOT_FOUND \<longleftrightarrow> l_nodes l = []"
  | (popped) w' v l' where "rpop_entry k ptr l w = (KV_OK, Some v, w')" "list_pop l = Some (v, l')"
      "l_nodes l = l_nodes l' @ [v]" "wf_store base (st w')" "same_settings (st w) (st w')"
      "allocated_bytes (st w') \<le> allocated_bytes (st w)"
      "kv_view (st w') = (kv_view (st w))
         (k := (if l_nodes l' = [] then None else Some (VList l', expire_at_ms (deref (st w) ptr))))"
proof (cases "list_pop l")
  case None
  have "wf_value (VList l)" using wf_store_entry [OF assms(1,2)] assms(4) by (simp add: wf_entry_def)
  with None have "l_nodes l = []" by (auto simp: list_pop_def split: if_splits)
  with None show thesis by (intro refused) (simp_all add: rpop_entry_def)
next
  case (Some a)
  obtain v l' where a: "a = (v, l')" by fastforce
  have wfl: "wf_value (VList l)" using wf_store_entry [OF assms(1,2)] assms(4) by (simp add: wf_entry_def)
  note pop = list_pop_Some [OF wfl Some [unfolded a]]
  show thesis
  proof (cases "fst (libc_malloc w)")
    case False
    with Some a pop(1) show thesis
      by (intro refused [of KV_ERR_INTERNAL "snd (libc_malloc w)"])
        (simp_all add: rpop_entry_def split_beta Let_def frame)
  next
    case True
    define s1 where "s1 = sub_bytes (sizeof_kv_list_node + length v + 1)
        (set_entry ptr (\<lambda>e. e\<lparr>e_value := VList l'\<rparr>) (st w))"
    define w3 where "w3 = append_record1 ''RPOP'' k (log_quietly (record1 ''RPOP'' k) ((snd (libc_malloc w))\<lparr>st := s1\<rparr>))"
    have "value_bytes (e_value (deref (st w) ptr)) = value_bytes (VList l') + (sizeof_kv_list_node + length v + 1)"
      using pop(4) assms(4) by simp
    note s1 = shrink_value_spec [OF assms(1,2) pop(2) this, folded s1_def]
    have st3: "st w3 = s1" by (simp add: w3_def)
    have run: "rpop_entry k ptr l w = (KV_OK, Some v, settle (l_count l' = 0) k ptr w3)"
      using Some a True by (simp add: rpop_entry_def split_beta Let_def w3_def s1_def frame)
    have key: "e_key (deref (st w3) ptr) = k" using s1(6) assms(3) st3 by simp
    note fin = settle_spec [OF _ _ key, of base "l_count l' = 0", unfolded st3, OF s1(1,5)]
    have "kv_view (st (settle (l_count l' = 0) k ptr w3)) = (kv_view (st w))
         (k := (if l_nodes l' = [] then None else Some (VList l', expire_at_ms (deref (st w) ptr))))"
      using fin(4) s1(2) assms(3) pop(3) by (auto simp: kv_view_def fun_eq_iff)
    then show thesis
      using run Some a pop(1) fin(1,3) s1(4) same_settings_trans [OF s1(3) fin(2)]
      by (intro popped) (simp_all add: st3)
  qed
qed

lemma kv_rpop_cases [consumes 2]:
  assumes "wf_store base (st w)" and "lock_initialized (st w)"
  obtains (refused) r w' where "kv_rpop (Some k) w = (r, None, w')" "r \<noteq> KV_OK" "wf_store base (st w')"
      "lookup_outcome k w w'"
  | (popped) w' e v l l' where "kv_rpop (Some k) w = (KV_OK, Some v, w')"
      "live_entry (st w) (now_of w) k = Some e" "e_value e = VList l" "l_nodes l = l_nodes l' @ [v]"
      "wf_store base (st w')" "same_settings (st w) (st w')" "allocated_bytes (st w') \<le> allocated_bytes (st w)"
      "kv_view (st w') = (kv_view (st w))
         (k := (if l_nodes l' = [] then None else Some (VList l', expire_at_ms e)))"
  using assms(1)
proof (cases rule: locked_find_cases [where k = k])
  case (absent w2)
  then have "kv_rpop (Some k) w = (KV_ERR_NOT_FOUND, None, kv_release_bucket_lock k w2)"
    using assms(2) by (simp add: kv_rpop_def)
  then show thesis by (rule refused) (use absent in \<open>simp_all add: frame lookup_outcome_def\<close>)
next
  case (found ptr w2)
  have wf2: "wf_store base (st w2)" "valid_ptr (st w2) ptr" "e_key (deref (st w2) ptr) = k"
    using found assms(1) by simp_all
  have id: "lookup_outcome k w w2" using found by (simp add: lookup_outcome_def)
  show thesis
  proof (cases "e_value (deref (st w2) ptr)")
    case (VList l)
    have run: "kv_rpop (Some k) w =
      (let (res, out, w3) = rpop_entry k ptr l w2 in (res, out, kv_release_bucket_lock k w3))"
      using assms(2) found(1) VList by (simp add: kv_rpop_def)
    from wf2 VList show thesis
    proof (cases rule: rpop_entry_cases)
      case (refused r w')
      then have "kv_rpop (Some k) w = (r, None, kv_release_bucket_lock k w')" using run by simp
      then show thesis
        by (rule that(1)) (use refused wf2 id in \<open>auto simp: frame lookup_outcome_def\<close>)
    next
      case (popped w' v l')
      then have "kv_rpop (Some k) w = (KV_OK, Some v, kv_release_bucket_lock k w')" using run by simp
      then show thesis
        by (rule that(2)) (use popped found VList in \<open>auto simp: frame\<close>)
    qed
  next
    case (VString v)
    then have "kv_rpop (Some k) w = (KV_ERR_WRONG_TYPE, None, kv_release_bucket_lock k w2)"
      using assms(2) found(1) by (simp add: kv_rpop_def)
    then show thesis by (rule refused) (use wf2 id in \<open>simp_all add: frame\<close>)
  next
    case (VSet v)
    then have "kv_rpop (Some k) w = (KV_ERR_WRONG_TYPE, None, kv_release_bucket_lock k w2)"
      using assms(2) found(1) by (simp add: kv_rpop_def)
    then show thesis by (rule refused) (use wf2 id in \<open>simp_all add: frame\<close>)
  qed
qed

section \<open>When pushing must succeed\<close>

lemma alloc_list_no_oom: "no_oom w \<Longrightarrow> fst (alloc_list w)"
  using tracked_calloc_no_oom(1) [of w 1 sizeof_kv_list] by (simp add: alloc_list_def)

lemma alloc_coll_entry_no_oom:
  assumes "no_oom w" and "cstring k" and "valid_key k" and "\<And>w. no_oom w \<Longrightarrow> fst (alloc w) \<and> no_oom (snd (alloc w))"
  shows "fst (alloc_coll_entry alloc k w) = Some k" "no_oom (snd (alloc_coll_entry alloc k w))"
  using assms tracked_malloc_no_oom [OF assms(1), of sizeof_kv_entry]
  by (auto simp: alloc_coll_entry_def split_beta Let_def copy_string_bounded_no_oom valid_key_def)

lemma no_oom_upd_st [simp]: "no_oom (w\<lparr>st := s\<rparr>) = no_oom w"
  by (simp add: no_oom_def)

lemma obtain_entry_total:
  assumes "wf_store base (st w)" and "no_oom w" and "cstring k" and "valid_key k"
    and "max_memory_budget (st w) = 0" and "max_capacity (st w) = 0"
    and "\<And>e. live_entry (st w) (now_of w) k = Some e \<Longrightarrow> e_type e = kind"
    and "\<And>w. no_oom w \<Longrightarrow> fst (alloc w) \<and> no_oom (snd (alloc w))"
  shows "fst (obtain_entry kind fresh alloc k w) = KV_OK" "no_oom (snd (obtain_entry kind fresh alloc k w))"
proof -
  obtain q w1 where f: "find_entry_unlocked k w = (q, w1)" by fastforce
  have oom: "no_oom w1" using no_oom_find_entry [of k w] f assms(2) by simp
  have set: "max_memory_budget (st w1) = 0" "max_capacity (st w1) = 0"
    using shrunk_find_entry [OF assms(1), of k] f assms(5,6) by (simp_all add: shrunk_def)
  have "fst (obtain_entry kind fresh alloc k w) = KV_OK \<and> no_oom (snd (obtain_entry kind fresh alloc k w))"
  proof (cases q)
    case None
    with f set alloc_coll_entry_no_oom [OF oom assms(3,4,8)] show ?thesis
      by (simp add: obtain_entry_def create_entry_def make_room_def Let_def split_beta)
  next
    case (Some ptr)
    note p = find_entry_Some [OF assms(1) f [unfolded Some]]
    then have "e_type (deref (st w1) ptr) = kind" using assms(7) by (simp add: live_entry_def)
    with f Some oom show ?thesis by (simp add: obtain_entry_def)
  qed
  then show "fst (obtain_entry kind fresh alloc k w) = KV_OK" "no_oom (snd (obtain_entry kind fresh alloc k w))"
    by blast+
qed

lemma room_for_node_total:
  assumes "no_oom w" and "cstring v" and "valid_value v" and "max_memory_budget (st w) = 0"
  shows "fst (room_for_node n v w) = Inr v"
  using assms tracked_malloc_no_oom [OF assms(1), of n]
  by (simp add: room_for_node_def make_room_def alloc_node_def split_beta Let_def copy_string_bounded_no_oom
      valid_value_def)

lemma kv_lpush_total:
  assumes "wf_store base (st w)" and "lock_initialized (st w)" and "no_oom w"
    and "cstring k" and "valid_key k" and "cstring v" and "valid_value v"
    and "max_memory_budget (st w) = 0" and "max_capacity (st w) = 0"
    and "\<And>e. live_entry (st w) (now_of w) k = Some e \<Longrightarrow> e_type e = KV_TYPE_LIST"
  obtains w' e l where "kv_lpush (Some k) (Some v) w = Inr (c_int (Suc (length (queue_at (st w) (now_of w) k))), w')"
    "open_value (VList empty_list) (live_entry (st w) (now_of w) k) = (VList l, expire_at_ms e)"
    "stored k e (st w) (st w')" "e_value e = VList (list_push v l)" "wf_store base (st w')"
proof -
  define bytes where "bytes = sizeof_kv_entry + length k + 1 + sizeof_kv_list + (sizeof_kv_list_node + length v + 1)"
  define w1 where "w1 = snd (coll_acquire bytes k w)"
  have w1: "wf_store base (st w1)" "st w1 = st w" "now_of w1 = now_of w" "no_oom w1"
    using assms(1,3) by (simp_all add: w1_def frame no_oom_def)
  define q where "q = obtain_entry KV_TYPE_LIST (VList empty_list) alloc_list k w1"
  have al: "no_oom w \<Longrightarrow> fst (alloc_list w) \<and> no_oom (snd (alloc_list w))" for w
    using alloc_list_no_oom tracked_calloc_no_oom(2) by (auto simp: alloc_list_def)
  have q: "fst q = KV_OK" "no_oom (snd q)"
    unfolding q_def using assms w1 al by (auto intro!: obtain_entry_total [OF w1(1)])
  have fresh: "wf_value (VList empty_list)" "type_of (VList empty_list) = KV_TYPE_LIST"
    by (simp_all add: empty_list_def)
  from w1(1) assms(4,5) fresh(1) alloc_list_st fresh(2) show thesis
  proof (cases rule: obtain_entry_cases)
    case refused
    then show thesis using q(1) by (simp add: q_def)
  next
    case (ready e0)
    then have r: "lookup (st (snd q)) k = Some e0" "max_memory_budget (st (snd q)) = 0" "wf_store base (st (snd q))"
      using w1(2) assms(8) by (simp_all add: q_def stored_def same_settings_def)
    from ready(4) obtain l where l: "e_value e0 = VList l" by (cases "e_value e0") simp_all
    have len: "l_count l = length (l_nodes l)" using lookup_wf [OF r(3,1)] l by (simp add: wf_entry_def)
    have "queue_at (st w) (now_of w) k = rev (l_nodes l)"
      using ready(3) l w1
      by (auto simp: queue_at_def open_value_def empty_list_def split: option.splits kv_value.splits)
    moreover have "fst (room_for_node sizeof_kv_list_node v (snd q)) = Inr v"
      using q(2) assms(6,7) r(2) by (intro room_for_node_total) auto
    moreover from r(3) assms(6,7) r(1) l obtain w' t where "lpush_node k v (snd q) = Inr (c_int (l_count l + 1), w')"
      "only_evicted (st (snd q)) t" "lookup (st w') = (lookup t)(k \<mapsto> e0\<lparr>e_value := VList (list_push v l)\<rparr>)"
      "same_settings t (st w')" "wf_store base (st w')"
      by (cases rule: lpush_node_cases) (use calculation(2) r(2) in auto)
    moreover have "stored k e0 (st w) (st (snd q))" using ready(2) w1(2) by (simp add: q_def)
    from stored_then_update [OF this calculation(4-6)]
    have "stored k (e0\<lparr>e_value := VList (list_push v l)\<rparr>) (st w) (st w')" .
    ultimately show thesis
      using that [of "set_release (fst (coll_acquire bytes k w)) k w'" l "e0\<lparr>e_value := VList (list_push v l)\<rparr>"]
        q(1) assms(2,4-7) len ready(3) l w1(2,3)
      by (simp add: kv_lpush_def Let_def split_beta bytes_def w1_def q_def frame)
  qed
qed

section \<open>Evicting the list that is being pushed to\<close>

lemma empty_table:
  assumes "wf_store base s" and "kv_size s = 0"
  shows "lookup s k = None" "allocated_bytes s = bucket_count s * sizeof_ptr + base"
proof -
  have none: "buckets s ! i = []" if "i < length (buckets s)" for i
    using empty_no_entries [OF assms that] .
  then show "lookup s k = None"
    using wf_storeD [OF assms(1)] by (simp add: lookup_def table_find_def hash_key_less)
  have "\<forall>b\<in>set (buckets s). b = []"
    using none by (metis in_set_conv_nth)
  then show "allocated_bytes s = bucket_count s * sizeof_ptr + base"
    using wf_storeD(7) [OF assms(1)] by (simp add: table_sum_all_empty)
qed

lemma make_room_evicts_only_entry:
  assumes "wf_store base (st w)" and "clock_live (st w)" and "kv_size (st w) = 1"
    and "max_memory_budget (st w) < allocated_bytes (st w) + need"
    and "bucket_count (st w) * sizeof_ptr + base + need \<le> max_memory_budget (st w)" and "0 < need"
  shows "fst (make_room need w)" "lookup (st (snd (make_room need w))) k = None"
    "no_oom (snd (make_room need w)) = no_oom w"
proof -
  let ?u = "snd (kv_evict_lru_unlocked w)"
  have ok: "fst (kv_evict_lru_unlocked w) = KV_OK"
    using clock_live_evict(1) [OF assms(1,2)] assms(3) by simp
  then have size: "kv_size (st ?u) = 0" using evict_decreases_size [of w] assms(3) by simp
  have "evict_for need ?u = ?u" using size by (subst evict_for.simps) simp
  then have ev: "evict_for need w = ?u"
    using ok assms(3,4) by (subst evict_for.simps) simp
  have wfu: "wf_store base (st ?u)" by (rule lru.evict_keeps_wf [OF assms(1)])
  note u = empty_table [OF wfu size] lru.evict_shrinks [OF assms(1)]
  have mr: "make_room need w = (allocated_bytes (st ?u) + need \<le> max_memory_budget (st ?u), ?u)"
    using ev assms(5,6) by (simp add: make_room_def Let_def)
  show "fst (make_room need w)" "lookup (st (snd (make_room need w))) k = None"
    using mr u assms(5) by (simp_all add: shrunk_def)
  show "no_oom (snd (make_room need w)) = no_oom w" using mr lru.evict_others(4) by simp
qed

lemma clock_live_touch:
  assumes "clock_live s" and "lru_clock s + 1 \<noteq> - 1" and "valid_ptr s ptr"
  shows "clock_live (touch ptr s)"
  using assms
  by (fastforce simp: clock_live_def touch_def set_entry_def update_at_def valid_ptr_def Let_def
      dest!: set_update_subset_insert [THEN subsetD])

lemma lpush_node_freed:
  assumes "wf_store base (st w)" and "clock_live (st w)" and "kv_size (st w) = 1"
    and "max_memory_budget (st w) < allocated_bytes (st w) + (sizeof_kv_list_node + length v + 1)"
    and "bucket_count (st w) * sizeof_ptr + base + (sizeof_kv_list_node + length v + 1) \<le> max_memory_budget (st w)"
    and "no_oom w" and "cstring v" and "valid_value v"
  shows "lpush_node k v w = Inl Use_After_Free"
proof -
  define m where "m = make_room (sizeof_kv_list_node + length v + 1) w"
  note room = make_room_evicts_only_entry [OF assms(1-5)]
  have m: "fst m" "lookup (st (snd m)) k = None" "no_oom (snd m)"
    using room assms(6) by (simp_all add: m_def)
  have wfm: "wf_store base (st (snd m))"
    using make_room_spec(1) [OF assms(1) prod.collapse [symmetric]] by (simp add: m_def)
  define a where "a = alloc_node sizeof_kv_list_node v (snd m)"
  have a: "fst a = Some v" "st (snd a) = st (snd m)"
    using tracked_malloc_no_oom [OF m(3), of sizeof_kv_list_node] assms(7,8)
    by (simp_all add: a_def alloc_node_def split_beta Let_def copy_string_bounded_no_oom valid_value_def frame)
  have "room_for_node sizeof_kv_list_node v w = (Inr v, snd a)"
    using m(1) a(1) unfolding room_for_node_def m_def [symmetric] Let_def split_beta a_def [symmetric] by simp
  moreover have "locate (st (snd a)) k = None" using locate_None [OF wfm] m(2) a(2) by simp
  ultimately show ?thesis by (simp add: lpush_node_def)
qed

section \<open>Properties\<close>

text \<open>A list value is a queue: pushing any values onto an empty list and popping as many
  returns exactly those values in the order they were pushed.\<close>

lemma list_is_fifo: "fst (drain list_pop (length vs) (fold list_push vs empty_list)) = vs"
  by (rule lists.first_in_first_out) (simp_all add: empty_list_def)

text \<open>C31. A successful \<^verbatim>\<open>kv_lpush\<close> appends to the queue the key holds (a fresh one if the key was
  absent or expired), returns its new length, keeps the invariant and the memory budget, and
  leaves every other key alone or evicts it.\<close>

theorem kv_lpush_appends:
  assumes "wf_store base (st w)" and "cstring k" and "cstring v"
    and "kv_lpush (Some k) (Some v) w = Inr (r, w')" and "0 < r"
  shows "wf_store base (st w') \<and> within_budget (st w') \<and>
    queue_at (st w') (now_of w) k = queue_at (st w) (now_of w) k @ [v] \<and>
    r = c_int (length (queue_at (st w') (now_of w) k)) \<and>
    (\<forall>k'. k' \<noteq> k \<longrightarrow> lookup (st w') k' \<in> {None, lookup (st w) k'})"
  using assms(1-3)
proof (cases rule: kv_lpush_cases)
  case (pushed u e l)
  note run = pushed(1) and live = pushed(5) and st = pushed(6) and val = pushed(7)
  have look: "lookup (st u) k = Some e" and other: "(lookup (st u))(k := None) \<subseteq>\<^sub>m lookup (st w)"
    using st by (simp_all add: stored_def)
  have "\<not> entry_is_expired e (now_of w)"
    using live
    by (auto simp: open_value_def live_entry_def entry_is_expired_def split: option.splits if_splits)
  with look val have q: "queue_at (st u) (now_of w) k = rev (l_nodes l) @ [v]"
    by (simp add: queue_at_def live_entry_def)
  moreover have "queue_at (st w) (now_of w) k = rev (l_nodes l)"
    using live by (auto simp: queue_at_def open_value_def empty_list_def split: option.splits)
  moreover have "l_count l = length (l_nodes l)"
    using lookup_wf [OF pushed(8) look] val by (simp add: wf_entry_def)
  moreover have "lookup (st u) k' \<in> {None, lookup (st w) k'}" if "k' \<noteq> k" for k'
    using other that by (cases "lookup (st u) k'") (auto simp: map_le_def dom_def split: if_splits)
  ultimately show ?thesis
    using assms(4) run pushed(8,9) by simp
qed (use assms(4,5) in simp_all)

definition list_entry :: "string \<Rightarrow> string list \<Rightarrow> kv_entry" where
  "list_entry k vs = \<lparr>e_key = k, e_value = VList \<lparr>l_nodes = vs, l_count = length vs\<rparr>, expire_at_ms = 0,
     last_accessed_time = 0\<rparr>"

lemma list_entry_sel [simp]:
  "e_key (list_entry k vs) = k" "e_value (list_entry k vs) = VList \<lparr>l_nodes = vs, l_count = length vs\<rparr>"
  "expire_at_ms (list_entry k vs) = 0" "\<not> entry_is_expired (list_entry k vs) now"
  "last_accessed_time (list_entry k vs) = 0" "wf_entry (list_entry ''a'' [''1''])" "entry_bytes (list_entry ''a'' [''1'']) = 100"
  by (simp_all add: list_entry_def entry_is_expired_def wf_entry_def entry_bytes_def list_destroy_def)

lemma queue_at_example [simp]: "queue_at (singleton_store b (list_entry k vs)) now k = rev vs"
  by (simp add: queue_at_def live_entry_def)

theorem kv_lpush_appends_witness:
  "\<exists>r w'. kv_lpush (Some ''a'') (Some ''2'') (quiet_world 7 (singleton_store 0 (list_entry ''a'' [''1'']))) = Inr (r, w') \<and>
     queue_at (st w') 7 ''a'' = [''1'', ''2'']"
proof -
  let ?w = "quiet_world 7 (singleton_store 0 (list_entry ''a'' [''1'']))"
  obtain w' where run: "kv_lpush (Some ''a'') (Some ''2'') ?w = Inr (2, w')"
    by (rule kv_lpush_total [of 0 ?w "''a''" "''2''"]) (auto simp: live_entry_def)
  with kv_lpush_appends [of 0 ?w "''a''" "''2''", OF _ _ _ run] show ?thesis by auto
qed

text \<open>C32. \<^verbatim>\<open>kv_rpop\<close> takes the oldest element: when it succeeds it returns the head of the queue
  and leaves the tail, dropping the key with the last element; otherwise it returns nothing
  and the queue is unchanged. No other key is touched.\<close>

theorem kv_rpop_takes_oldest:
  assumes "wf_store base (st w)" and "lock_initialized (st w)" and "kv_rpop (Some k) w = (r, out, w')"
  shows "wf_store base (st w') \<and>
    (\<forall>k'. k' \<noteq> k \<longrightarrow> kv_view (st w') k' = kv_view (st w) k') \<and>
    (case out of
       Some v \<Rightarrow> r = KV_OK \<and> queue_at (st w) (now_of w) k = v # queue_at (st w') (now_of w) k \<and>
         (queue_at (st w') (now_of w) k = [] \<longrightarrow> lookup (st w') k = None)
     | None \<Rightarrow> r \<noteq> KV_OK \<and> queue_at (st w') (now_of w) k = queue_at (st w) (now_of w) k)"
  using assms(1,2)
proof (cases rule: kv_rpop_cases [where k = k])
  case (refused r' u)
  have "queue_at (st u) (now_of w) k = queue_at (st w) (now_of w) k"
  proof (cases "live_entry (st w) (now_of w) k")
    case None
    with refused(4) have "lookup (st u) k = None"
      by (auto simp: lookup_outcome_def kv_view_def dest: fun_cong [of _ _ k])
    with None show ?thesis by (simp add: queue_at_def live_entry_def)
  next
    case (Some e)
    with refused(4) have "kv_view (st u) k = kv_view (st w) k" by (simp add: lookup_outcome_def)
    then show ?thesis
      by (auto simp: kv_view_def queue_at_def live_entry_def entry_is_expired_def split: option.splits)
  qed
  with assms(3) refused show ?thesis by (auto simp: lookup_outcome_def)
next
  case (popped u e v l l')
  note live = popped(2) and val = popped(3) and nodes = popped(4) and view = popped(8)
  have "queue_at (st w) (now_of w) k = v # rev (l_nodes l')"
    using live val nodes by (simp add: queue_at_def)
  moreover have "queue_at (st u) (now_of w) k = rev (l_nodes l') \<and> (l_nodes l' = [] \<longrightarrow> lookup (st u) k = None)"
  proof (cases "l_nodes l' = []")
    case True
    with view have "lookup (st u) k = None" by (auto simp: kv_view_def dest: fun_cong [of _ _ k])
    with True show ?thesis by (simp add: queue_at_def live_entry_def)
  next
    case False
    with view have "kv_view (st u) k = Some (VList l', expire_at_ms e)" by simp
    then obtain e' where "lookup (st u) k = Some e'" "e_value e' = VList l'" "expire_at_ms e' = expire_at_ms e"
      by (auto simp: kv_view_def)
    moreover have "\<not> entry_is_expired e (now_of w)"
      using live by (auto simp: live_entry_def split: option.splits if_splits)
    ultimately show ?thesis using False by (simp add: queue_at_def live_entry_def entry_is_expired_def)
  qed
  ultimately show ?thesis using assms(3) popped(1,5) view by auto
qed

theorem kv_rpop_takes_oldest_witness:
  "case snd (kv_rpop (Some ''a'') (quiet_world 7 (singleton_store 0 (list_entry ''a'' [''1''])))) of (out, w') \<Rightarrow>
     case out of
       Some v \<Rightarrow> [''1''] = v # queue_at (st w') 7 ''a''
     | None \<Rightarrow> queue_at (st w') 7 ''a'' = [''1'']"
proof -
  let ?w = "quiet_world 7 (singleton_store 0 (list_entry ''a'' [''1'']))"
  obtain r out w' where run: "kv_rpop (Some ''a'') ?w = (r, out, w')" by (metis prod_cases3)
  with kv_rpop_takes_oldest [of 0 ?w "''a''", OF _ _ run] show ?thesis by (simp split: option.splits)
qed

text \<open>Without a memory budget \<^verbatim>\<open>kv_lpush\<close> never touches freed memory.\<close>

lemma kv_lpush_safe_without_budget:
  assumes "wf_store base (st w)" and "cstring k" and "cstring v" and "max_memory_budget (st w) = 0"
  shows "\<exists>r w'. kv_lpush (Some k) (Some v) w = Inr (r, w')"
  using assms(1-3) by (cases rule: kv_lpush_cases) (use assms(4) in auto)

lemma kv_lpush_safe_without_budget_witness:
  "\<exists>r w'. kv_lpush (Some ''a'') (Some ''2'') (quiet_world 7 (singleton_store 0 (list_entry ''a'' [''1'']))) = Inr (r, w')"
  by (rule kv_lpush_safe_without_budget [of 0]) simp_all

text \<open>C33. Under a memory budget it can: pushing to the only list of a store that is too full for
  one more node evicts that list and then links the node into the freed header.\<close>

theorem kv_lpush_use_after_free:
  assumes "wf_store base (st w)" and "lock_initialized (st w)" and "no_oom w"
    and "cstring k" and "valid_key k" and "cstring v" and "valid_value v"
    and "live_entry (st w) (now_of w) k = Some e" and "e_type e = KV_TYPE_LIST"
    and "kv_size (st w) = 1" and "clock_live (st w)" and "lru_clock (st w) + 1 \<noteq> - 1"
    and "max_memory_budget (st w) < allocated_bytes (st w) + (sizeof_kv_list_node + length v + 1)"
    and "bucket_count (st w) * sizeof_ptr + base + (sizeof_kv_list_node + length v + 1) \<le> max_memory_budget (st w)"
  shows "kv_lpush (Some k) (Some v) w = Inl Use_After_Free"
proof -
  define bytes where "bytes = sizeof_kv_entry + length k + 1 + sizeof_kv_list + (sizeof_kv_list_node + length v + 1)"
  define w1 where "w1 = snd (coll_acquire bytes k w)"
  have w1: "wf_store base (st w1)" "st w1 = st w" "now_of w1 = now_of w" "no_oom w1"
    using assms(1,3) by (simp_all add: w1_def frame no_oom_def)
  from w1(1) show ?thesis
  proof (rule find_entry_cases [where k = k])
    fix ptr
    assume ptr: "valid_ptr (st w1) ptr" "lookup (st w1) k = Some (deref (st w1) ptr)"
      and f: "fst (find_entry_unlocked k w1) = Some ptr" "st (snd (find_entry_unlocked k w1)) = st w1"
    let ?w2 = "snd (find_entry_unlocked k w1)"
    have "deref (st w) ptr = e"
      using assms(8) ptr(2) w1(2) by (auto simp: live_entry_def split: if_splits)
    with f assms(9) w1(2) have "obtain_entry KV_TYPE_LIST (VList empty_list) alloc_list k w1 = (KV_OK, upd_st (touch ptr) ?w2)"
      by (simp add: obtain_entry_def split_beta)
    moreover have "lpush_node k v (upd_st (touch ptr) ?w2) = Inl Use_After_Free"
      using wf_touch [OF w1(1) ptr(1)] clock_live_touch [of "st w" ptr] ptr(1) w1(2,4) f(2) assms
      by (intro lpush_node_freed [of base])
        simp_all
    ultimately show ?thesis
      using assms(2,4-7) by (simp add: kv_lpush_def Let_def split_beta bytes_def w1_def)
  qed (use assms(8) w1 in \<open>auto simp: live_entry_def\<close>)
qed

theorem kv_lpush_use_after_free_witness:
  "kv_lpush (Some ''a'') (Some ''2'') (quiet_world 7 (singleton_store 180 (list_entry ''a'' [''1'']))) = Inl Use_After_Free"
  by (rule kv_lpush_use_after_free [of 0 _ _ _ "list_entry ''a'' [''1'']"])
    (simp_all add: live_entry_def)

end
