(* ===== verification/KV_Sets.thy ===== *)
theory KV_Sets
  imports KV_List
begin

text \<open>
  Set commands of \<^verbatim>\<open>src/set.c\<close>: adding, removing, counting and listing members. A set value is
  a hash table of its own with sixteen buckets, which never grows. \<^verbatim>\<open>kv_sadd\<close> keeps a pointer
  to the set across the eviction loop, as \<^verbatim>\<open>kv_lpush\<close> does to the list.
\<close>

section \<open>The member table\<close>

definition empty_set_value :: kv_set_t where
  "empty_set_value = \<lparr>s_buckets = replicate 16 [], s_bucket_count = 16, s_count = 0\<rparr>"

definition set_find :: "string \<Rightarrow> kv_set_t \<Rightarrow> (nat \<times> nat) option" where
  "set_find v t =
     (let i = hash_key v (s_bucket_count t)
      in map_option (Pair i) (find_pos (\<lambda>m. m = v) (s_buckets t ! i)))"

definition set_link :: "string \<Rightarrow> kv_set_t \<Rightarrow> kv_set_t" where
  "set_link v t =
     t\<lparr>s_buckets := push_at (hash_key v (s_bucket_count t)) v (s_buckets t), s_count := s_count t + 1\<rparr>"

definition set_unlink :: "nat \<times> nat \<Rightarrow> kv_set_t \<Rightarrow> kv_set_t" where
  "set_unlink pos t =
     t\<lparr>s_buckets := remove_at (fst pos) (snd pos) (s_buckets t), s_count := s_count t - 1\<rparr>"

section \<open>Commands\<close>

definition alloc_set :: "world \<Rightarrow> bool \<times> world" where
  "alloc_set w =
     (let (ok, w1) = tracked_calloc 1 sizeof_kv_set w
      in if \<not> ok then (False, w1) else tracked_calloc 16 sizeof_ptr w1)"

definition sadd_node :: "string \<Rightarrow> string \<Rightarrow> world \<Rightarrow> int result" where
  "sadd_node k v w =
     (let (node, w1) = room_for_node sizeof_kv_set_node v w
      in case node of
           Inl err \<Rightarrow> Inr (err, w1)
         | Inr v' \<Rightarrow>
             (case locate (st w1) k of
                None \<Rightarrow> Inl Use_After_Free
              | Some ptr \<Rightarrow>
                  (case e_value (deref (st w1) ptr) of
                     VSet t \<Rightarrow>
                       (let w2 = upd_st (\<lambda>s. add_bytes (sizeof_kv_set_node + length v + 1)
                                   (set_entry ptr (\<lambda>e. e\<lparr>e_value := VSet (set_link v' t)\<rparr>) s)) w1
                        in Inr (1, append_record2 ''SADD'' k v (log_quietly (record2 ''SADD'' k v) w2)))
                   | _ \<Rightarrow> Inl Use_After_Free)))"

text \<open>Before making room, the member is looked up in the set just found or created.\<close>

definition sadd_member :: "string \<Rightarrow> string \<Rightarrow> world \<Rightarrow> int result" where
  "sadd_member k v w =
     (case locate (st w) k of
        None \<Rightarrow> Inl Use_After_Free
      | Some ptr \<Rightarrow>
          (case e_value (deref (st w) ptr) of
             VSet t \<Rightarrow> if set_find v t \<noteq> None then Inr (0, w) else sadd_node k v w
           | _ \<Rightarrow> Inl Use_After_Free))"

definition kv_sadd :: "cstr \<Rightarrow> cstr \<Rightarrow> world \<Rightarrow> int result" where
  "kv_sadd key value w =
     (if key = None \<or> value = None \<or> \<not> lock_initialized (st w) then Inr (KV_ERR_INVALID_PARAM, w)
      else
        case validate_key key of
          Inl err \<Rightarrow> Inr (err, w)
        | Inr key_len \<Rightarrow>
            (case validate_value value of
               Inl err \<Rightarrow> Inr (err, w)
             | Inr val_len \<Rightarrow>
                 (let k = the key; v = the value;
                      entry_overhead = sizeof_kv_entry + key_len + 1 + sizeof_kv_set + 16 * sizeof_ptr;
                      node_overhead = sizeof_kv_set_node + val_len + 1;
                      (needs_global, w1) = coll_acquire (entry_overhead + node_overhead) k w;
                      (err, w2) = obtain_entry KV_TYPE_SET (VSet empty_set_value) alloc_set k w1
                  in if err \<noteq> KV_OK then Inr (err, set_release needs_global k w2)
                     else case sadd_member k v w2 of
                            Inl ub \<Rightarrow> Inl ub
                          | Inr (res, w3) \<Rightarrow> Inr (res, set_release needs_global k w3))))"

definition srem_entry :: "string \<Rightarrow> string \<Rightarrow> entry_ptr \<Rightarrow> kv_set_t \<Rightarrow> world \<Rightarrow> int \<times> world" where
  "srem_entry k v ptr t w =
     (if s_count t = 0 then (0, w)
      else
        case set_find v t of
          None \<Rightarrow> (0, w)
        | Some pos \<Rightarrow>
            (let t' = set_unlink pos t;
                 w1 = upd_st (\<lambda>s. sub_bytes (sizeof_kv_set_node + length (s_buckets t ! fst pos ! snd pos) + 1)
                        (set_entry ptr (\<lambda>e. e\<lparr>e_value := VSet t'\<rparr>) s)) w;
                 w2 = append_record2 ''SREM'' k v (log_quietly (record2 ''SREM'' k v) w1)
             in (1, settle (s_count t' = 0) k ptr w2)))"

definition kv_srem :: "cstr \<Rightarrow> cstr \<Rightarrow> world \<Rightarrow> int \<times> world" where
  "kv_srem key value w =
     (if key = None \<or> value = None \<or> \<not> lock_initialized (st w) then (KV_ERR_INVALID_PARAM, w)
      else
        (let k = the key; v = the value;
             (entry, w1) = find_entry_unlocked k (kv_acquire_bucket_lock k w)
         in case entry of
              None \<Rightarrow> (0, kv_release_bucket_lock k w1)
            | Some ptr \<Rightarrow>
                (case e_value (deref (st w1) ptr) of
                   VSet t \<Rightarrow> (let (res, w2) = srem_entry k v ptr t w1 in (res, kv_release_bucket_lock k w2))
                 | _ \<Rightarrow> (KV_ERR_WRONG_TYPE, kv_release_bucket_lock k w1))))"

definition kv_scard :: "cstr \<Rightarrow> world \<Rightarrow> int \<times> world" where
  "kv_scard key w =
     (case key of
        None \<Rightarrow> (KV_ERR_INVALID_PARAM, w)
      | Some k \<Rightarrow>
          if \<not> lock_initialized (st w) then (KV_ERR_INVALID_PARAM, w)
          else
            (let (entry, w1) = find_entry_unlocked k (kv_acquire_bucket_lock k w)
             in case entry of
                  None \<Rightarrow> (0, kv_release_bucket_lock k w1)
                | Some ptr \<Rightarrow>
                    (case e_value (deref (st w1) ptr) of
                       VSet t \<Rightarrow> (c_int (s_count t), kv_release_bucket_lock k (upd_st (touch ptr) w1))
                     | _ \<Rightarrow> (KV_ERR_WRONG_TYPE, kv_release_bucket_lock k w1))))"

text \<open>The returned array (\<open>None\<close> is the null pointer) and \<^verbatim>\<open>*out_count\<close>.\<close>

definition kv_smembers :: "cstr \<Rightarrow> world \<Rightarrow> string list option \<times> nat \<times> world" where
  "kv_smembers key w =
     (case key of
        None \<Rightarrow> (None, 0, w)
      | Some k \<Rightarrow>
          if \<not> lock_initialized (st w) then (None, 0, w)
          else
            (let (entry, w1) = find_entry_unlocked k (kv_acquire_bucket_lock k w)
             in case entry of
                  None \<Rightarrow> (None, 0, kv_release_bucket_lock k w1)
                | Some ptr \<Rightarrow>
                    (case e_value (deref (st w1) ptr) of
                       VSet t \<Rightarrow>
                         if s_count t = 0 then (None, 0, kv_release_bucket_lock k w1)
                         else
                           (let (ok, w2) = libc_malloc w1
                            in if \<not> ok then (None, 0, kv_release_bucket_lock k w2)
                               else (Some (concat (take (s_bucket_count t) (s_buckets t))), s_count t,
                                     kv_release_bucket_lock k (upd_st (touch ptr) w2)))
                     | _ \<Rightarrow> (None, 0, kv_release_bucket_lock k w1))))"

section \<open>Members\<close>

definition elems :: "kv_set_t \<Rightarrow> string set" where
  "elems t = set (concat (s_buckets t))"

lemma elems_find:
  assumes "wf_value (VSet t)"
  shows "v \<in> elems t \<longleftrightarrow> table_find hash_key (\<lambda>m. m) (s_buckets t) v \<noteq> None"
proof -
  have "table_find hash_key (\<lambda>m. m) (s_buckets t) v = find (\<lambda>m. m = v) (concat (s_buckets t))"
    using members.find_concat_placed [of "s_buckets t" v] assms by simp
  then show ?thesis by (auto simp: elems_def find_None_iff simp del: set_concat)
qed

lemma set_find_cases:
  assumes "wf_value (VSet t)"
  obtains (absent) "set_find v t = None" "v \<notin> elems t"
  | (present) i p where "set_find v t = Some (i, p)" "v \<in> elems t" "i < length (s_buckets t)"
      "p < length (s_buckets t ! i)" "s_buckets t ! i ! p = v"
proof (cases "set_find v t")
  case None
  then have "table_find hash_key (\<lambda>m. m) (s_buckets t) v = None"
    using assms by (auto simp: set_find_def Let_def table_find_def find_pos_None find_None_iff)
  then show thesis using absent None elems_find [OF assms] by blast
next
  case (Some pos)
  then obtain p where pos: "pos = (hash_key v (s_bucket_count t), p)"
    and p: "find_pos (\<lambda>m. m = v) (s_buckets t ! hash_key v (s_bucket_count t)) = Some p"
    by (auto simp: set_find_def Let_def)
  have i: "hash_key v (s_bucket_count t) < length (s_buckets t)"
    using assms by (simp add: hash_key_less)
  moreover from find_pos_Some [OF p] have "p < length (s_buckets t ! hash_key v (s_bucket_count t))"
    "s_buckets t ! hash_key v (s_bucket_count t) ! p = v" by auto
  moreover from this i have "v \<in> elems t" unfolding elems_def set_concat by (metis UN_I nth_mem)
  ultimately show thesis using present Some pos by blast
qed

lemma count_elems:
  assumes "wf_value (VSet t)"
  shows "s_count t = card (elems t)" "s_count t = length (concat (s_buckets t))" "distinct (concat (s_buckets t))"
proof -
  show len: "s_count t = length (concat (s_buckets t))"
    using assms sum_list_map_concat [of "\<lambda>_. 1" "s_buckets t"] by (simp add: sum_list_triv)
  show d: "distinct (concat (s_buckets t))"
    using members.distinct_concat_placed [of "s_buckets t"] assms by simp
  show "s_count t = card (elems t)" using len distinct_card [OF d] by (simp add: elems_def del: set_concat)
qed

lemma value_bytes_set:
  "wf_value (VSet t) \<Longrightarrow> value_bytes (VSet t) = sizeof_kv_set + s_bucket_count t * sizeof_ptr +
     table_sum (\<lambda>v. sizeof_kv_set_node + length v + 1) (s_buckets t)"
  by (simp add: set_destroy_def)

lemma set_link_spec:
  assumes "wf_value (VSet t)" and "v \<notin> elems t" and "valid_value v" and "cstring v"
  shows "wf_value (VSet (set_link v t))" "elems (set_link v t) = insert v (elems t)"
    "value_bytes (VSet (set_link v t)) = value_bytes (VSet t) + (sizeof_kv_set_node + length v + 1)"
proof -
  let ?i = "hash_key v (length (s_buckets t))"
  have len: "s_bucket_count t = length (s_buckets t)" and ne: "s_buckets t \<noteq> []" using assms(1) by auto
  have i: "?i < length (s_buckets t)" using ne by (simp add: hash_key_less)
  have none: "table_find hash_key (\<lambda>m. m) (s_buckets t) v = None" using elems_find assms(1,2) by blast
  have el: "\<forall>b\<in>set (push_at ?i v (s_buckets t)). \<forall>v\<in>set b. valid_value v \<and> cstring v"
    using assms i by (fastforce simp: push_at_def dest!: set_update_subset_insert [THEN subsetD])
  show wf: "wf_value (VSet (set_link v t))"
    using assms(1) len i el members.placed_push [of "s_buckets t" v] none ne
    by (simp add: set_link_def) (simp add: push_at_def)
  show "elems (set_link v t) = insert v (elems t)"
  proof (rule set_eqI)
    fix x
    have "s_buckets (set_link v t) = push_at ?i v (s_buckets t)" by (simp add: set_link_def len)
    then show "x \<in> elems (set_link v t) \<longleftrightarrow> x \<in> insert v (elems t)"
      unfolding insert_iff elems_find [OF wf] elems_find [OF assms(1)]
      using members.find_push [OF ne, of v x] by simp
  qed
  show "value_bytes (VSet (set_link v t)) = value_bytes (VSet t) + (sizeof_kv_set_node + length v + 1)"
    unfolding value_bytes_set [OF wf] value_bytes_set [OF assms(1)] using i len by (simp add: set_link_def)
qed

lemma set_unlink_spec:
  assumes "wf_value (VSet t)" and "i < length (s_buckets t)" and "p < length (s_buckets t ! i)"
    and "s_buckets t ! i ! p = v"
  shows "wf_value (VSet (set_unlink (i, p) t))" "elems (set_unlink (i, p) t) = elems t - {v}"
    "value_bytes (VSet t) = value_bytes (VSet (set_unlink (i, p) t)) + (sizeof_kv_set_node + length v + 1)"
proof -
  have pl: "placed hash_key (\<lambda>m. m) (s_buckets t)" and len: "s_bucket_count t = length (s_buckets t)"
    using assms(1) by auto
  have el: "\<forall>b\<in>set (remove_at i p (s_buckets t)). \<forall>v\<in>set b. valid_value v \<and> cstring v"
    using assms(1,2) set_remove_nth_subset [of p "s_buckets t ! i"]
    by (fastforce simp: remove_at_def dest!: set_update_subset_insert [THEN subsetD])
  show wf: "wf_value (VSet (set_unlink (i, p) t))"
    using assms(1) el members.placed_remove [OF pl, of i p] table_sum_remove_at [OF assms(2,3), of "\<lambda>_. 1"]
    by (auto simp: set_unlink_def remove_at_def)
  show "elems (set_unlink (i, p) t) = elems t - {v}"
  proof (rule set_eqI)
    fix x
    have "s_buckets (set_unlink (i, p) t) = remove_at i p (s_buckets t)" by (simp add: set_unlink_def)
    then show "x \<in> elems (set_unlink (i, p) t) \<longleftrightarrow> x \<in> elems t - {v}"
      unfolding Diff_iff elems_find [OF wf] elems_find [OF assms(1)]
      using members.find_remove [OF pl assms(2,3), of x] assms(4) by simp
  qed
  show "value_bytes (VSet t) = value_bytes (VSet (set_unlink (i, p) t)) + (sizeof_kv_set_node + length v + 1)"
    unfolding value_bytes_set [OF wf] value_bytes_set [OF assms(1)]
    using table_sum_remove_at [OF assms(2,3), of "\<lambda>v. sizeof_kv_set_node + length v + 1"] assms(4)
    by (simp add: set_unlink_def)
qed

lemma empty_set_spec: "wf_value (VSet empty_set_value)" "elems empty_set_value = {}"
  "value_bytes (VSet empty_set_value) = sizeof_kv_set + 16 * sizeof_ptr"
proof -
  have "placed hash_key (\<lambda>m. m) (replicate 16 [] :: string list list)" by (rule members.placed_empty)
  then show wf: "wf_value (VSet empty_set_value)" by (simp add: empty_set_value_def)
  show "elems empty_set_value = {}" by (simp add: elems_def empty_set_value_def)
  show "value_bytes (VSet empty_set_value) = sizeof_kv_set + 16 * sizeof_ptr"
    unfolding value_bytes_set [OF wf] by (simp add: empty_set_value_def)
qed

text \<open>The set a key holds at a given time.\<close>

definition members_at :: "kv_store \<Rightarrow> int \<Rightarrow> string \<Rightarrow> string set" where
  "members_at s now k =
     (case live_entry s now k of
        Some e \<Rightarrow> (case e_value e of VSet t \<Rightarrow> elems t | _ \<Rightarrow> {}) | None \<Rightarrow> {})"

section \<open>Adding\<close>

lemma sadd_node_cases [consumes 5]:
  assumes "wf_store base (st w)" and "cstring v" and "valid_value v" and "lookup (st w) k = Some e"
    and "e_value e = VSet t \<and> v \<notin> elems t"
  obtains (refused) r w' where "sadd_node k v w = Inr (r, w')" "r \<in> {KV_ERR_BUDGET_EXCEEDED, KV_ERR_INTERNAL}"
      "only_evicted (st w) (st w')" "wf_store base (st w')" "isl (fst (room_for_node sizeof_kv_set_node v w))"
  | (freed) "sadd_node k v w = Inl Use_After_Free" "max_memory_budget (st w) > 0"
  | (added) w' u where "sadd_node k v w = Inr (1, w')" "only_evicted (st w) u"
      "lookup (st w') = (lookup u)(k \<mapsto> e\<lparr>e_value := VSet (set_link v t)\<rparr>)" "same_settings u (st w')"
      "wf_store base (st w')" "within_budget (st w')"
proof (cases "room_for_node sizeof_kv_set_node v w")
  case (Pair r w1)
  note room = room_for_node_spec [OF assms(1,2) Pair]
  show thesis
  proof (cases r)
    case (Inl err)
    with Pair room room_for_node_error [of sizeof_kv_set_node v w err w1] show thesis
      by (intro refused [of err w1]) (simp_all add: sadd_node_def)
  next
    case (Inr v')
    show thesis
    proof (cases "locate (st w1) k")
      case None
      with Inr Pair evicted_only_with_budget [OF room(1,2) assms(4)] show thesis
        by (intro freed) (simp_all add: sadd_node_def)
    next
      case (Some ptr)
      have wft: "wf_value (VSet t)"
        using lookup_wf [OF assms(1,4)] assms(5) by (simp add: wf_entry_def)
      note link = set_link_spec [OF wft _ assms(3,2)]
      have bytes: "value_bytes (VSet (set_link v t)) = value_bytes (e_value e) + (sizeof_kv_set_node + length v + 1)"
        using assms(5) link(3) by simp
      have wfl: "wf_value (VSet (set_link v t))" using link(1) assms(5) by blast
      note upd = room_then_update [OF assms(1,2) Pair [unfolded Inr] assms(4) Some wfl bytes]
      define w2 where
        "w2 = append_record2 ''SADD'' k v (log_quietly (record2 ''SADD'' k v) (w1\<lparr>st :=
           add_bytes (sizeof_kv_set_node + length v + 1)
             (set_entry ptr (\<lambda>e. e\<lparr>e_value := VSet (set_link v t)\<rparr>) (st w1))\<rparr>))"
      have "sadd_node k v w = Inr (1, w2)"
        using Inr Pair Some upd(1) assms(5) room(3) [OF Inr] by (simp add: sadd_node_def Let_def w2_def)
      then show thesis
        using added [of w2 "st w1"] room(2) upd by (simp add: w2_def)
    qed
  qed
qed

lemma alloc_set_st: "st (snd (alloc_set w)) = st w"
  by (simp add: alloc_set_def split_beta Let_def frame)

lemma kv_sadd_cases [consumes 3]:
  assumes "wf_store base (st w)" and "cstring k" and "cstring v"
  obtains (refused) r w' where "kv_sadd (Some k) (Some v) w = Inr (r, w')" "r < 0" "wf_store base (st w')"
      "same_settings (st w) (st w')" "within_budget (st w) \<longrightarrow> within_budget (st w')"
      "(lookup (st w'))(k := None) \<subseteq>\<^sub>m lookup (st w)"
  | (freed) "kv_sadd (Some k) (Some v) w = Inl Use_After_Free" "max_memory_budget (st w) > 0"
  | (member) w' e t where "kv_sadd (Some k) (Some v) w = Inr (0, w')"
      "open_value (VSet empty_set_value) (live_entry (st w) (now_of w) k) = (VSet t, expire_at_ms e)"
      "v \<in> elems t" "stored k e (st w) (st w')" "e_value e = VSet t" "wf_store base (st w')"
      "within_budget (st w) \<longrightarrow> within_budget (st w')"
  | (added) w' e t where "kv_sadd (Some k) (Some v) w = Inr (1, w')" "valid_value v"
      "open_value (VSet empty_set_value) (live_entry (st w) (now_of w) k) = (VSet t, expire_at_ms e)"
      "v \<notin> elems t" "wf_value (VSet t)" "stored k e (st w) (st w')" "e_value e = VSet (set_link v t)"
      "wf_store base (st w')" "within_budget (st w')"
proof (cases "lock_initialized (st w) \<and> valid_key k \<and> valid_value v")
  case False
  have kv: "validate_key (Some k) = Inr n \<Longrightarrow> validate_value (Some v) = Inr m \<Longrightarrow> \<not> lock_initialized (st w)" for n m
    using False assms(2,3) by (simp add: validate_key_Inr validate_value_Inr)
  have "\<exists>r. kv_sadd (Some k) (Some v) w = Inr (r, w) \<and> r < 0"
    using validate_key_error [of "Some k"] validate_value_error [of "Some v"] kv
    by (cases "validate_key (Some k)"; cases "validate_value (Some v)") (auto simp: kv_sadd_def)
  then obtain r where "kv_sadd (Some k) (Some v) w = Inr (r, w)" "r < 0" by blast
  with assms(1) show thesis by (intro refused) (auto simp: map_le_def)
next
  case True
  define bytes where "bytes = sizeof_kv_entry + length k + 1 + sizeof_kv_set + 16 * sizeof_ptr + (sizeof_kv_set_node + length v + 1)"
  define w1 where "w1 = snd (coll_acquire bytes k w)"
  define g where "g = fst (coll_acquire bytes k w)"
  have w1: "st w1 = st w" "now_of w1 = now_of w" by (simp_all add: w1_def frame)
  define q where "q = obtain_entry KV_TYPE_SET (VSet empty_set_value) alloc_set k w1"
  have run: "kv_sadd (Some k) (Some v) w =
    (if fst q \<noteq> KV_OK then Inr (fst q, set_release g k (snd q))
     else case sadd_member k v (snd q) of Inl ub \<Rightarrow> Inl ub | Inr (res, w3) \<Rightarrow> Inr (res, set_release g k w3))"
    using True assms(2,3) unfolding w1_def g_def q_def bytes_def
    by (simp add: kv_sadd_def Let_def split_beta split: sum.split)
  have wf1: "wf_store base (st w1)" and k: "valid_key k" and v: "valid_value v"
    using assms(1) w1 True by simp_all
  have fresh: "type_of (VSet empty_set_value) = KV_TYPE_SET" by simp
  from wf1 assms(2) k empty_set_spec(1) alloc_set_st fresh show thesis
  proof (cases rule: obtain_entry_cases)
    case refused
    then have "kv_sadd (Some k) (Some v) w = Inr (fst q, set_release g k (snd q))" "fst q < 0"
      using run obtain_entry_error by (auto simp: q_def)
    then show thesis
      using that(1) refused shrunk_settings [OF refused(2)] shrunk_within_budget [OF refused(2)]
        shrunk_other_keys [OF refused(2)] w1 by (simp add: q_def [symmetric] frame)
  next
    case (ready e0)
    then have q: "fst q = KV_OK" "stored k e0 (st w) (st (snd q))" "wf_store base (st (snd q))"
      "within_budget (st w) \<longrightarrow> within_budget (st (snd q))"
      using w1 by (simp_all add: q_def)
    from ready(4) obtain t where t: "e_value e0 = VSet t" by (cases "e_value e0") simp_all
    have look: "lookup (st (snd q)) k = Some e0" and set0: "same_settings (st w) (st (snd q))"
      using q(2) by (simp_all add: stored_def)
    have wft: "wf_value (VSet t)" using lookup_wf [OF q(3) look] t by (simp add: wf_entry_def)
    from locate_None [OF q(3), of k] look obtain ptr where ptr: "locate (st (snd q)) k = Some ptr" by fastforce
    have "deref (st (snd q)) ptr = e0" using locate_Some(3) [OF q(3) ptr] look by simp
    then have mem: "sadd_member k v (snd q) = (if set_find v t \<noteq> None then Inr (0, snd q) else sadd_node k v (snd q))"
      using ptr t by (simp add: sadd_member_def)
    from wft show thesis
    proof (cases rule: set_find_cases [where v = v])
      case (present i p)
      then show thesis
        using that(3) [of "set_release g k (snd q)" t e0] run q mem ready(3) t w1 by (simp add: frame)
    next
      case absent
      then have run': "sadd_member k v (snd q) = sadd_node k v (snd q)" using mem by simp
      from t absent(2) have tv: "e_value e0 = VSet t \<and> v \<notin> elems t" by simp
      from q(3) assms(3) v look tv show thesis
      proof (cases rule: sadd_node_cases)
        case (refused r w')
        then show thesis
          using that(1) [of r "set_release g k w'"] run run' q only_evictedD [OF refused(3)]
            stored_other_keys [OF q(2) refused(3)] same_settings_trans [OF set0] by (auto simp: frame)
      next
        case freed
        then show thesis using that(2) run run' q(1) set0 by (simp add: same_settings_def)
      next
        case (added w' u)
        then show thesis
          using that(4) [of "set_release g k w'" t "e0\<lparr>e_value := VSet (set_link v t)\<rparr>"] run run' q(1) v
            stored_then_update [OF q(2) added(2-4)] ready(3) t w1 wft absent(2) by (simp add: frame)
      qed
    qed
  qed
qed

section \<open>When adding must succeed\<close>

lemma alloc_set_no_oom: "no_oom w \<Longrightarrow> fst (alloc_set w) \<and> no_oom (snd (alloc_set w))"
  using tracked_calloc_no_oom [of w 1 sizeof_kv_set]
    tracked_calloc_no_oom [of "snd (tracked_calloc 1 sizeof_kv_set w)" 16 sizeof_ptr]
  by (simp add: alloc_set_def split_beta Let_def)

lemma kv_sadd_total:
  assumes "wf_store base (st w)" and "lock_initialized (st w)" and "no_oom w"
    and "cstring k" and "valid_key k" and "cstring v" and "valid_value v"
    and "max_memory_budget (st w) = 0" and "max_capacity (st w) = 0"
    and "\<And>e. live_entry (st w) (now_of w) k = Some e \<Longrightarrow> e_type e = KV_TYPE_SET"
  obtains w' where "kv_sadd (Some k) (Some v) w = Inr (if v \<in> members_at (st w) (now_of w) k then 0 else 1, w')"
proof -
  define bytes where "bytes = sizeof_kv_entry + length k + 1 + sizeof_kv_set + 16 * sizeof_ptr + (sizeof_kv_set_node + length v + 1)"
  define w1 where "w1 = snd (coll_acquire bytes k w)"
  have w1: "wf_store base (st w1)" "st w1 = st w" "now_of w1 = now_of w" "no_oom w1"
    using assms(1,3) by (simp_all add: w1_def frame no_oom_def)
  define q where "q = obtain_entry KV_TYPE_SET (VSet empty_set_value) alloc_set k w1"
  have q: "fst q = KV_OK" "no_oom (snd q)"
    unfolding q_def using assms w1 alloc_set_no_oom by (auto intro!: obtain_entry_total [OF w1(1)])
  have run: "kv_sadd (Some k) (Some v) w =
    (case sadd_member k v (snd q) of Inl ub \<Rightarrow> Inl ub
     | Inr (res, w3) \<Rightarrow> Inr (res, set_release (fst (coll_acquire bytes k w)) k w3))"
    using q(1) assms(2,4-7) unfolding w1_def q_def bytes_def
    by (simp add: kv_sadd_def Let_def split_beta split: sum.split)
  have fresh: "type_of (VSet empty_set_value) = KV_TYPE_SET" by simp
  from w1(1) assms(4,5) empty_set_spec(1) alloc_set_st fresh show thesis
  proof (cases rule: obtain_entry_cases)
    case refused
    then show thesis using q(1) by (simp add: q_def)
  next
    case (ready e0)
    then have r: "lookup (st (snd q)) k = Some e0" "max_memory_budget (st (snd q)) = 0" "wf_store base (st (snd q))"
      using w1(2) assms(8) by (simp_all add: q_def stored_def same_settings_def)
    from ready(4) obtain t where t: "e_value e0 = VSet t" by (cases "e_value e0") simp_all
    have wft: "wf_value (VSet t)" using lookup_wf [OF r(3,1)] t by (simp add: wf_entry_def)
    from locate_None [OF r(3), of k] r(1) obtain ptr where ptr: "locate (st (snd q)) k = Some ptr" by fastforce
    have "deref (st (snd q)) ptr = e0" using locate_Some(3) [OF r(3) ptr] r(1) by simp
    then have mem: "sadd_member k v (snd q) = (if set_find v t \<noteq> None then Inr (0, snd q) else sadd_node k v (snd q))"
      using ptr t by (simp add: sadd_member_def)
    have before: "members_at (st w) (now_of w) k = elems t"
      using ready(3) t w1
      by (auto simp: members_at_def open_value_def empty_set_spec(2) split: option.splits kv_value.splits)
    from wft show thesis
    proof (cases rule: set_find_cases [where v = v])
      case (present i p)
      with that mem run before show thesis by simp
    next
      case absent
      moreover have ok: "fst (room_for_node sizeof_kv_set_node v (snd q)) = Inr v"
        using q(2) assms(6,7) r(2) by (intro room_for_node_total) auto
      moreover from t absent(2) have tv: "e_value e0 = VSet t \<and> v \<notin> elems t" by simp
      from r(3) assms(6,7) r(1) tv obtain w' where "sadd_node k v (snd q) = Inr (1, w')"
        by (cases rule: sadd_node_cases) (use ok r(2) in auto)
      ultimately show thesis using that mem run before by simp
    qed
  qed
qed

section \<open>Removing\<close>

lemma srem_entry_cases [consumes 4]:
  assumes "wf_store base (st w)" and "valid_ptr (st w) ptr" and "e_key (deref (st w) ptr) = k"
    and "e_value (deref (st w) ptr) = VSet t"
  obtains (absent) "srem_entry k v ptr t w = (0, w)" "v \<notin> elems t"
  | (removed) w' t' where "srem_entry k v ptr t w = (1, w')" "v \<in> elems t" "elems t' = elems t - {v}"
      "wf_store base (st w')" "same_settings (st w) (st w')" "allocated_bytes (st w') \<le> allocated_bytes (st w)"
      "kv_view (st w') = (kv_view (st w))
         (k := (if elems t' = {} then None else Some (VSet t', expire_at_ms (deref (st w) ptr))))"
proof -
  have wft: "wf_value (VSet t)" using wf_store_entry [OF assms(1,2)] assms(4) by (simp add: wf_entry_def)
  have fin: "finite (elems x)" for x by (simp add: elems_def)
  from wft show thesis
  proof (cases rule: set_find_cases [where v = v])
    case absent
    then show thesis using that(1) by (simp add: srem_entry_def)
  next
    case (present i p)
    note pos = present(3-5)
    define t' where "t' = set_unlink (i, p) t"
    note un = set_unlink_spec [OF wft pos, folded t'_def]
    define s1 where "s1 = sub_bytes (sizeof_kv_set_node + length v + 1)
        (set_entry ptr (\<lambda>e. e\<lparr>e_value := VSet t'\<rparr>) (st w))"
    define w2 where "w2 = append_record2 ''SREM'' k v (log_quietly (record2 ''SREM'' k v) (w\<lparr>st := s1\<rparr>))"
    have "value_bytes (e_value (deref (st w) ptr)) = value_bytes (VSet t') + (sizeof_kv_set_node + length v + 1)"
      using un(3) assms(4) by simp
    note s1 = shrink_value_spec [OF assms(1,2) un(1) this, folded s1_def]
    have st2: "st w2 = s1" by (simp add: w2_def)
    have "s_count t \<noteq> 0" using count_elems(1) [OF wft] present(2) fin by auto
    then have run: "srem_entry k v ptr t w = (1, settle (s_count t' = 0) k ptr w2)"
      using present(1) pos(3) by (simp add: srem_entry_def Let_def t'_def w2_def s1_def)
    have key: "e_key (deref (st w2) ptr) = k" using s1(6) assms(3) st2 by simp
    note fin2 = settle_spec [OF _ _ key, of base "s_count t' = 0", unfolded st2, OF s1(1,5)]
    have "s_count t' = 0 \<longleftrightarrow> elems t' = {}" using count_elems(1) [OF un(1)] fin by simp
    then have "kv_view (st (settle (s_count t' = 0) k ptr w2)) = (kv_view (st w))
         (k := (if elems t' = {} then None else Some (VSet t', expire_at_ms (deref (st w) ptr))))"
      using fin2(4) s1(2) assms(3) by (auto simp: kv_view_def fun_eq_iff)
    then show thesis
      using that(2) [OF run present(2) un(2)] fin2(1,3) s1(4) same_settings_trans [OF s1(3) fin2(2)] by simp
  qed
qed

lemma kv_srem_cases [consumes 2]:
  assumes "wf_store base (st w)" and "lock_initialized (st w)"
  obtains (refused) r w' where "kv_srem (Some k) (Some v) w = (r, w')" "r \<noteq> 1" "v \<notin> members_at (st w) (now_of w) k"
      "wf_store base (st w')" "lookup_outcome k w w'"
  | (removed) w' e t t' where "kv_srem (Some k) (Some v) w = (1, w')"
      "live_entry (st w) (now_of w) k = Some e" "e_value e = VSet t" "v \<in> elems t" "elems t' = elems t - {v}"
      "wf_store base (st w')" "same_settings (st w) (st w')" "allocated_bytes (st w') \<le> allocated_bytes (st w)"
      "kv_view (st w') = (kv_view (st w))
         (k := (if elems t' = {} then None else Some (VSet t', expire_at_ms e)))"
  using assms(1)
proof (cases rule: locked_find_cases [where k = k])
  case (absent w2)
  then have "kv_srem (Some k) (Some v) w = (0, kv_release_bucket_lock k w2)"
    using assms(2) by (simp add: kv_srem_def)
  then show thesis by (rule refused) (use absent in \<open>simp_all add: frame lookup_outcome_def members_at_def\<close>)
next
  case (found ptr w2)
  have wf2: "wf_store base (st w2)" "valid_ptr (st w2) ptr" "e_key (deref (st w2) ptr) = k"
    using found assms(1) by simp_all
  have id: "lookup_outcome k w w2" using found by (simp add: lookup_outcome_def)
  show thesis
  proof (cases "e_value (deref (st w2) ptr)")
    case (VSet t)
    have run: "kv_srem (Some k) (Some v) w =
      (let (res, w3) = srem_entry k v ptr t w2 in (res, kv_release_bucket_lock k w3))"
      using assms(2) found(1) VSet by (simp add: kv_srem_def)
    from wf2 VSet show thesis
    proof (cases rule: srem_entry_cases [where v = v])
      case absent
      then have "kv_srem (Some k) (Some v) w = (0, kv_release_bucket_lock k w2)" using run by simp
      then show thesis
        by (rule that(1)) (use absent wf2 id found VSet in \<open>auto simp: frame members_at_def\<close>)
    next
      case (removed w' t')
      then have "kv_srem (Some k) (Some v) w = (1, kv_release_bucket_lock k w')" using run by simp
      then show thesis
        by (rule that(2)) (use removed found VSet in \<open>auto simp: frame\<close>)
    qed
  next
    case (VString x)
    then have "kv_srem (Some k) (Some v) w = (KV_ERR_WRONG_TYPE, kv_release_bucket_lock k w2)"
      using assms(2) found(1) by (simp add: kv_srem_def)
    then show thesis
      by (rule refused) (use wf2 id found VString in \<open>simp_all add: frame members_at_def\<close>)
  next
    case (VList x)
    then have "kv_srem (Some k) (Some v) w = (KV_ERR_WRONG_TYPE, kv_release_bucket_lock k w2)"
      using assms(2) found(1) by (simp add: kv_srem_def)
    then show thesis
      by (rule refused) (use wf2 id found VList in \<open>simp_all add: frame members_at_def\<close>)
  qed
qed

section \<open>Reading\<close>

lemma lookup_outcome_touch:
  assumes "wf_store base (st w)" and "valid_ptr (st w) ptr" and "live_entry (st w) (now_of w) k \<noteq> None"
    and "st w' = touch ptr (st w)"
  shows "wf_store base (st w')" "lookup_outcome k w w'"
  using assms wf_touch [OF assms(1,2)] kv_view_touch [OF assms(1,2)]
  by (auto simp: lookup_outcome_def same_settings_def)

lemma lookup_outcome_same:
  assumes "live_entry (st w) (now_of w) k \<noteq> None" and "st w' = st w"
  shows "lookup_outcome k w w'"
  using assms by (auto simp: lookup_outcome_def)

lemma kv_llen_spec:
  assumes "wf_store base (st w)" and "lock_initialized (st w)" and "kv_llen (Some k) w = (r, w')"
  shows "wf_store base (st w') \<and> lookup_outcome k w w' \<and>
    (r = KV_ERR_WRONG_TYPE \<or> r = c_int (length (queue_at (st w) (now_of w) k)))"
  using assms(1)
proof (cases rule: locked_find_cases [where k = k])
  case (absent w2)
  with assms show ?thesis by (auto simp: kv_llen_def frame lookup_outcome_def queue_at_def)
next
  case (found ptr w2)
  have len: "l_count l = length (l_nodes l)" if "e_value (deref (st w) ptr) = VList l" for l
    using wf_store_entry [OF assms(1) found(4)] that by (simp add: wf_entry_def)
  show ?thesis
    using assms found lookup_outcome_touch [OF assms(1) found(4), of k "kv_release_bucket_lock k (upd_st (touch ptr) w2)"]
      lookup_outcome_same [of w k w2]
    by (auto simp: kv_llen_def frame queue_at_def len split: kv_value.splits)
qed

lemma kv_scard_spec:
  assumes "wf_store base (st w)" and "lock_initialized (st w)" and "kv_scard (Some k) w = (r, w')"
  shows "wf_store base (st w') \<and> lookup_outcome k w w' \<and>
    (r = KV_ERR_WRONG_TYPE \<or> r = c_int (card (members_at (st w) (now_of w) k)))"
  using assms(1)
proof (cases rule: locked_find_cases [where k = k])
  case (absent w2)
  with assms show ?thesis by (auto simp: kv_scard_def frame lookup_outcome_def members_at_def)
next
  case (found ptr w2)
  have len: "s_count t = card (elems t)" if "e_value (deref (st w) ptr) = VSet t" for t
    using wf_store_entry [OF assms(1) found(4)] that by (intro count_elems) (simp add: wf_entry_def)
  show ?thesis
    using assms found lookup_outcome_touch [OF assms(1) found(4), of k "kv_release_bucket_lock k (upd_st (touch ptr) w2)"]
      lookup_outcome_same [of w k w2]
    by (auto simp: kv_scard_def frame members_at_def len split: kv_value.splits)
qed

lemma kv_smembers_spec:
  assumes "wf_store base (st w)" and "lock_initialized (st w)" and "kv_smembers (Some k) w = (ms, n, w')"
  shows "wf_store base (st w') \<and> lookup_outcome k w w' \<and>
    (case ms of
       Some vs \<Rightarrow> distinct vs \<and> set vs = members_at (st w) (now_of w) k \<and> n = length vs
     | None \<Rightarrow> n = 0 \<and> ((\<forall>i. malloc_ok (os w) i) \<longrightarrow> members_at (st w) (now_of w) k = {}))"
  using assms(1)
proof (cases rule: locked_find_cases [where k = k])
  case (absent w2)
  with assms show ?thesis by (auto simp: kv_smembers_def frame lookup_outcome_def members_at_def)
next
  case (found ptr w2)
  have ok: "malloc_ok (os w2) = malloc_ok (os w)"
  proof -
    have "malloc_ok (os (snd (find_entry_unlocked k u))) = malloc_ok (os u)" for u
      by (auto simp: find_entry_unlocked_def kv_current_time_ms_def split_beta Let_def split: option.split)
    from this [of "kv_acquire_bucket_lock k w"] found(1) show ?thesis by (simp add: frame)
  qed
  have same: "wf_store base (st (kv_release_bucket_lock k u)) \<and> lookup_outcome k w (kv_release_bucket_lock k u)"
    if "st u = st w" for u
    using that assms(1) found(2) lookup_outcome_same [of w k u] by (simp add: frame)
  have touched: "wf_store base (st (kv_release_bucket_lock k (upd_st (touch ptr) u))) \<and>
      lookup_outcome k w (kv_release_bucket_lock k (upd_st (touch ptr) u))" if "st u = st w" for u
    using that found(2) lookup_outcome_touch [OF assms(1) found(4), of k "upd_st (touch ptr) u"] by (simp add: frame)
  show ?thesis
  proof (cases "e_value (deref (st w) ptr)")
    case (VSet t)
    have mem: "members_at (st w) (now_of w) k = elems t" using found(2) VSet by (simp add: members_at_def)
    have wft: "wf_value (VSet t)"
      using wf_store_entry [OF assms(1) found(4)] VSet by (simp add: wf_entry_def)
    note cnt = count_elems [OF wft]
    have all: "take (s_bucket_count t) (s_buckets t) = s_buckets t" using wft by simp
    have none: "s_count t = 0 \<Longrightarrow> elems t = {}" using cnt(2) by (simp add: elems_def)
    have run: "kv_smembers (Some k) w =
      (if s_count t = 0 then (None, 0, kv_release_bucket_lock k w2)
       else if \<not> fst (libc_malloc w2) then (None, 0, kv_release_bucket_lock k (snd (libc_malloc w2)))
       else (Some (concat (s_buckets t)), s_count t,
             kv_release_bucket_lock k (upd_st (touch ptr) (snd (libc_malloc w2)))))"
      using assms(2) found(1,3) VSet all by (simp add: kv_smembers_def split_beta Let_def)
    have mok: "fst (libc_malloc w2)" if "\<forall>i. malloc_ok (os w) i" using that ok by (simp add: libc_malloc_def)
    have "wf_store base (st w') \<and> lookup_outcome k w w'"
      using same [of w2] same [of "snd (libc_malloc w2)"] touched [of "snd (libc_malloc w2)"] found(3) assms(3) run
      by (auto simp: libc_malloc_frame split: if_splits)
    moreover have "case ms of
       Some vs \<Rightarrow> distinct vs \<and> set vs = elems t \<and> n = length vs
     | None \<Rightarrow> n = 0 \<and> ((\<forall>i. malloc_ok (os w) i) \<longrightarrow> elems t = {})"
      using assms(3) run cnt(2,3) none mok by (auto simp: elems_def simp del: set_concat length_concat split: if_splits)
    ultimately show ?thesis unfolding mem by blast
  qed (use assms(2,3) found same [of w2] in \<open>auto simp: kv_smembers_def members_at_def\<close>)
qed

section \<open>Properties\<close>

definition set_value :: "string list \<Rightarrow> kv_set_t" where
  "set_value vs = fold set_link vs empty_set_value"

definition set_entry_of :: "string \<Rightarrow> string list \<Rightarrow> kv_entry" where
  "set_entry_of k vs = \<lparr>e_key = k, e_value = VSet (set_value vs), expire_at_ms = 0, last_accessed_time = 0\<rparr>"

lemma set_example [simp]:
  "wf_value (VSet (set_value [''1'']))" "elems (set_value [''1'']) = {''1''}"
  using set_link_spec [OF empty_set_spec(1), of "''1''"] empty_set_spec(2) by (simp_all add: set_value_def)

lemma set_entry_of_sel [simp]:
  "e_key (set_entry_of k vs) = k" "e_value (set_entry_of k vs) = VSet (set_value vs)"
  "expire_at_ms (set_entry_of k vs) = 0" "\<not> entry_is_expired (set_entry_of k vs) now"
  by (simp_all add: set_entry_of_def entry_is_expired_def)

lemma wf_set_example [simp]: "wf_entry (set_entry_of ''a'' [''1''])"
  unfolding wf_entry_def by (simp del: wf_value.simps)

lemma members_at_example [simp]: "members_at (singleton_store b (set_entry_of k vs)) now k = elems (set_value vs)"
  by (simp add: members_at_def live_entry_def)

text \<open>C34. \<^verbatim>\<open>kv_sadd\<close> adds a member: it returns one exactly when the value was not in the set the
  key holds (a fresh set if the key was absent or expired), zero when it was; the set
  afterwards is the old one with the value, and every other key is kept or evicted.\<close>

theorem kv_sadd_inserts:
  assumes "wf_store base (st w)" and "cstring k" and "cstring v"
    and "kv_sadd (Some k) (Some v) w = Inr (r, w')" and "0 \<le> r"
  shows "wf_store base (st w') \<and> (within_budget (st w) \<longrightarrow> within_budget (st w')) \<and>
    r = (if v \<in> members_at (st w) (now_of w) k then 0 else 1) \<and>
    members_at (st w') (now_of w) k = insert v (members_at (st w) (now_of w) k) \<and>
    (\<forall>k'. k' \<noteq> k \<longrightarrow> lookup (st w') k' \<in> {None, lookup (st w) k'})"
proof -
  have after: "members_at (st u) (now_of w) k = elems t'" "k' \<noteq> k \<Longrightarrow> lookup (st u) k' \<in> {None, lookup (st w) k'}"
    if "stored k e (st w) (st u)" and "e_value e = VSet t'"
      and "open_value (VSet empty_set_value) (live_entry (st w) (now_of w) k) = (VSet t, expire_at_ms e)" for u e t t' k'
  proof -
    have "\<not> entry_is_expired e (now_of w)"
      using that(3)
      by (auto simp: open_value_def live_entry_def entry_is_expired_def split: option.splits if_splits)
    with that(1,2) show "members_at (st u) (now_of w) k = elems t'"
      by (simp add: stored_def members_at_def live_entry_def)
    assume "k' \<noteq> k"
    with that(1) show "lookup (st u) k' \<in> {None, lookup (st w) k'}"
      by (cases "lookup (st u) k'") (auto simp: stored_def map_le_def dom_def split: if_splits)
  qed
  have before: "members_at (st w) (now_of w) k = elems t"
    if "open_value (VSet empty_set_value) (live_entry (st w) (now_of w) k) = (VSet t, x)" for t x
    using that by (auto simp: open_value_def members_at_def empty_set_spec(2) split: option.splits)
  from assms(1-3) show ?thesis
  proof (cases rule: kv_sadd_cases)
    case (member u e t)
    with assms(4) after [OF member(4,5,2)] before [OF member(2)] show ?thesis by auto
  next
    case (added u e t)
    with assms(4) after [OF added(6,7,3)] before [OF added(3)] set_link_spec(2) [OF added(5,4,2) assms(3)] show ?thesis
      by auto
  qed (use assms(4,5) in simp_all)
qed

theorem kv_sadd_inserts_witness:
  "\<exists>w'. kv_sadd (Some ''a'') (Some ''2'') (quiet_world 7 (singleton_store 0 (set_entry_of ''a'' [''1'']))) = Inr (1, w') \<and>
     members_at (st w') 7 ''a'' = {''1'', ''2''}"
proof -
  let ?w = "quiet_world 7 (singleton_store 0 (set_entry_of ''a'' [''1'']))"
  obtain w' where run: "kv_sadd (Some ''a'') (Some ''2'') ?w = Inr (1, w')"
    by (rule kv_sadd_total [of 0 ?w "''a''" "''2''"]) (auto simp: live_entry_def)
  with kv_sadd_inserts [of 0 ?w "''a''" "''2''", OF _ _ _ run] show ?thesis by auto
qed

text \<open>C35. \<^verbatim>\<open>kv_srem\<close> removes a member: it returns one exactly when the value was in the set, the
  set afterwards is the old one without the value, the key goes with its last member, and no
  other key is touched.\<close>

theorem kv_srem_removes:
  assumes "wf_store base (st w)" and "lock_initialized (st w)" and "kv_srem (Some k) (Some v) w = (r, w')"
  shows "wf_store base (st w') \<and> (r = 1 \<longleftrightarrow> v \<in> members_at (st w) (now_of w) k) \<and>
    members_at (st w') (now_of w) k = members_at (st w) (now_of w) k - {v} \<and>
    (r = 1 \<and> members_at (st w') (now_of w) k = {} \<longrightarrow> lookup (st w') k = None) \<and>
    (\<forall>k'. k' \<noteq> k \<longrightarrow> kv_view (st w') k' = kv_view (st w) k')"
  using assms(1,2)
proof (cases rule: kv_srem_cases [where k = k and v = v])
  case (refused r' u)
  have "members_at (st u) (now_of w) k = members_at (st w) (now_of w) k"
  proof (cases "live_entry (st w) (now_of w) k")
    case None
    with refused(5) have "lookup (st u) k = None"
      by (auto simp: lookup_outcome_def kv_view_def dest: fun_cong [of _ _ k])
    with None show ?thesis by (simp add: members_at_def live_entry_def)
  next
    case (Some e)
    with refused(5) have "kv_view (st u) k = kv_view (st w) k" by (simp add: lookup_outcome_def)
    then show ?thesis
      by (auto simp: kv_view_def members_at_def live_entry_def entry_is_expired_def split: option.splits)
  qed
  with assms(3) refused show ?thesis by (auto simp: lookup_outcome_def)
next
  case (removed u e t t')
  note live = removed(2) and val = removed(3) and view = removed(9)
  have before: "members_at (st w) (now_of w) k = elems t" using live val by (simp add: members_at_def)
  have "members_at (st u) (now_of w) k = elems t' \<and> (elems t' = {} \<longrightarrow> lookup (st u) k = None)"
  proof (cases "elems t' = {}")
    case True
    with view have "lookup (st u) k = None" by (auto simp: kv_view_def dest: fun_cong [of _ _ k])
    with True show ?thesis by (simp add: members_at_def live_entry_def)
  next
    case False
    with view have "kv_view (st u) k = Some (VSet t', expire_at_ms e)" by simp
    then obtain e' where "lookup (st u) k = Some e'" "e_value e' = VSet t'" "expire_at_ms e' = expire_at_ms e"
      by (auto simp: kv_view_def)
    moreover have "\<not> entry_is_expired e (now_of w)"
      using live by (auto simp: live_entry_def split: option.splits if_splits)
    ultimately show ?thesis using False by (simp add: members_at_def live_entry_def entry_is_expired_def)
  qed
  with before assms(3) removed(1,4,5,6) view show ?thesis by auto
qed

theorem kv_srem_removes_witness:
  "fst (kv_srem (Some ''a'') (Some ''1'') (quiet_world 7 (singleton_store 0 (set_entry_of ''a'' [''1''])))) = 1 \<and>
   lookup (st (snd (kv_srem (Some ''a'') (Some ''1'') (quiet_world 7 (singleton_store 0 (set_entry_of ''a'' [''1''])))))) ''a'' = None"
  using kv_srem_removes [of 0 "quiet_world 7 (singleton_store 0 (set_entry_of ''a'' [''1'']))" "''a''" "''1''",
      OF _ _ prod.collapse [symmetric]]
  by simp

text \<open>\<^verbatim>\<open>kv_smembers\<close> lists every member exactly once and reports their number; it returns no
  array only when the set is empty or memory runs out.\<close>

lemma kv_smembers_complete:
  assumes "wf_store base (st w)" and "lock_initialized (st w)" and "kv_smembers (Some k) w = (ms, n, w')"
  shows "case ms of
       Some vs \<Rightarrow> distinct vs \<and> set vs = members_at (st w) (now_of w) k \<and> n = length vs
     | None \<Rightarrow> n = 0 \<and> ((\<forall>i. malloc_ok (os w) i) \<longrightarrow> members_at (st w) (now_of w) k = {})"
  using kv_smembers_spec [OF assms] by blast

lemma kv_smembers_complete_witness:
  "fst (kv_smembers (Some ''a'') (quiet_world 7 (singleton_store 0 (set_entry_of ''a'' [''1''])))) = Some [''1'']"
proof -
  let ?w = "quiet_world 7 (singleton_store 0 (set_entry_of ''a'' [''1'']))"
  obtain ms n w' where run: "kv_smembers (Some ''a'') ?w = (ms, n, w')" by (metis prod_cases3)
  have "\<forall>i. malloc_ok (os ?w) i" by (simp add: quiet_world_def quiet_os_def)
  moreover have "members_at (st ?w) (now_of ?w) ''a'' = {''1''}" by simp
  moreover note kv_smembers_complete [of 0 ?w "''a''", OF _ _ run]
  ultimately obtain vs where vs: "ms = Some vs" "distinct vs" "set vs = {''1''}"
    by (cases ms) simp_all
  have "length vs = 1" using distinct_card [OF vs(2)] vs(3) by simp
  then obtain x where "vs = [x]" by (cases vs) simp_all
  with vs show ?thesis using run by simp
qed

end
