(* ===== verification/KV_Expire.thy ===== *)
theory KV_Expire
  imports KV_Sets
begin

text \<open>
  Expiry commands of \<^verbatim>\<open>src/eviction.c\<close>. Deadlines are absolute times in milliseconds and zero
  means none. The additions and subtractions are on \<^verbatim>\<open>int64_t\<close>: where a sum leaves 64 bits the C
  program is undefined, and the model returns \<open>Signed_Overflow\<close>.
\<close>

section \<open>Commands\<close>

definition kv_set_expire_at_ms_internal :: "cstr \<Rightarrow> int \<Rightarrow> world \<Rightarrow> world" where
  "kv_set_expire_at_ms_internal key t w =
     (case key of
        None \<Rightarrow> w
      | Some k \<Rightarrow>
          if buckets (st w) = [] then w
          else (case locate (st w) k of
                  None \<Rightarrow> w
                | Some ptr \<Rightarrow> upd_st (set_entry ptr (\<lambda>e. e\<lparr>expire_at_ms := t\<rparr>)) w))"

definition write_aof_pexpireat :: "string \<Rightarrow> int \<Rightarrow> world \<Rightarrow> int \<times> int \<times> world" where
  "write_aof_pexpireat k t w = write_aof_record (record2 ''PEXPIREAT'' k (show_int t)) w"

text \<open>The deadline is logged whether or not a log is open; the outcome is ignored.\<close>

definition kv_pexpireat :: "cstr \<Rightarrow> int \<Rightarrow> world \<Rightarrow> int \<times> world" where
  "kv_pexpireat key t w =
     (case key of
        None \<Rightarrow> (KV_ERR_INVALID_PARAM, w)
      | Some k \<Rightarrow>
          if \<not> lock_initialized (st w) then (KV_ERR_INVALID_PARAM, w)
          else
            (let (entry, w1) = find_entry_unlocked k (kv_acquire_bucket_lock k w)
             in case entry of
                  None \<Rightarrow> (0, kv_release_bucket_lock k w1)
                | Some ptr \<Rightarrow>
                    (let w2 = upd_st (set_entry ptr (\<lambda>e. e\<lparr>expire_at_ms := t\<rparr>)) w1;
                         (_, _, w3) = write_aof_pexpireat k t w2;
                         w4 = append_record2 ''PEXPIREAT'' k (show_int t) w3
                     in (1, kv_release_bucket_lock k w4))))"

definition kv_expire :: "cstr \<Rightarrow> int \<Rightarrow> world \<Rightarrow> int result" where
  "kv_expire key seconds w =
     (let (now, w1) = kv_current_time_ms w
      in if int64 (seconds * 1000) \<and> int64 (now + seconds * 1000)
         then Inr (kv_pexpireat key (now + seconds * 1000) w1) else Inl Signed_Overflow)"

definition kv_pexpire :: "cstr \<Rightarrow> int \<Rightarrow> world \<Rightarrow> int result" where
  "kv_pexpire key milliseconds w =
     (let (now, w1) = kv_current_time_ms w
      in if int64 (now + milliseconds) then Inr (kv_pexpireat key (now + milliseconds) w1)
         else Inl Signed_Overflow)"

definition kv_pttl :: "cstr \<Rightarrow> world \<Rightarrow> int result" where
  "kv_pttl key w =
     (case key of
        None \<Rightarrow> Inr (- 2, w)
      | Some k \<Rightarrow>
          if \<not> lock_initialized (st w) then Inr (- 2, w)
          else
            (let (entry, w1) = find_entry_unlocked k (kv_acquire_bucket_lock k w)
             in case entry of
                  None \<Rightarrow> Inr (- 2, kv_release_bucket_lock k w1)
                | Some ptr \<Rightarrow>
                    (let t = expire_at_ms (deref (st w1) ptr)
                     in if t = 0 then Inr (- 1, kv_release_bucket_lock k w1)
                        else
                          (let (now, w2) = kv_current_time_ms w1;
                               rem = t - now
                           in if int64 rem then Inr (if rem < 0 then 0 else rem, kv_release_bucket_lock k w2)
                              else Inl Signed_Overflow))))"

definition kv_ttl :: "cstr \<Rightarrow> world \<Rightarrow> int result" where
  "kv_ttl key w =
     (case kv_pttl key w of
        Inl ub \<Rightarrow> Inl ub
      | Inr (pt, w1) \<Rightarrow>
          if pt < 0 then Inr (pt, w1)
          else if int64 (pt + 999) then Inr ((pt + 999) div 1000, w1) else Inl Signed_Overflow)"

definition kv_persist :: "cstr \<Rightarrow> world \<Rightarrow> int \<times> world" where
  "kv_persist key w =
     (case key of
        None \<Rightarrow> (KV_ERR_INVALID_PARAM, w)
      | Some k \<Rightarrow>
          if \<not> lock_initialized (st w) then (KV_ERR_INVALID_PARAM, w)
          else
            (let (entry, w1) = find_entry_unlocked k (kv_acquire_bucket_lock k w)
             in case entry of
                  None \<Rightarrow> (0, kv_release_bucket_lock k w1)
                | Some ptr \<Rightarrow>
                    if expire_at_ms (deref (st w1) ptr) = 0 then (0, kv_release_bucket_lock k w1)
                    else
                      (let w2 = upd_st (set_entry ptr (\<lambda>e. e\<lparr>expire_at_ms := 0\<rparr>)) w1;
                           (_, _, w3) = write_aof_pexpireat k 0 w2;
                           w4 = append_aof_rewrite_buffer (tab # ''0'' @ [nl])
                                  (append_aof_rewrite_buffer k (append_aof_rewrite_buffer (''PEXPIREAT'' @ [tab]) w3))
                       in (1, kv_release_bucket_lock k w4))))"

section \<open>Changing a deadline\<close>

text \<open>The entry of a key with another deadline: the store is otherwise as it was.\<close>

definition redated :: "string \<Rightarrow> int \<Rightarrow> kv_store \<Rightarrow> kv_store \<Rightarrow> bool" where
  "redated k t s s' \<longleftrightarrow>
     lookup s' = (lookup s)(k := map_option (\<lambda>e. e\<lparr>expire_at_ms := t\<rparr>) (lookup s k)) \<and>
     same_settings s s' \<and> allocated_bytes s' = allocated_bytes s"

lemma set_deadline_spec:
  fixes t :: int
  assumes "wf_store base s" and "valid_ptr s ptr"
  defines "s' \<equiv> set_entry ptr (\<lambda>e. e\<lparr>expire_at_ms := t\<rparr>) s"
  shows "wf_store base s'" "redated (e_key (deref s ptr)) t s s'"
proof -
  let ?g = "\<lambda>e :: kv_entry. e\<lparr>expire_at_ms := t\<rparr>"
  have "wf_entry (?g (deref s ptr))" "entry_bytes (?g (deref s ptr)) = entry_bytes (deref s ptr)"
    using wf_store_entry [OF assms(1,2)] by (simp_all add: wf_entry_def entry_bytes_def)
  then show "wf_store base s'"
    unfolding s'_def by (intro wf_set_entry_same_bytes [OF assms(1,2)]) simp_all
  show "redated (e_key (deref s ptr)) t s s'"
    using lookup_set_entry [OF assms(1,2), of ?g] lookup_deref [OF assms(1,2)]
    by (auto simp: redated_def s'_def fun_eq_iff same_settings_def set_entry_def)
qed

lemma redated_view:
  assumes "redated k t s s'"
  shows "kv_view s' = (kv_view s)(k := map_option (\<lambda>e. (e_value e, t)) (lookup s k))"
  using assms by (auto simp: redated_def kv_view_def fun_eq_iff option.map_comp comp_def)

lemma append_aof_rewrite_buffer_st [simp]: "st (append_aof_rewrite_buffer d w) = st w"
  using same_but_logD(1) [OF same_but_log_append] .

lemma write_aof_pexpireat_st [simp]: "st (snd (snd (write_aof_pexpireat k t w))) = st w"
  unfolding write_aof_pexpireat_def using same_but_logD(1) [OF same_but_log_write] .

lemma kv_set_expire_at_ms_internal_spec:
  assumes "wf_store base (st w)"
  shows "wf_store base (st (kv_set_expire_at_ms_internal (Some k) t w))"
    "redated k t (st w) (st (kv_set_expire_at_ms_internal (Some k) t w))"
proof -
  have "wf_store base (st (kv_set_expire_at_ms_internal (Some k) t w)) \<and>
    redated k t (st w) (st (kv_set_expire_at_ms_internal (Some k) t w))"
  proof (cases "locate (st w) k")
    case None
    with locate_None [OF assms, of k] assms show ?thesis
      by (auto simp: kv_set_expire_at_ms_internal_def redated_def fun_eq_iff)
  next
    case (Some ptr)
    note l = locate_Some [OF assms Some]
    from set_deadline_spec [OF assms l(1), of t] l(2) Some wf_storeD(3) [OF assms] show ?thesis
      by (simp add: kv_set_expire_at_ms_internal_def)
  qed
  then show "wf_store base (st (kv_set_expire_at_ms_internal (Some k) t w))"
    "redated k t (st w) (st (kv_set_expire_at_ms_internal (Some k) t w))" by simp_all
qed

lemma lookup_outcome_absent:
  "live_entry (st w) (now_of w) k = None \<Longrightarrow> kv_view (st w') = (kv_view (st w))(k := None) \<Longrightarrow>
   same_settings (st w) (st w') \<Longrightarrow> allocated_bytes (st w') \<le> allocated_bytes (st w) \<Longrightarrow> lookup_outcome k w w'"
  by (simp add: lookup_outcome_def)

lemma lookup_outcome_found:
  "live_entry (st w) (now_of w) k \<noteq> None \<Longrightarrow> st w' = st w \<Longrightarrow> lookup_outcome k w w'"
  by (auto simp: lookup_outcome_def)

lemma kv_pexpireat_cases [consumes 2]:
  assumes "wf_store base (st w)" and "lock_initialized (st w)"
  obtains (absent) w' where "kv_pexpireat (Some k) t w = (0, w')" "live_entry (st w) (now_of w) k = None"
      "wf_store base (st w')" "lookup_outcome k w w'"
  | (found) w' e where "kv_pexpireat (Some k) t w = (1, w')" "live_entry (st w) (now_of w) k = Some e"
      "wf_store base (st w')" "redated k t (st w) (st w')"
  using assms(1)
proof (cases rule: locked_find_cases [where k = k])
  case (absent w2)
  from absent lookup_outcome_absent [OF absent(2,4-6)] assms show thesis
    by (intro that(1) [of "kv_release_bucket_lock k w2"]) (simp_all add: kv_pexpireat_def frame)
next
  case (found ptr w2)
  obtain w' where w': "kv_pexpireat (Some k) t w = (1, w')"
    "st w' = set_entry ptr (\<lambda>e. e\<lparr>expire_at_ms := t\<rparr>) (st w)"
    using found assms(2) by (simp add: kv_pexpireat_def Let_def split_beta frame)
  from set_deadline_spec [OF assms(1) found(4), of t] found w' show thesis
    by (intro that(2) [OF w'(1) found(2)]) simp_all
qed

lemma kv_persist_cases [consumes 2]:
  assumes "wf_store base (st w)" and "lock_initialized (st w)"
  obtains (idle) w' where "kv_persist (Some k) w = (0, w')"
      "\<And>e. live_entry (st w) (now_of w) k = Some e \<Longrightarrow> expire_at_ms e = 0"
      "wf_store base (st w')" "lookup_outcome k w w'"
  | (cleared) w' e where "kv_persist (Some k) w = (1, w')" "live_entry (st w) (now_of w) k = Some e"
      "expire_at_ms e \<noteq> 0" "wf_store base (st w')" "redated k 0 (st w) (st w')"
  using assms(1)
proof (cases rule: locked_find_cases [where k = k])
  case (absent w2)
  from absent lookup_outcome_absent [OF absent(2,4-6)] assms show thesis
    by (intro that(1) [of "kv_release_bucket_lock k w2"]) (simp_all add: kv_persist_def frame)
next
  case (found ptr w2)
  show thesis
  proof (cases "expire_at_ms (deref (st w) ptr) = 0")
    case True
    with found lookup_outcome_found [of w k w2] assms show thesis
      by (intro that(1) [of "kv_release_bucket_lock k w2"]) (simp_all add: kv_persist_def frame)
  next
    case False
    then obtain w' where w': "kv_persist (Some k) w = (1, w')"
      "st w' = set_entry ptr (\<lambda>e. e\<lparr>expire_at_ms := 0\<rparr>) (st w)"
      using found assms(2) by (simp add: kv_persist_def Let_def split_beta frame)
    from set_deadline_spec [OF assms(1) found(4), of 0] found w' False show thesis
      by (intro that(2) [OF w'(1) found(2)]) simp_all
  qed
qed

section \<open>Remaining time\<close>

text \<open>Computing the remaining time reads the clock once more after the lookup has.\<close>

definition later_of :: "world \<Rightarrow> int" where
  "later_of w = clock (os w) (Suc (clock_reads (os w)))"

lemma os_find_entry:
  "buckets (st w) \<noteq> [] \<Longrightarrow> os (snd (find_entry_unlocked k w)) = os (snd (kv_current_time_ms w))"
  by (auto simp: find_entry_unlocked_def split_beta Let_def split: option.split)

lemma os_locks [frame]:
  "os (kv_acquire_bucket_lock k w) = os w" "os (kv_release_bucket_lock k w) = os w"
  by (simp_all add: kv_acquire_bucket_lock_def kv_release_bucket_lock_def frame)

lemma now_of_locked_find:
  assumes "wf_store base (st w)" and "find_entry_unlocked k (kv_acquire_bucket_lock k w) = (r, w2)"
  shows "now_of w2 = later_of w"
  using os_find_entry [of "kv_acquire_bucket_lock k w" k] assms wf_storeD(3) [OF assms(1)]
  by (simp add: later_of_def kv_current_time_ms_def frame)

definition remaining :: "kv_entry option \<Rightarrow> int \<Rightarrow> undefined_behaviour + int" where
  "remaining entry now =
     (case entry of
        None \<Rightarrow> Inr (- 2)
      | Some e \<Rightarrow>
          if expire_at_ms e = 0 then Inr (- 1)
          else if int64 (expire_at_ms e - now) then Inr (max 0 (expire_at_ms e - now)) else Inl Signed_Overflow)"

lemma kv_pttl_spec:
  assumes "wf_store base (st w)" and "lock_initialized (st w)"
  obtains w' where "kv_pttl (Some k) w = map_sum id (\<lambda>r. (r, w')) (remaining (live_entry (st w) (now_of w) k) (later_of w))"
    "wf_store base (st w')" "lookup_outcome k w w'"
  using assms(1)
proof (cases rule: locked_find_cases [where k = k])
  case (absent w2)
  from absent lookup_outcome_absent [OF absent(2,4-6)] assms show thesis
    by (intro that [of "kv_release_bucket_lock k w2"]) (simp_all add: kv_pttl_def remaining_def frame)
next
  case (found ptr w2)
  define w3 where "w3 = (if expire_at_ms (deref (st w) ptr) = 0 then w2 else snd (kv_current_time_ms w2))"
  have "st w3 = st w" using found(3) by (simp add: w3_def frame)
  with found lookup_outcome_found [of w k w3] now_of_locked_find [OF assms(1) found(1)] assms show thesis
    by (intro that [of "kv_release_bucket_lock k w3"])
      (auto simp: kv_pttl_def remaining_def split_beta Let_def frame w3_def)
qed

lemma clock_find_entry: "clock (os (snd (find_entry_unlocked k w))) = clock (os w)"
  by (auto simp: find_entry_unlocked_def split_beta Let_def kv_current_time_ms_def split: option.split)

lemma clock_kv_pexpireat: "clock (os (snd (kv_pexpireat key t w))) = clock (os w)"
proof (cases "key = None \<or> \<not> lock_initialized (st w)")
  case True
  then show ?thesis by (auto simp: kv_pexpireat_def split: option.split)
next
  case False
  then obtain k where k: "key = Some k" by auto
  define f where "f = find_entry_unlocked k (kv_acquire_bucket_lock k w)"
  have f: "clock (os (snd f)) = clock (os w)"
    using clock_find_entry [of k "kv_acquire_bucket_lock k w"] by (simp add: f_def frame)
  have log: "same_but_log u (append_record2 c d e (snd (snd (write_aof_pexpireat k t u))))" for c d e u
    unfolding write_aof_pexpireat_def
    by (rule same_but_log_trans [OF same_but_log_write same_but_log_append_record(2)])
  have "clock (os (append_record2 c d e (snd (snd (write_aof_pexpireat k t u))))) = clock (os u)" for c d e u
    using log [of u c d e] by (simp add: same_but_log_def)
  with f k False show ?thesis
    by (simp add: kv_pexpireat_def f_def [symmetric] Let_def split_beta frame split: option.split)
qed

lemma kv_ttl_spec:
  assumes "wf_store base (st w)" and "lock_initialized (st w)"
  obtains w' where "kv_ttl (Some k) w =
      (case remaining (live_entry (st w) (now_of w) k) (later_of w) of
         Inl ub \<Rightarrow> Inl ub
       | Inr pt \<Rightarrow> if pt < 0 then Inr (pt, w')
                  else if int64 (pt + 999) then Inr ((pt + 999) div 1000, w') else Inl Signed_Overflow)"
    "wf_store base (st w')" "lookup_outcome k w w'"
proof -
  obtain w' where p: "kv_pttl (Some k) w =
      map_sum id (\<lambda>r. (r, w')) (remaining (live_entry (st w) (now_of w) k) (later_of w))"
    "wf_store base (st w')" "lookup_outcome k w w'"
    using kv_pttl_spec [OF assms] .
  then show thesis
    by (intro that [OF _ p(2,3)]) (simp add: kv_ttl_def split: sum.split)
qed

lemma kv_view_singleton: "kv_view (singleton_store b e) = [e_key e \<mapsto> (e_value e, expire_at_ms e)]"
  by (auto simp: kv_view_def fun_eq_iff)

section \<open>Properties\<close>

text \<open>\<^verbatim>\<open>kv_pexpireat\<close> gives a live key the requested deadline and changes nothing else: the
  value stays, other keys stay, and so do the byte counts. On a missing or expired key it
  answers zero and leaves every other key alone.\<close>

lemma kv_pexpireat_sets_deadline:
  assumes "wf_store base (st w)" and "lock_initialized (st w)"
    and "kv_pexpireat (Some k) t w = (r, w')"
  shows "wf_store base (st w') \<and>
    (case live_entry (st w) (now_of w) k of
       None \<Rightarrow> r = 0 \<and> kv_view (st w') = (kv_view (st w))(k := None)
     | Some e \<Rightarrow> r = 1 \<and> kv_view (st w') = (kv_view (st w))(k \<mapsto> (e_value e, t)) \<and>
         allocated_bytes (st w') = allocated_bytes (st w))"
  using assms(1,2)
proof (cases rule: kv_pexpireat_cases [where k = k and t = t])
  case (absent w1)
  with assms(3) show ?thesis by (simp add: lookup_outcome_def)
next
  case (found w1 e)
  then have "lookup (st w) k = Some e" by (simp add: live_entry_def split: option.splits if_splits)
  with found assms(3) redated_view [OF found(4)] show ?thesis by (simp add: redated_def)
qed

lemma kv_pexpireat_sets_deadline_witness:
  "kv_view (st (snd (kv_pexpireat (Some ''a'') 90 (quiet_world 7 (singleton_store 0 (string_entry ''a'' ''1'' 0))))))
     = [''a'' \<mapsto> (VString ''1'', 90)]"
proof -
  let ?w = "quiet_world 7 (singleton_store 0 (string_entry ''a'' ''1'' 0))"
  obtain r w' where "kv_pexpireat (Some ''a'') 90 ?w = (r, w')" by fastforce
  with kv_pexpireat_sets_deadline [of 0 ?w "''a''" 90 r w'] show ?thesis
    by (simp add: live_entry_def entry_is_expired_def kv_view_singleton)
qed

text \<open>\<^verbatim>\<open>kv_ttl\<close> rounds up: a live key with a deadline in the future never reports zero seconds,
  and the reported seconds exceed the true remaining time by less than a second. Without a
  deadline the answer is -1, and for a missing key -2.\<close>

lemma kv_ttl_rounds_up:
  assumes "wf_store base (st w)" and "lock_initialized (st w)"
    and "kv_ttl (Some k) w = Inr (r, w')"
  shows "case live_entry (st w) (now_of w) k of
       None \<Rightarrow> r = - 2
     | Some e \<Rightarrow>
         if expire_at_ms e = 0 then r = - 1
         else if expire_at_ms e \<le> later_of w then r = 0
         else 1 \<le> r \<and> r * 1000 - 1000 < expire_at_ms e - later_of w \<and> expire_at_ms e - later_of w \<le> r * 1000"
proof -
  obtain w2 where "kv_ttl (Some k) w =
      (case remaining (live_entry (st w) (now_of w) k) (later_of w) of
         Inl ub \<Rightarrow> Inl ub
       | Inr pt \<Rightarrow> if pt < 0 then Inr (pt, w2)
                  else if int64 (pt + 999) then Inr ((pt + 999) div 1000, w2) else Inl Signed_Overflow)"
    using kv_ttl_spec [OF assms(1,2)] .
  with assms(3) show ?thesis
    by (auto simp: remaining_def split: option.splits if_splits)
qed

lemma kv_ttl_rounds_up_witness:
  "\<exists>w'. kv_ttl (Some ''a'') (quiet_world 7 (singleton_store 0 (string_entry ''a'' ''1'' 1008))) = Inr (2, w')"
proof -
  let ?w = "quiet_world 7 (singleton_store 0 (string_entry ''a'' ''1'' 1008))"
  have later: "later_of ?w = 7" by (simp add: later_of_def quiet_world_def quiet_os_def)
  have live: "live_entry (singleton_store 0 (string_entry ''a'' ''1'' 1008)) 7 ''a'' =
      Some (string_entry ''a'' ''1'' 1008)"
    by (simp add: live_entry_def entry_is_expired_def)
  have "\<exists>r w'. kv_ttl (Some ''a'') ?w = Inr (r, w')"
    by (rule kv_ttl_spec [of 0 ?w "''a''"]) (auto simp: remaining_def live later int64_def)
  then obtain r w' where "kv_ttl (Some ''a'') ?w = Inr (r, w')" by blast
  with kv_ttl_rounds_up [of 0 ?w "''a''" r w'] live later show ?thesis by simp
qed



text \<open>\<^verbatim>\<open>kv_persist\<close> answers 1 exactly for a live key that has a deadline, and then the key keeps
  its value and never expires; otherwise it answers 0 and no live key changes.\<close>

lemma kv_persist_clears_deadline:
  assumes "wf_store base (st w)" and "lock_initialized (st w)"
    and "kv_persist (Some k) w = (r, w')"
  shows "wf_store base (st w') \<and>
    (case live_entry (st w) (now_of w) k of
       None \<Rightarrow> r = 0 \<and> kv_view (st w') = (kv_view (st w))(k := None)
     | Some e \<Rightarrow>
         r = (if expire_at_ms e = 0 then 0 else 1) \<and>
         kv_view (st w') = (kv_view (st w))(k \<mapsto> (e_value e, 0)) \<and>
         (\<forall>now. live_entry (st w') now k \<noteq> None))"
  using assms(1,2)
proof (cases rule: kv_persist_cases [where k = k])
  case (idle w1)
  then have w': "w' = w1" "r = 0" using assms(3) by simp_all
  show ?thesis
  proof (cases "live_entry (st w) (now_of w) k")
    case None
    with idle w' show ?thesis by (simp add: lookup_outcome_def)
  next
    case (Some e)
    then have e: "lookup (st w) k = Some e" by (simp add: live_entry_def split: option.splits if_splits)
    have "kv_view (st w') k = Some (e_value e, 0)"
      using idle(2) [OF Some] idle(4) Some w' e by (simp add: lookup_outcome_def kv_view_def)
    then have "live_entry (st w') now k \<noteq> None" for now
      by (auto simp: kv_view_def live_entry_def entry_is_expired_def)
    with idle Some w' e idle(2) [OF Some] show ?thesis
      by (simp add: lookup_outcome_def) (auto simp: fun_eq_iff kv_view_def)
  qed
next
  case (cleared w1 e)
  then have e: "lookup (st w) k = Some e" by (simp add: live_entry_def split: option.splits if_splits)
  with cleared(5) have "live_entry (st w1) now k \<noteq> None" for now
    by (simp add: redated_def live_entry_def entry_is_expired_def)
  with cleared e assms(3) redated_view [OF cleared(5)] show ?thesis by simp
qed

lemma kv_persist_clears_deadline_witness:
  "kv_view (st (snd (kv_persist (Some ''a'') (quiet_world 7 (singleton_store 0 (string_entry ''a'' ''1'' 90))))))
     = [''a'' \<mapsto> (VString ''1'', 0)]"
proof -
  let ?w = "quiet_world 7 (singleton_store 0 (string_entry ''a'' ''1'' 90))"
  obtain r w' where "kv_persist (Some ''a'') ?w = (r, w')" by fastforce
  with kv_persist_clears_deadline [of 0 ?w "''a''" r w'] show ?thesis
    by (simp add: live_entry_def entry_is_expired_def kv_view_singleton)
qed



text \<open>A deadline before the epoch is never enforced: \<^verbatim>\<open>PEXPIREAT\<close> with a negative time answers 1
  like any other, yet the key stays readable at every later time.\<close>

lemma kv_pexpireat_negative_never_expires:
  assumes "wf_store base (st w)" and "lock_initialized (st w)"
    and "live_entry (st w) (now_of w) k = Some e" and "t < 0"
  shows "\<exists>w'. kv_pexpireat (Some k) t w = (1, w') \<and> (\<forall>now. live_entry (st w') now k = Some (e\<lparr>expire_at_ms := t\<rparr>))"
  using assms(1,2)
proof (cases rule: kv_pexpireat_cases [where k = k and t = t])
  case (absent w1)
  with assms(3) show ?thesis by simp
next
  case (found w1 e1)
  then have "lookup (st w) k = Some e1" by (simp add: live_entry_def split: option.splits if_splits)
  with found assms(3,4) show ?thesis
    by (simp add: redated_def live_entry_def entry_is_expired_def)
qed

lemma kv_pexpireat_negative_never_expires_witness:
  "\<exists>w'. kv_pexpireat (Some ''a'') (- 1) (quiet_world 7 (singleton_store 0 (string_entry ''a'' ''1'' 0))) = (1, w') \<and>
     (\<forall>now. live_entry (st w') now ''a'' = Some ((string_entry ''a'' ''1'' 0)\<lparr>expire_at_ms := - 1\<rparr>))"
  by (rule kv_pexpireat_negative_never_expires [where base = 0])
    (simp_all add: live_entry_def entry_is_expired_def)

end
