(* ===== verification/KV_Env.thy ===== *)
theory KV_Env
  imports KV_Expire
begin

text \<open>
  What the commands leave alone outside the store: the clock, the allocator, the fault
  injection, whether a log is open and how durable it is, and the state of the replication. The
  allocator hook only ever counts down to one failure, so once it is off it stays off.
\<close>

definition env ::
  "world \<Rightarrow> (nat \<Rightarrow> int) \<times> (nat \<Rightarrow> bool) \<times> (nat \<Rightarrow> nat option) \<times> bool \<times> bool \<times> int \<times> cstr \<times> replica_mode \<times> bool" where
  "env w = (clock (os w), malloc_ok (os w), io_fault (os w), g_io_fail (os w), aof_fp (aof w) = None,
     durability_level (aof w), aof_path (aof w), mode (repl w), is_running (repl w))"

definition calm :: "world \<Rightarrow> bool" where
  "calm w \<longleftrightarrow> g_alloc_fail_countdown (os w) < 0"

text \<open>\<open>kept w w'\<close>: the surroundings are the same.\<close>

definition kept :: "world \<Rightarrow> world \<Rightarrow> bool" where
  "kept w w' \<longleftrightarrow> env w' = env w \<and> (calm w \<longrightarrow> calm w')"

lemma kept_refl [simp]: "kept w w"
  by (simp add: kept_def)

lemma kept_trans: "kept u v \<Longrightarrow> kept v w \<Longrightarrow> kept u w"
  by (simp add: kept_def)

lemma keptD:
  assumes "kept w w'"
  shows "clock (os w') = clock (os w)" "no_oom w \<Longrightarrow> no_oom w'" "io_fault (os w') = io_fault (os w)"
    "g_io_fail (os w') = g_io_fail (os w)" "aof_fp (aof w') = None \<longleftrightarrow> aof_fp (aof w) = None"
    "durability_level (aof w') = durability_level (aof w)" "aof_path (aof w') = aof_path (aof w)"
    "mode (repl w') = mode (repl w)" "is_running (repl w') = is_running (repl w)"
  using assms by (auto simp: kept_def env_def calm_def no_oom_def)

lemma kept_same_but_log: "same_but_log w w' \<Longrightarrow> kept w w'"
  by (auto simp: kept_def env_def calm_def same_but_log_def)

section \<open>Primitives\<close>

lemma kept_st [simp]: "kept w (w'\<lparr>st := s\<rparr>) = kept w w'" "kept (w\<lparr>st := s\<rparr>) w' = kept w w'"
  by (simp_all add: kept_def env_def calm_def)

lemma kept_mutex [simp]:
  "kept w (mutex_lock m w') = kept w w'" "kept w (mutex_unlock m w') = kept w w'"
  "kept (mutex_lock m w) w' = kept w w'" "kept (mutex_unlock m w) w' = kept w w'"
  by (simp_all add: kept_def env_def calm_def frame)

lemma kept_locks [simp]:
  "kept w (kv_acquire_bucket_lock k w') = kept w w'" "kept w (kv_release_bucket_lock k w') = kept w w'"
  "kept w (kv_acquire_all_locks w') = kept w w'" "kept w (kv_release_all_locks w') = kept w w'"
  "kept w (set_release g k w') = kept w w'"
proof -
  have "kept w (fold (\<lambda>i. mutex_lock (Bucket_Lock i)) is w') = kept w w'"
    "kept w (fold (\<lambda>i. mutex_unlock (Bucket_Lock i)) is w') = kept w w'" for "is"
    by (induction "is" arbitrary: w') simp_all
  then show "kept w (kv_acquire_bucket_lock k w') = kept w w'" "kept w (kv_release_bucket_lock k w') = kept w w'"
    "kept w (kv_acquire_all_locks w') = kept w w'" "kept w (kv_release_all_locks w') = kept w w'"
    "kept w (set_release g k w') = kept w w'"
    by (simp_all add: kv_acquire_bucket_lock_def kv_release_bucket_lock_def kv_acquire_all_locks_def
        kv_release_all_locks_def set_release_def)
qed

lemma kept_prim:
  "kept w w' \<Longrightarrow> kept w (snd (libc_malloc w'))" "kept w w' \<Longrightarrow> kept w (snd (tracked_malloc n w'))"
  "kept w w' \<Longrightarrow> kept w (snd (tracked_calloc m n w'))" "kept w w' \<Longrightarrow> kept w (snd (kv_current_time_ms w'))"
  by (auto simp: kept_def env_def calm_def libc_malloc_def tracked_malloc_def tracked_calloc_def
      kv_current_time_ms_def Let_def split: if_splits)

lemma kept_log:
  "kept w w' \<Longrightarrow> kept w (snd (snd (write_aof_record buf w')))" "kept w w' \<Longrightarrow> kept w (rollback_aof_record pos w')"
  "kept w w' \<Longrightarrow> kept w (append_aof_rewrite_buffer d w')" "kept w w' \<Longrightarrow> kept w (append_record1 c k w')"
  "kept w w' \<Longrightarrow> kept w (append_record2 c k v w')" "kept w w' \<Longrightarrow> kept w (log_quietly buf w')"
  by (blast intro: kept_trans kept_same_but_log same_but_log_write same_but_log_rollback same_but_log_append
      same_but_log_append_record log_quietly_same)+

lemma kept_copy: "kept w w' \<Longrightarrow> kept w (snd (copy_string_bounded s m w'))"
  by (simp add: copy_string_bounded_def Let_def split_beta kept_prim)

section \<open>Table operations\<close>

lemma kept_find_entry: "kept w w' \<Longrightarrow> kept w (snd (find_entry_unlocked k w'))"
  by (simp add: find_entry_unlocked_def Let_def split_beta kept_prim split: option.split)

lemma kept_resize: "kept w w' \<Longrightarrow> kept w (snd (kv_resize_unlocked n w'))"
  by (simp add: kv_resize_unlocked_def Let_def split_beta kept_prim)

lemma kept_evict: "kept w w' \<Longrightarrow> kept w (snd (kv_evict_lru_unlocked w'))"
  by (auto simp: kv_evict_lru_unlocked_def Let_def split_beta kept_def env_def calm_def split: option.split)

lemma kept_evict_for: "kept w w' \<Longrightarrow> kept w (evict_for need w')"
  by (induction need w' rule: evict_for.induct) (subst evict_for.simps, auto simp: kept_evict)

lemma kept_make_room: "kept w w' \<Longrightarrow> kept w (snd (make_room need w'))"
  by (simp add: make_room_def Let_def kept_evict_for)

lemmas kept_stages = kept_prim kept_log kept_copy kept_find_entry kept_resize kept_make_room

section \<open>Commands\<close>

lemma kept_insert_string: "kept w w' \<Longrightarrow> kept w (snd (insert_string k v w'))"
  by (simp add: insert_string_def alloc_string_entry_def Let_def split_beta kept_stages split: option.split)

lemma kept_kv_set_internal: "kept w w' \<Longrightarrow> kept w (snd (kv_set_internal key value w'))"
  by (simp add: kv_set_internal_def replace_string_def overwrite_string_def Let_def split_beta kept_stages
      kept_insert_string split: option.split kv_value.split sum.split)

lemma kept_kv_delete_internal: "kept w w' \<Longrightarrow> kept w (snd (kv_delete_internal key w'))"
  by (simp add: kv_delete_internal_def Let_def split_beta kept_stages split: option.split sum.split)

lemma kept_logged:
  assumes "\<And>u. kept w u \<Longrightarrow> kept w (snd (update u))" and "kept w w'"
  shows "kept w (snd (logged rec update w'))"
  using assms by (simp add: logged_def Let_def split_beta kept_stages)

lemma kept_acquire: "kept w w' \<Longrightarrow> kept w (snd (set_acquire bytes k w'))" "kept w w' \<Longrightarrow> kept w (snd (coll_acquire bytes k w'))"
  by (simp_all add: set_acquire_def acquire_global_def coll_acquire_def Let_def split_beta kept_stages)

lemma kept_kv_set: "kept w (snd (kv_set key value w))"
  by (simp add: kv_set_def Let_def split_beta kept_logged kept_kv_set_internal kept_acquire
      split: option.split sum.split)

lemma kept_kv_delete: "kept w (snd (kv_delete key w))"
  by (simp add: kv_delete_def Let_def split_beta kept_logged kept_kv_delete_internal split: option.split sum.split)

lemma kept_obtain_entry:
  assumes "\<And>u. kept w u \<Longrightarrow> kept w (snd (alloc u))" and "kept w w'"
  shows "kept w (snd (obtain_entry kind fresh alloc k w'))"
  using assms
  by (simp add: obtain_entry_def create_entry_def alloc_coll_entry_def Let_def split_beta kept_stages split: option.split)

lemma kept_room_for_node: "kept w w' \<Longrightarrow> kept w (snd (room_for_node n v w'))"
  by (simp add: room_for_node_def alloc_node_def Let_def split_beta kept_stages split: option.split)

lemma kept_settle: "kept w w' \<Longrightarrow> kept w (settle b k ptr w')"
  by (simp add: settle_def kept_kv_delete_internal)

lemma kept_lpush_node: "lpush_node k v u = Inr (r, w') \<Longrightarrow> kept w u \<Longrightarrow> kept w w'"
  by (auto simp: lpush_node_def Let_def split_beta kept_stages kept_room_for_node
      split: sum.splits option.splits kv_value.splits)

lemma kept_kv_lpush:
  assumes "kv_lpush key value w = Inr (r, w')"
  shows "kept w w'"
proof -
  have "kept w u \<Longrightarrow> kept w (snd (alloc_list u))" for u by (simp add: alloc_list_def kept_prim)
  note q = kept_obtain_entry [of w alloc_list, OF this]
  from assms show ?thesis
    by (auto simp: kv_lpush_def Let_def split_beta q kept_acquire dest!: kept_lpush_node [where w = w]
        split: if_splits sum.splits)
qed

lemma kept_sadd_member: "sadd_member k v u = Inr (r, w') \<Longrightarrow> kept w u \<Longrightarrow> kept w w'"
  by (auto simp: sadd_member_def sadd_node_def Let_def split_beta kept_stages kept_room_for_node
      split: if_splits sum.splits option.splits kv_value.splits)

lemma kept_kv_sadd:
  assumes "kv_sadd key value w = Inr (r, w')"
  shows "kept w w'"
proof -
  have "kept w u \<Longrightarrow> kept w (snd (alloc_set u))" for u
    by (simp add: alloc_set_def Let_def split_beta kept_prim)
  note q = kept_obtain_entry [of w alloc_set, OF this]
  from assms show ?thesis
    by (auto simp: kv_sadd_def Let_def split_beta q kept_acquire dest!: kept_sadd_member [where w = w]
        split: if_splits sum.splits)
qed

lemma kept_kv_rpop: "kept w (snd (snd (kv_rpop key w)))"
  by (simp add: kv_rpop_def rpop_entry_def Let_def split_beta kept_stages kept_settle
      split: option.split kv_value.split)

lemma kept_kv_srem: "kept w (snd (kv_srem key value w))"
  by (simp add: kv_srem_def srem_entry_def Let_def split_beta kept_stages kept_settle
      split: option.split kv_value.split)

lemma kept_set_expire: "kept w w' \<Longrightarrow> kept w (kv_set_expire_at_ms_internal key t w')"
  by (simp add: kv_set_expire_at_ms_internal_def split: option.split)

lemma kept_kv_pexpireat: "kept w w' \<Longrightarrow> kept w (snd (kv_pexpireat key t w'))"
  by (simp add: kv_pexpireat_def write_aof_pexpireat_def Let_def split_beta kept_stages split: option.split)

end
