(* ===== verification/KV_Aof.thy ===== *)
theory KV_Aof
  imports KV_Env
begin

text \<open>
  The rest of \<^verbatim>\<open>src/aof.c\<close>: replaying the log into a store, and the background rewrite that
  replaces it by a minimal one. A file is its contents; the file being replayed is an argument
  (\<open>None\<close> when it cannot be opened). \<^verbatim>\<open>fork\<close> is modelled by its two branches, the child's as a
  function from the store to the file it writes.
\<close>

section \<open>Replay\<close>

text \<open>The buffer holds what \<^verbatim>\<open>fgets\<close> stored; \<^verbatim>\<open>strlen\<close> stops at a zero byte.\<close>

definition strip_line_endings :: "string \<Rightarrow> string" where
  "strip_line_endings line =
     rev (dropWhile (\<lambda>c. c = nl \<or> c = cr) (rev (takeWhile (\<lambda>c. c \<noteq> CHR 0x00) line)))"

text \<open>The line starts with the command and a tab or a blank: the delimiter and what follows it.\<close>

definition command_rest :: "string \<Rightarrow> string \<Rightarrow> (char \<times> string) option" where
  "command_rest cmd line =
     (if has_prefix (cmd @ [tab]) line then Some (tab, drop (length cmd + 1) line)
      else if has_prefix (cmd @ '' '') line then Some (CHR '' '', drop (length cmd + 1) line)
      else None)"

definition ignoring :: "'a result \<Rightarrow> undefined_behaviour + world" where
  "ignoring r = map_sum id snd r"

text \<open>A command with a key and a value needs the second delimiter; one with a key only cuts at
  it if there is one.\<close>

definition replay_pair ::
  "(string \<Rightarrow> string \<Rightarrow> world \<Rightarrow> undefined_behaviour + world) \<Rightarrow> char \<times> string \<Rightarrow> world \<Rightarrow> undefined_behaviour + world" where
  "replay_pair act rest w =
     (case split_at (fst rest) (snd rest) of
        None \<Rightarrow> Inr w
      | Some (k, v) \<Rightarrow>
          if \<not> isl (validate_key (Some k)) \<and> \<not> isl (validate_value (Some v)) then act k v w else Inr w)"

definition replay_key ::
  "(string \<Rightarrow> world \<Rightarrow> undefined_behaviour + world) \<Rightarrow> char \<times> string \<Rightarrow> world \<Rightarrow> undefined_behaviour + world" where
  "replay_key act rest w =
     (let k = (case split_at (fst rest) (snd rest) of None \<Rightarrow> snd rest | Some (k, _) \<Rightarrow> k)
      in if \<not> isl (validate_key (Some k)) then act k w else Inr w)"

definition replay_deadline :: "char \<times> string \<Rightarrow> world \<Rightarrow> world" where
  "replay_deadline rest w =
     (case split_at (fst rest) (snd rest) of
        None \<Rightarrow> w
      | Some (k, ts) \<Rightarrow>
          if \<not> isl (validate_key (Some k)) then kv_set_expire_at_ms_internal (Some k) (fst (strtoll ts)) w else w)"

definition replay_line :: "string \<Rightarrow> world \<Rightarrow> undefined_behaviour + world" where
  "replay_line line w =
     (case command_rest ''SET'' line of
        Some rest \<Rightarrow> replay_pair (\<lambda>k v w. Inr (snd (kv_set_internal (Some k) (Some v) w))) rest w
      | None \<Rightarrow>
     (case command_rest ''DELETE'' line of
        Some rest \<Rightarrow> replay_key (\<lambda>k w. Inr (snd (kv_delete_internal (Some k) w))) rest w
      | None \<Rightarrow>
     (case command_rest ''LPUSH'' line of
        Some rest \<Rightarrow> replay_pair (\<lambda>k v w. ignoring (kv_lpush (Some k) (Some v) w)) rest w
      | None \<Rightarrow>
     (case command_rest ''RPOP'' line of
        Some rest \<Rightarrow> replay_key (\<lambda>k w. Inr (snd (snd (kv_rpop (Some k) w)))) rest w
      | None \<Rightarrow>
     (case command_rest ''SADD'' line of
        Some rest \<Rightarrow> replay_pair (\<lambda>k v w. ignoring (kv_sadd (Some k) (Some v) w)) rest w
      | None \<Rightarrow>
     (case command_rest ''SREM'' line of
        Some rest \<Rightarrow> replay_pair (\<lambda>k v w. Inr (snd (kv_srem (Some k) (Some v) w))) rest w
      | None \<Rightarrow>
     (case command_rest ''PEXPIREAT'' line of
        Some rest \<Rightarrow> Inr (replay_deadline rest w)
      | None \<Rightarrow> Inr w)))))))"

primrec replay_lines :: "string list \<Rightarrow> world \<Rightarrow> undefined_behaviour + world" where
  "replay_lines [] w = Inr w"
| "replay_lines (l # ls) w =
     (let line = strip_line_endings l
      in if line = [] then replay_lines ls w
         else case replay_line line w of Inl ub \<Rightarrow> Inl ub | Inr w1 \<Rightarrow> replay_lines ls w1)"

text \<open>Lines are read into 8192 bytes, so at most 8191 characters at a time.\<close>

definition replay_aof_log :: "cstr \<Rightarrow> string option \<Rightarrow> world \<Rightarrow> undefined_behaviour + world" where
  "replay_aof_log path contents w =
     (case path of
        None \<Rightarrow> Inr w
      | Some _ \<Rightarrow> (case contents of None \<Rightarrow> Inr w | Some text \<Rightarrow> replay_lines (fgets_all 8190 text) w))"

section \<open>Rewriting\<close>

text \<open>What the child writes for one entry: a list from its tail to its head, a set bucket by
  bucket, then the deadline.\<close>

fun rewrite_value :: "string \<Rightarrow> kv_value \<Rightarrow> string list" where
  "rewrite_value k (VString v) = [record2 ''SET'' k v]"
| "rewrite_value k (VList l) = map (record2 ''LPUSH'' k) (rev (l_nodes l))"
| "rewrite_value k (VSet t) = map (record2 ''SADD'' k) (concat (take (s_bucket_count t) (s_buckets t)))"

definition rewrite_entry :: "int \<Rightarrow> kv_entry \<Rightarrow> string list" where
  "rewrite_entry now e =
     (if entry_is_expired e now then []
      else rewrite_value (e_key e) (e_value e) @
           (if expire_at_ms e > 0 then [record2 ''PEXPIREAT'' (e_key e) (show_int (expire_at_ms e))] else []))"

definition rewrite_store :: "int \<Rightarrow> kv_store \<Rightarrow> string" where
  "rewrite_store now s = concat (concat (map (rewrite_entry now) (concat (take (bucket_count s) (buckets s)))))"

text \<open>The child: its exit status and the temporary file. Output errors are not looked at, so a
  write that stops early still ends in exit status zero.\<close>

definition rewrite_child :: "world \<Rightarrow> nat \<times> string option" where
  "rewrite_child w =
     (let (open_tmp, w1) = io_step w
      in if open_tmp \<noteq> None then (1, None)
         else
           (let (now, w2) = kv_current_time_ms w1;
                text = rewrite_store now (st w2);
                (out, w3) = io_step w2
            in (0, Some (case out of None \<Rightarrow> text | Some n \<Rightarrow> take n text))))"

text \<open>The parent's side; \<open>pid\<close> is what \<^verbatim>\<open>fork\<close> returned there.\<close>

definition flush_log :: "world \<Rightarrow> world" where
  "flush_log w = (case aof_fp (aof w) of None \<Rightarrow> w | Some f \<Rightarrow> snd (snd (fflush f w)))"

definition kv_bgrewriteaof :: "int \<Rightarrow> world \<Rightarrow> int \<times> world" where
  "kv_bgrewriteaof pid w =
     (if aof_path (aof w) = None then (KV_ERR_INVALID_PARAM, w)
      else
        (let w1 = kv_acquire_all_locks w
         in if bgsave_pid (st w1) > 0 \<or> aof_rewrite_pid (aof w1) > 0 then (KV_ERR_AGAIN, kv_release_all_locks w1)
            else
              (let w2 = flush_log w1;
                   w3 = (if aof_rewrite_buf (aof w2) \<noteq> None
                         then upd_aof (\<lambda>a. a\<lparr>aof_rewrite_buf_len := 0\<rparr>) w2 else w2)
               in if pid < 0 then (KV_ERR_IO, kv_release_all_locks w3)
                  else (KV_OK, kv_release_all_locks (upd_aof (\<lambda>a. a\<lparr>aof_rewrite_pid := pid\<rparr>) w3)))))"

text \<open>Giving up a rewrite keeps the buffer but forgets its contents.\<close>

definition forget_rewrite :: "world \<Rightarrow> world" where
  "forget_rewrite w = upd_aof (\<lambda>a. a\<lparr>aof_rewrite_pid := 0, aof_rewrite_buf_len := 0\<rparr>) w"

definition buffered_records :: "aof_state \<Rightarrow> string" where
  "buffered_records a = (case aof_rewrite_buf a of None \<Rightarrow> [] | Some b \<Rightarrow> take (aof_rewrite_buf_len a) b)"

text \<open>A stream opened with \<^verbatim>\<open>"a+"\<close> on a file: its offset is zero until something is written.\<close>

definition open_stream :: "string \<Rightarrow> aof_stream" where
  "open_stream contents = \<lparr>f_disk = contents, f_buf = [], f_pos = 0, f_synced = length contents\<rparr>"

definition merge_install :: "string \<Rightarrow> world \<Rightarrow> int \<times> world" where
  "merge_install text w =
     (let w1 = upd_aof (\<lambda>a. a\<lparr>aof_fp := None\<rparr>) (flush_log w);
          (ren, w2) = io_step w1
      in if ren \<noteq> None then (KV_ERR_IO, forget_rewrite w2)
         else
           (let (open_log, w3) = io_step w2
            in if open_log \<noteq> None then (KV_ERR_IO, forget_rewrite w3)
               else (KV_OK, forget_rewrite (set_fp (open_stream text) w3))))"

text \<open>\<open>tmp\<close> is what the child left in the temporary file. A failing flush of the appended records
  goes unnoticed.\<close>

definition kv_merge_aof_rewrite :: "int \<Rightarrow> string \<Rightarrow> world \<Rightarrow> int \<times> world" where
  "kv_merge_aof_rewrite child_pid tmp w =
     (if aof_path (aof w) = None \<or> child_pid \<le> 0 then (KV_ERR_INVALID_PARAM, w)
      else
        (let w1 = kv_acquire_all_locks w
         in if aof_rewrite_pid (aof w1) \<noteq> child_pid then (KV_ERR_INVALID_PARAM, kv_release_all_locks w1)
            else
              (let (open_tmp, w2) = io_step w1
               in if open_tmp \<noteq> None then (KV_ERR_IO, kv_release_all_locks (forget_rewrite w2))
                  else
                    (let pending = buffered_records (aof w2);
                         (wr, w3) = (if pending = [] then (None, w2) else io_step w2)
                     in if wr \<noteq> None then (KV_ERR_IO, kv_release_all_locks (forget_rewrite w3))
                        else
                          (let (fl, w4) = (if pending = [] then (None, w3) else io_step w3);
                               written = (case fl of None \<Rightarrow> pending | Some n \<Rightarrow> take n pending);
                               (res, w5) = merge_install (tmp @ written) w4
                           in (res, kv_release_all_locks w5))))))"

definition kv_discard_aof_rewrite :: "world \<Rightarrow> world" where
  "kv_discard_aof_rewrite w =
     kv_release_all_locks (upd_aof (\<lambda>a. a\<lparr>aof_rewrite_pid := 0, aof_rewrite_buf := None,
        aof_rewrite_buf_len := 0, aof_rewrite_buf_cap := 0\<rparr>) (kv_acquire_all_locks w))"

section \<open>Log operations and their abstract effect\<close>

text \<open>What a client can tell about a value, and about the whole store.\<close>

datatype avalue = AString string | AList "string list" | ASet "string set"

fun abs_value :: "kv_value \<Rightarrow> avalue" where
  "abs_value (VString v) = AString v"
| "abs_value (VList l) = AList (l_nodes l)"
| "abs_value (VSet t) = ASet (elems t)"

type_synonym aview = "string \<Rightarrow> (avalue \<times> int) option"

definition abs_view :: "kv_store \<Rightarrow> aview" where
  "abs_view s k = map_option (\<lambda>e. (abs_value (e_value e), expire_at_ms e)) (lookup s k)"

datatype log_op =
    L_Set string string | L_Delete string | L_Lpush string string | L_Rpop string
  | L_Sadd string string | L_Srem string string | L_Pexpireat string int

fun op_line :: "log_op \<Rightarrow> string" where
  "op_line (L_Set k v) = ''SET'' @ tab # k @ tab # v"
| "op_line (L_Delete k) = ''DELETE'' @ tab # k"
| "op_line (L_Lpush k v) = ''LPUSH'' @ tab # k @ tab # v"
| "op_line (L_Rpop k) = ''RPOP'' @ tab # k"
| "op_line (L_Sadd k v) = ''SADD'' @ tab # k @ tab # v"
| "op_line (L_Srem k v) = ''SREM'' @ tab # k @ tab # v"
| "op_line (L_Pexpireat k t) = ''PEXPIREAT'' @ tab # k @ tab # show_int t"

definition op_record :: "log_op \<Rightarrow> string" where
  "op_record x = op_line x @ [nl]"

fun abs_op :: "log_op \<Rightarrow> aview \<Rightarrow> aview" where
  "abs_op (L_Set k v) m =
     (case m k of
        None \<Rightarrow> m(k \<mapsto> (AString v, 0)) | Some (AString _, t) \<Rightarrow> m(k \<mapsto> (AString v, t)) | _ \<Rightarrow> m)"
| "abs_op (L_Delete k) m = m(k := None)"
| "abs_op (L_Lpush k v) m =
     (case m k of
        None \<Rightarrow> m(k \<mapsto> (AList [v], 0)) | Some (AList vs, t) \<Rightarrow> m(k \<mapsto> (AList (v # vs), t)) | _ \<Rightarrow> m)"
| "abs_op (L_Rpop k) m =
     (case m k of
        Some (AList vs, t) \<Rightarrow>
          if vs = [] then m else m(k := (if butlast vs = [] then None else Some (AList (butlast vs), t)))
      | _ \<Rightarrow> m)"
| "abs_op (L_Sadd k v) m =
     (case m k of
        None \<Rightarrow> m(k \<mapsto> (ASet {v}, 0)) | Some (ASet S, t) \<Rightarrow> m(k \<mapsto> (ASet (insert v S), t)) | _ \<Rightarrow> m)"
| "abs_op (L_Srem k v) m =
     (case m k of
        Some (ASet S, t) \<Rightarrow>
          if v \<in> S then m(k := (if S - {v} = {} then None else Some (ASet (S - {v}), t))) else m
      | _ \<Rightarrow> m)"
| "abs_op (L_Pexpireat k t) m = m(k := map_option (\<lambda>(x, _). (x, t)) (m k))"

fun op_key :: "log_op \<Rightarrow> string" where
  "op_key (L_Set k v) = k" | "op_key (L_Delete k) = k" | "op_key (L_Lpush k v) = k" | "op_key (L_Rpop k) = k"
| "op_key (L_Sadd k v) = k" | "op_key (L_Srem k v) = k" | "op_key (L_Pexpireat k t) = k"

text \<open>Values that survive a trip through a line of the log.\<close>

definition loggable :: "string \<Rightarrow> bool" where
  "loggable v \<longleftrightarrow> cstring v \<and> valid_value v \<and> nl \<notin> set v \<and> (v \<noteq> [] \<longrightarrow> last v \<noteq> cr)"

fun op_ok :: "log_op \<Rightarrow> bool" where
  "op_ok (L_Set k v) \<longleftrightarrow> valid_key k \<and> cstring k \<and> loggable v"
| "op_ok (L_Delete k) \<longleftrightarrow> valid_key k \<and> cstring k"
| "op_ok (L_Lpush k v) \<longleftrightarrow> valid_key k \<and> cstring k \<and> loggable v"
| "op_ok (L_Rpop k) \<longleftrightarrow> valid_key k \<and> cstring k"
| "op_ok (L_Sadd k v) \<longleftrightarrow> valid_key k \<and> cstring k \<and> loggable v"
| "op_ok (L_Srem k v) \<longleftrightarrow> valid_key k \<and> cstring k \<and> loggable v"
| "op_ok (L_Pexpireat k t) \<longleftrightarrow> valid_key k \<and> cstring k \<and> int64 t"

text \<open>What the commands themselves ask of their arguments.\<close>

fun op_valid :: "log_op \<Rightarrow> bool" where
  "op_valid (L_Set k v) \<longleftrightarrow> valid_key k \<and> cstring k \<and> valid_value v \<and> cstring v"
| "op_valid (L_Lpush k v) \<longleftrightarrow> valid_key k \<and> cstring k \<and> valid_value v \<and> cstring v"
| "op_valid (L_Sadd k v) \<longleftrightarrow> valid_key k \<and> cstring k \<and> valid_value v \<and> cstring v"
| "op_valid x \<longleftrightarrow> valid_key (op_key x) \<and> cstring (op_key x)"

lemma op_ok_valid: "op_ok x \<Longrightarrow> op_valid x"
  by (cases x) (auto simp: loggable_def)

text \<open>A store without limits in surroundings without failures.\<close>

definition ready :: "nat \<Rightarrow> world \<Rightarrow> bool" where
  "ready base w \<longleftrightarrow> wf_store base (st w) \<and> lock_initialized (st w) \<and> no_oom w \<and>
     max_memory_budget (st w) = 0 \<and> max_capacity (st w) = 0"

definition unexpired :: "string \<Rightarrow> world \<Rightarrow> bool" where
  "unexpired k w \<longleftrightarrow> live_entry (st w) (now_of w) k = lookup (st w) k"

section \<open>Lines of the log\<close>

lemma valid_key_chars:
  assumes "valid_key k" and "c \<in> set k"
  shows "c \<noteq> tab" "c \<noteq> nl" "c \<noteq> cr" "c \<noteq> CHR '' ''"
  using assms by (auto simp: valid_key_def isspace_def list_all_iff)

lemma op_line_chars: "op_ok x \<Longrightarrow> nl \<notin> set (op_line x) \<and> CHR 0x00 \<notin> set (op_line x)"
  by (cases x) (auto simp: loggable_def cstring_def dest: valid_key_chars show_int_chars)

lemma show_int_last: "last (show_int n) \<noteq> cr"
  using show_int_chars(3) [of "last (show_int n)" n] by (auto simp: show_int_def)

lemma op_line_last: "op_ok x \<Longrightarrow> last (op_line x) \<noteq> cr"
  using show_int_last valid_key_chars(3) [of _ cr] by (cases x) (auto simp: loggable_def valid_key_def isspace_def list_all_iff)

lemma strip_record:
  assumes "op_ok x"
  shows "strip_line_endings (op_record x) = op_line x"
proof -
  obtain ys y where y: "op_line x = ys @ [y]"
    by (cases "op_line x" rule: rev_cases) (cases x; simp)+
  then have "y \<noteq> nl" "y \<noteq> cr" using op_line_chars [OF assms] op_line_last [OF assms] by auto
  then have "dropWhile (\<lambda>c. c = nl \<or> c = cr) (rev (op_line x)) = rev (op_line x)" using y by simp
  moreover have "takeWhile (\<lambda>c. c \<noteq> CHR 0x00) (op_record x) = op_record x"
    using op_line_chars [OF assms] by (auto simp: takeWhile_eq_all_conv op_record_def)
  ultimately show ?thesis by (simp add: strip_line_endings_def op_record_def)
qed

fun run_op :: "log_op \<Rightarrow> world \<Rightarrow> undefined_behaviour + world" where
  "run_op (L_Set k v) w = Inr (snd (kv_set_internal (Some k) (Some v) w))"
| "run_op (L_Delete k) w = Inr (snd (kv_delete_internal (Some k) w))"
| "run_op (L_Lpush k v) w = ignoring (kv_lpush (Some k) (Some v) w)"
| "run_op (L_Rpop k) w = Inr (snd (snd (kv_rpop (Some k) w)))"
| "run_op (L_Sadd k v) w = ignoring (kv_sadd (Some k) (Some v) w)"
| "run_op (L_Srem k v) w = Inr (snd (kv_srem (Some k) (Some v) w))"
| "run_op (L_Pexpireat k t) w = Inr (kv_set_expire_at_ms_internal (Some k) t w)"

lemma valid_key_ok: "valid_key k \<Longrightarrow> cstring k \<Longrightarrow> \<not> isl (validate_key (Some k))"
  using validate_key_Inr [of k "length k"] by simp

lemma loggable_ok: "loggable v \<Longrightarrow> \<not> isl (validate_value (Some v))"
  using validate_value_Inr [of v "length v"] by (simp add: loggable_def)

lemma split_at_key:
  assumes "valid_key k"
  shows "split_at tab (k @ tab # v) = Some (k, v)" "split_at tab k = None"
  using valid_key_chars(1) [OF assms] by (auto simp: split_at_None intro: split_at_field)

lemma replay_pair_record:
  "valid_key k \<Longrightarrow> cstring k \<Longrightarrow> loggable v \<Longrightarrow> replay_pair act (tab, k @ tab # v) w = act k v w"
  by (simp add: replay_pair_def split_at_key valid_key_ok loggable_ok)

lemma replay_key_record:
  "valid_key k \<Longrightarrow> cstring k \<Longrightarrow> replay_key act (tab, k) w = act k w"
  by (simp add: replay_key_def split_at_key valid_key_ok)

lemma replay_deadline_record:
  "valid_key k \<Longrightarrow> cstring k \<Longrightarrow> int64 t \<Longrightarrow>
     replay_deadline (tab, k @ tab # show_int t) w = kv_set_expire_at_ms_internal (Some k) t w"
  using strtoll_show_int [of t "[]"] by (simp add: replay_deadline_def split_at_key valid_key_ok)

lemma replay_op_line: "op_ok x \<Longrightarrow> replay_line (op_line x) w = run_op x w"
  by (cases x) (simp_all add: replay_line_def command_rest_def has_prefix_def replay_pair_record
      replay_key_record replay_deadline_record)

lemma replay_records_Cons:
  assumes "op_ok x"
  shows "replay_lines (map op_record (x # xs)) w =
    (case run_op x w of Inl ub \<Rightarrow> Inl ub | Inr w1 \<Rightarrow> replay_lines (map op_record xs) w1)"
proof -
  have "op_line x \<noteq> []" by (cases x) simp_all
  then show ?thesis using assms by (simp add: strip_record replay_op_line)
qed

lemma op_line_length: "op_ok x \<Longrightarrow> length (op_line x) \<le> 8190"
  by (cases x) (auto simp: valid_key_def loggable_def valid_value_def dest: show_int_length)

lemma replay_log_records:
  assumes "\<And>x. x \<in> set xs \<Longrightarrow> op_ok x"
  shows "replay_aof_log (Some path) (Some (concat (map op_record xs))) w = replay_lines (map op_record xs) w"
proof -
  have "nl \<notin> set s \<and> length s \<le> 8190" if "s \<in> set (map op_line xs)" for s
    using that assms op_line_chars op_line_length by auto
  from fgets_all_lines [of "map op_line xs" 8190, OF this] show ?thesis
    by (simp add: replay_aof_log_def op_record_def [abs_def] comp_def)
qed

section \<open>The effect of one operation\<close>

definition effect :: "nat \<Rightarrow> log_op \<Rightarrow> world \<Rightarrow> world \<Rightarrow> bool" where
  "effect base x w w' \<longleftrightarrow> ready base w' \<and> kept w w' \<and> abs_view (st w') = abs_op x (abs_view (st w))"

lemma readyD:
  assumes "ready base w"
  shows "wf_store base (st w)" "lock_initialized (st w)" "no_oom w" "max_memory_budget (st w) = 0"
    "max_capacity (st w) = 0"
  using assms by (simp_all add: ready_def)

lemma ready_kept:
  "ready base w \<Longrightarrow> kept w w' \<Longrightarrow> wf_store base (st w') \<Longrightarrow> same_settings (st w) (st w') \<Longrightarrow> ready base w'"
  using keptD(2) [of w w'] by (simp add: ready_def same_settings_def)

lemma abs_view_kv: "abs_view s k = map_option (map_prod abs_value id) (kv_view s k)"
  by (simp add: abs_view_def kv_view_def option.map_comp comp_def)

lemma abs_view_cong: "kv_view s = kv_view s' \<Longrightarrow> abs_view s = abs_view s'"
  by (simp add: abs_view_kv fun_eq_iff)

lemma abs_view_upd:
  "kv_view s' = (kv_view s)(k := x) \<Longrightarrow> abs_view s' = (abs_view s)(k := map_option (map_prod abs_value id) x)"
  by (simp add: abs_view_kv fun_eq_iff)

lemma abs_view_stored:
  "lookup s' = (lookup s)(k \<mapsto> e) \<Longrightarrow> abs_view s' = (abs_view s)(k \<mapsto> (abs_value (e_value e), expire_at_ms e))"
  by (simp add: abs_view_def fun_eq_iff)

lemma unexpired_outcome: "unexpired k w \<Longrightarrow> lookup_outcome k w w' \<Longrightarrow> kv_view (st w') = kv_view (st w)"
  by (auto simp: unexpired_def lookup_outcome_def kv_view_def fun_eq_iff)

lemma effect_set:
  assumes "ready base w" and "op_valid (L_Set k v)"
  shows "effect base (L_Set k v) w (snd (kv_set_internal (Some k) (Some v) w))"
proof -
  note r = readyD [OF assms(1)]
  let ?w' = "snd (kv_set_internal (Some k) (Some v) w)"
  have kept: "kept w ?w'" by (simp add: kept_kv_set_internal)
  have k: "valid_key k" "cstring k" "valid_value v" "cstring v" using assms(2) by (simp_all add: loggable_def)
  from r(1) k(2,4) show ?thesis
  proof (cases rule: kv_set_internal_cases)
    case refused
    then obtain e where "lookup (st w) k = Some e" "e_type e \<noteq> KV_TYPE_STRING"
      using kv_set_internal_total [OF r(1,3) k(2,1,4,3) r(4)] r(5) by blast
    moreover have "st ?w' = st w" using refused(2) r(4) by (simp add: only_evicted_def)
    ultimately show ?thesis
      using ready_kept [OF assms(1) kept] r(1) kept
      by (cases "e_value e") (simp_all add: effect_def abs_view_def)
  next
    case stored
    then obtain e where e: "stored k e (st w) (st ?w')" "e_value e = VString v" "expire_at_ms e = expiry_of (st w) k"
      and str: "\<And>e0. lookup (st w) k = Some e0 \<Longrightarrow> e_type e0 = KV_TYPE_STRING"
      using r(4) by (auto simp: string_stored_def)
    have "abs_view (st ?w') = (abs_view (st w))(k \<mapsto> (AString v, expiry_of (st w) k))"
      using e r(4) abs_view_stored [of "st ?w'" "st w" k e] by (simp add: stored_def)
    moreover have "abs_op (L_Set k v) (abs_view (st w)) = (abs_view (st w))(k \<mapsto> (AString v, expiry_of (st w) k))"
      using str by (cases "lookup (st w) k")
        (auto simp: abs_view_def expiry_of_def split: avalue.split elim!: abs_value.elims)
    moreover have "ready base ?w'"
      using ready_kept [OF assms(1) kept] stored e(1) by (simp add: stored_def)
    ultimately show ?thesis using kept by (simp add: effect_def)
  qed
qed

lemma effect_delete:
  assumes "ready base w" and "op_valid (L_Delete k)"
  shows "effect base (L_Delete k) w (snd (kv_delete_internal (Some k) w))"
proof -
  let ?w' = "snd (kv_delete_internal (Some k) w)"
  have kept: "kept w ?w'" by (simp add: kept_kv_delete_internal)
  have "cstring k" "valid_key k" using assms(2) by simp_all
  note del = kv_delete_internal_spec [OF readyD(1) [OF assms(1)] this]
  have "abs_view (st ?w') = (abs_view (st w))(k := None)"
    using del(3) by (simp add: abs_view_def fun_eq_iff)
  then show ?thesis
    using ready_kept [OF assms(1) kept del(1) shrunk_settings [OF del(4)]] kept by (simp add: effect_def)
qed

lemma effect_pexpireat:
  assumes "ready base w"
  shows "effect base (L_Pexpireat k t) w (kv_set_expire_at_ms_internal (Some k) t w)"
proof -
  let ?w' = "kv_set_expire_at_ms_internal (Some k) t w"
  note s = kv_set_expire_at_ms_internal_spec [OF readyD(1) [OF assms], of k t]
  have kept: "kept w ?w'" by (simp add: kept_set_expire)
  have "abs_view (st ?w') = abs_op (L_Pexpireat k t) (abs_view (st w))"
    using abs_view_upd [OF redated_view [OF s(2)]]
    by (auto simp: abs_view_def fun_eq_iff option.map_comp comp_def)
  then show ?thesis
    using ready_kept [OF assms kept s(1)] s(2) kept by (simp add: effect_def redated_def)
qed

text \<open>A collection command on a key of another type changes nothing.\<close>

lemma obtain_entry_wrong_type:
  assumes "wf_store base (st w)" and "live_entry (st w) (now_of w) k = Some e" and "e_type e \<noteq> kind"
  shows "fst (obtain_entry kind fresh alloc k w) = KV_ERR_WRONG_TYPE"
    "st (snd (obtain_entry kind fresh alloc k w)) = st w"
proof -
  from assms(1) have "fst (obtain_entry kind fresh alloc k w) = KV_ERR_WRONG_TYPE \<and>
    st (snd (obtain_entry kind fresh alloc k w)) = st w"
    by (rule find_entry_cases [where k = k])
      (use assms(2,3) in \<open>auto simp: obtain_entry_def split_beta live_entry_def\<close>)
  then show "fst (obtain_entry kind fresh alloc k w) = KV_ERR_WRONG_TYPE"
    "st (snd (obtain_entry kind fresh alloc k w)) = st w" by simp_all
qed

lemma push_wrong_type:
  assumes "ready base w" and "valid_key k" and "cstring k" and "valid_value v" and "cstring v"
    and "live_entry (st w) (now_of w) k = Some e"
  shows "e_type e \<noteq> KV_TYPE_LIST \<Longrightarrow> \<exists>w'. kv_lpush (Some k) (Some v) w = Inr (KV_ERR_WRONG_TYPE, w') \<and> st w' = st w"
    "e_type e \<noteq> KV_TYPE_SET \<Longrightarrow> \<exists>w'. kv_sadd (Some k) (Some v) w = Inr (KV_ERR_WRONG_TYPE, w') \<and> st w' = st w"
proof -
  note r = readyD [OF assms(1)]
  define w1 where "w1 bytes = snd (coll_acquire bytes k w)" for bytes
  have w1: "wf_store base (st (w1 bytes))" "live_entry (st (w1 bytes)) (now_of (w1 bytes)) k = Some e" "st (w1 bytes) = st w" for bytes
    using r(1) assms(6) by (simp_all add: w1_def frame)
  note wrong = obtain_entry_wrong_type [OF w1(1,2)]
  show "e_type e \<noteq> KV_TYPE_LIST \<Longrightarrow> \<exists>w'. kv_lpush (Some k) (Some v) w = Inr (KV_ERR_WRONG_TYPE, w') \<and> st w' = st w"
    using wrong r(2) assms(2-5) w1(3) by (simp add: kv_lpush_def Let_def split_beta w1_def frame)
  show "e_type e \<noteq> KV_TYPE_SET \<Longrightarrow> \<exists>w'. kv_sadd (Some k) (Some v) w = Inr (KV_ERR_WRONG_TYPE, w') \<and> st w' = st w"
    using wrong r(2) assms(2-5) w1(3) by (simp add: kv_sadd_def Let_def split_beta w1_def frame)
qed

lemma effect_unchanged:
  assumes "ready base w" and "kept w w'" and "wf_store base (st w')" and "same_settings (st w) (st w')"
    and "kv_view (st w') = kv_view (st w)" and "abs_op x (abs_view (st w)) = abs_view (st w)"
  shows "effect base x w w'"
  using assms abs_view_cong [OF assms(5)] ready_kept [OF assms(1-4)] by (simp add: effect_def)

lemma effect_lpush:
  assumes "ready base w" and "op_valid (L_Lpush k v)" and "unexpired k w"
  shows "\<exists>r w'. kv_lpush (Some k) (Some v) w = Inr (r, w') \<and> effect base (L_Lpush k v) w w'"
proof -
  note r = readyD [OF assms(1)]
  have k: "cstring k" "valid_key k" "cstring v" "valid_value v" using assms(2) by (simp_all add: loggable_def)
  have live: "live_entry (st w) (now_of w) k = lookup (st w) k" using assms(3) by (simp add: unexpired_def)
  show ?thesis
  proof (cases "\<exists>e. lookup (st w) k = Some e \<and> e_type e \<noteq> KV_TYPE_LIST")
    case True
    then obtain e w' where e: "lookup (st w) k = Some e" "e_type e \<noteq> KV_TYPE_LIST"
      and w': "kv_lpush (Some k) (Some v) w = Inr (KV_ERR_WRONG_TYPE, w')" "st w' = st w"
      using push_wrong_type(1) [OF assms(1) k(2,1,4,3)] live by force
    have "effect base (L_Lpush k v) w w'"
      using r(1) w'(2) e by (intro effect_unchanged [OF assms(1) kept_kv_lpush [OF w'(1)]])
        (auto simp: abs_view_def split: avalue.split elim!: abs_value.elims)
    with w'(1) show ?thesis by blast
  next
    case False
    then have ty: "live_entry (st w) (now_of w) k = Some e \<Longrightarrow> e_type e = KV_TYPE_LIST" for e using live by auto
    obtain n w' e l where run: "kv_lpush (Some k) (Some v) w = Inr (n, w')"
      and o: "open_value (VList empty_list) (lookup (st w) k) = (VList l, expire_at_ms e)"
      and s: "stored k e (st w) (st w')" "e_value e = VList (list_push v l)" "wf_store base (st w')"
      using kv_lpush_total [OF r(1-3) k r(4,5) ty] live by metis
    note kept = kept_kv_lpush [OF run]
    have "abs_view (st w') = (abs_view (st w))(k \<mapsto> (AList (v # l_nodes l), expire_at_ms e))"
      using s r(4) abs_view_stored [of "st w'" "st w" k e] by (simp add: stored_def)
    moreover have "abs_op (L_Lpush k v) (abs_view (st w)) = (abs_view (st w))(k \<mapsto> (AList (v # l_nodes l), expire_at_ms e))"
      using o by (auto simp: open_value_def abs_view_def empty_list_def split: option.splits)
    ultimately show ?thesis
      using run ready_kept [OF assms(1) kept s(3)] s(1) kept by (auto simp: effect_def stored_def)
  qed
qed

lemma effect_sadd:
  assumes "ready base w" and "op_valid (L_Sadd k v)" and "unexpired k w"
  shows "\<exists>r w'. kv_sadd (Some k) (Some v) w = Inr (r, w') \<and> effect base (L_Sadd k v) w w'"
proof -
  note r = readyD [OF assms(1)]
  have k: "cstring k" "valid_key k" "cstring v" "valid_value v" using assms(2) by (simp_all add: loggable_def)
  have live: "live_entry (st w) (now_of w) k = lookup (st w) k" using assms(3) by (simp add: unexpired_def)
  have upd: "effect base (L_Sadd k v) w w'"
    if "kv_sadd (Some k) (Some v) w = Inr (n, w')" "stored k e (st w) (st w')" "e_value e = VSet t'"
      "wf_store base (st w')" "open_value (VSet empty_set_value) (lookup (st w) k) = (VSet t, expire_at_ms e)"
      "elems t' = insert v (elems t)" for n w' e t t'
  proof -
    note kept = kept_kv_sadd [OF that(1)]
    have "abs_view (st w') = (abs_view (st w))(k \<mapsto> (ASet (insert v (elems t)), expire_at_ms e))"
      using that r(4) abs_view_stored [of "st w'" "st w" k e] by (simp add: stored_def)
    moreover have "abs_op (L_Sadd k v) (abs_view (st w)) = (abs_view (st w))(k \<mapsto> (ASet (insert v (elems t)), expire_at_ms e))"
      using that(5) empty_set_spec(2) by (auto simp: open_value_def abs_view_def split: option.splits)
    ultimately show ?thesis
      using ready_kept [OF assms(1) kept that(4)] that(2) kept by (auto simp: effect_def stored_def)
  qed
  show ?thesis
  proof (cases "\<exists>e. lookup (st w) k = Some e \<and> e_type e \<noteq> KV_TYPE_SET")
    case True
    then obtain e w' where e: "lookup (st w) k = Some e" "e_type e \<noteq> KV_TYPE_SET"
      and w': "kv_sadd (Some k) (Some v) w = Inr (KV_ERR_WRONG_TYPE, w')" "st w' = st w"
      using push_wrong_type(2) [OF assms(1) k(2,1,4,3)] live by force
    have "effect base (L_Sadd k v) w w'"
      using r(1) w'(2) e by (intro effect_unchanged [OF assms(1) kept_kv_sadd [OF w'(1)]])
        (auto simp: abs_view_def split: avalue.split elim!: abs_value.elims)
    with w'(1) show ?thesis by blast
  next
    case False
    then have ty: "live_entry (st w) (now_of w) k = Some e \<Longrightarrow> e_type e = KV_TYPE_SET" for e using live by auto
    obtain n w0 where run: "kv_sadd (Some k) (Some v) w = Inr (n, w0)" "0 \<le> n"
      using kv_sadd_total [OF r(1-3) k r(4,5) ty] by (metis order_refl zero_le_one)
    from r(1) k(1,3) show ?thesis
    proof (cases rule: kv_sadd_cases)
      case (refused n' w')
      with run show ?thesis by simp
    next
      case freed
      with run show ?thesis by simp
    next
      case (member w' e t)
      with upd [OF member(1,4,5,6)] live show ?thesis by (metis insert_absorb)
    next
      case (added w' e t)
      with upd [OF added(1,6,7,8)] live set_link_spec(2) [OF added(5,4) k(4,3)] show ?thesis by metis
    qed
  qed
qed

lemma kv_rpop_nonempty:
  assumes "ready base w" and "live_entry (st w) (now_of w) k = Some e" and "e_value e = VList l" and "l_nodes l \<noteq> []"
  shows "fst (kv_rpop (Some k) w) = KV_OK"
  using readyD(1) [OF assms(1)]
proof (cases rule: locked_find_cases [where k = k])
  case (absent w2)
  with assms(2) show ?thesis by simp
next
  case (found ptr w2)
  have "no_oom w2"
    using no_oom_find_entry [of k "kv_acquire_bucket_lock k w"] found(1) readyD(3) [OF assms(1)] by simp
  moreover have "l_count l \<noteq> 0"
    using lookup_wf [OF readyD(1) [OF assms(1)], of k e] assms(2-4)
    by (auto simp: wf_entry_def live_entry_def split: option.splits if_splits)
  ultimately show ?thesis
    using found assms(2-4) readyD(2) [OF assms(1)]
    by (simp add: kv_rpop_def rpop_entry_def list_pop_def libc_malloc_def no_oom_def)
qed

lemma lookup_outcome_settings: "lookup_outcome k w w' \<Longrightarrow> same_settings (st w) (st w')"
  by (simp add: lookup_outcome_def)

lemma effect_rpop:
  assumes "ready base w" and "unexpired k w"
  shows "effect base (L_Rpop k) w (snd (snd (kv_rpop (Some k) w)))"
proof -
  note r = readyD [OF assms(1)]
  have live: "live_entry (st w) (now_of w) k = lookup (st w) k" using assms(2) by (simp add: unexpired_def)
  have kept: "kept w (snd (snd (kv_rpop (Some k) w)))" by (rule kept_kv_rpop)
  from r(1,2) show ?thesis
  proof (cases rule: kv_rpop_cases [where k = k])
    case (refused n w')
    have "l_nodes l = []" if "lookup (st w) k = Some e" "e_value e = VList l" for e l
      using kv_rpop_nonempty [OF assms(1), of k e l] refused(1,2) live that by auto
    then have "abs_op (L_Rpop k) (abs_view (st w)) = abs_view (st w)"
      by (auto simp: abs_view_def split: option.split avalue.split elim!: abs_value.elims)
    with refused kept unexpired_outcome [OF assms(2) refused(4)] lookup_outcome_settings [OF refused(4)] show ?thesis
      by (intro effect_unchanged [OF assms(1) kept]) simp_all
  next
    case (popped w' e v l l')
    have "abs_view (st w) k = Some (AList (l_nodes l' @ [v]), expire_at_ms e)"
      using popped(2-4) live by (simp add: abs_view_def)
    with popped kept abs_view_upd [OF popped(8)] ready_kept [OF assms(1) kept] show ?thesis
      by (simp add: effect_def)
  qed
qed

lemma effect_srem:
  assumes "ready base w" and "unexpired k w"
  shows "effect base (L_Srem k v) w (snd (kv_srem (Some k) (Some v) w))"
proof -
  note r = readyD [OF assms(1)]
  have live: "live_entry (st w) (now_of w) k = lookup (st w) k" using assms(2) by (simp add: unexpired_def)
  have kept: "kept w (snd (kv_srem (Some k) (Some v) w))" by (rule kept_kv_srem)
  from r(1,2) show ?thesis
  proof (cases rule: kv_srem_cases [where k = k and v = v])
    case (refused n w')
    have "abs_op (L_Srem k v) (abs_view (st w)) = abs_view (st w)"
      using refused(3) live
      by (auto simp: abs_view_def members_at_def split: option.splits avalue.split elim!: abs_value.elims)
    with refused kept unexpired_outcome [OF assms(2) refused(5)] lookup_outcome_settings [OF refused(5)] show ?thesis
      by (intro effect_unchanged [OF assms(1) kept]) simp_all
  next
    case (removed w' e t t')
    have "abs_view (st w) k = Some (ASet (elems t), expire_at_ms e)"
      using removed(2,3) live by (simp add: abs_view_def)
    with removed kept abs_view_upd [OF removed(9)] ready_kept [OF assms(1) kept] show ?thesis
      by (simp add: effect_def)
  qed
qed

lemma run_op_effect:
  assumes "ready base w" and "op_valid x" and "unexpired (op_key x) w"
  shows "\<exists>w'. run_op x w = Inr w' \<and> effect base x w w'"
  using assms effect_set [of base w] effect_delete [of base w] effect_lpush [of base w] effect_rpop [of base w]
    effect_sadd [of base w] effect_srem [of base w] effect_pexpireat [of base w]
  by (cases x) (fastforce simp: ignoring_def)+

section \<open>Replaying a sequence of operations\<close>

text \<open>\<open>punctual clk xs m\<close>: whatever the clock says, no operation of \<open>xs\<close> meets a key that has
  expired.\<close>

fun due :: "aview \<Rightarrow> string \<Rightarrow> int \<Rightarrow> bool" where
  "due m k now \<longleftrightarrow> (case m k of None \<Rightarrow> False | Some (x, t) \<Rightarrow> 0 < t \<and> t \<le> now)"

fun punctual :: "(nat \<Rightarrow> int) \<Rightarrow> log_op list \<Rightarrow> aview \<Rightarrow> bool" where
  "punctual clk [] m \<longleftrightarrow> True"
| "punctual clk (x # xs) m \<longleftrightarrow> (\<forall>n. \<not> due m (op_key x) (clk n)) \<and> punctual clk xs (abs_op x m)"

lemma punctual_append: "punctual clk (xs @ ys) m \<longleftrightarrow> punctual clk xs m \<and> punctual clk ys (fold abs_op xs m)"
  by (induction xs arbitrary: m) auto

lemma punctual_unexpired: "punctual (clock (os w)) (x # xs) (abs_view (st w)) \<Longrightarrow> unexpired (op_key x) w"
  by (auto simp: unexpired_def live_entry_def entry_is_expired_def abs_view_def kv_current_time_ms_def
      split: option.splits)

lemma replay_applies:
  assumes "ready base w" and "\<And>x. x \<in> set xs \<Longrightarrow> op_ok x" and "punctual (clock (os w)) xs (abs_view (st w))"
  shows "\<exists>w'. replay_lines (map op_record xs) w = Inr w' \<and> ready base w' \<and> kept w w' \<and>
    abs_view (st w') = fold abs_op xs (abs_view (st w))"
  using assms
proof (induction xs arbitrary: w)
  case Nil
  then show ?case by auto
next
  case (Cons x xs)
  obtain w1 where w1: "run_op x w = Inr w1" "effect base x w w1"
    using run_op_effect [OF Cons.prems(1) op_ok_valid punctual_unexpired [OF Cons.prems(3)]] Cons.prems(2) by auto
  have "ready base w1" "kept w w1" "abs_view (st w1) = abs_op x (abs_view (st w))"
    using w1(2) by (simp_all add: effect_def)
  moreover have "punctual (clock (os w1)) xs (abs_view (st w1))"
    using Cons.prems(3) calculation keptD(1) [of w w1] by simp
  ultimately obtain w' where "replay_lines (map op_record xs) w1 = Inr w'" "ready base w'" "kept w1 w'"
    "abs_view (st w') = fold abs_op xs (abs_view (st w1))"
    using Cons.IH [of w1] Cons.prems(2) by auto
  with w1 replay_records_Cons [of x xs w] Cons.prems(2) show ?case
    by (auto simp: effect_def intro: kept_trans)
qed

section \<open>The rewritten log\<close>

fun value_ops :: "string \<Rightarrow> kv_value \<Rightarrow> log_op list" where
  "value_ops k (VString v) = [L_Set k v]"
| "value_ops k (VList l) = map (L_Lpush k) (rev (l_nodes l))"
| "value_ops k (VSet t) = map (L_Sadd k) (concat (take (s_bucket_count t) (s_buckets t)))"

definition entry_ops :: "int \<Rightarrow> kv_entry \<Rightarrow> log_op list" where
  "entry_ops now e =
     (if entry_is_expired e now then []
      else value_ops (e_key e) (e_value e) @
           (if expire_at_ms e > 0 then [L_Pexpireat (e_key e) (expire_at_ms e)] else []))"

definition store_ops :: "int \<Rightarrow> kv_store \<Rightarrow> log_op list" where
  "store_ops now s = concat (map (entry_ops now) (concat (take (bucket_count s) (buckets s))))"

lemma rewrite_entry_ops: "rewrite_entry now e = map op_record (entry_ops now e)"
proof -
  have "rewrite_value k x = map op_record (value_ops k x)" for k x
    by (cases x) (simp_all add: op_record_def record2_def)
  then show ?thesis by (simp add: rewrite_entry_def entry_ops_def op_record_def record2_def)
qed

lemma rewrite_store_ops: "rewrite_store now s = concat (map op_record (store_ops now s))"
proof -
  have "rewrite_entry now = (\<lambda>e. map op_record (entry_ops now e))" by (simp add: fun_eq_iff rewrite_entry_ops)
  then show ?thesis by (simp add: rewrite_store_def store_ops_def map_concat comp_def)
qed

text \<open>A container without elements leaves no trace in the rewritten log.\<close>

fun hollow :: "avalue \<Rightarrow> bool" where
  "hollow (AString v) = False"
| "hollow (AList vs) = (vs = [])"
| "hollow (ASet S) = (S = {})"

definition rewritten :: "int \<Rightarrow> kv_entry \<Rightarrow> (avalue \<times> int) option" where
  "rewritten now e =
     (if entry_is_expired e now \<or> hollow (abs_value (e_value e)) then None
      else Some (abs_value (e_value e), max 0 (expire_at_ms e)))"

lemma fold_lpush:
  "m k = Some (AList ys, t) \<Longrightarrow> fold abs_op (map (L_Lpush k) vs) m = m(k \<mapsto> (AList (rev vs @ ys), t))"
  by (induction vs arbitrary: m ys) auto

lemma fold_sadd:
  "m k = Some (ASet S, t) \<Longrightarrow> fold abs_op (map (L_Sadd k) vs) m = m(k \<mapsto> (ASet (set vs \<union> S), t))"
  by (induction vs arbitrary: m S) auto

lemma fold_value_ops:
  assumes "m k = None" and "wf_value x"
  shows "fold abs_op (value_ops k x) m = (if hollow (abs_value x) then m else m(k \<mapsto> (abs_value x, 0)))"
proof (cases x)
  case (VString v)
  then show ?thesis using assms(1) by simp
next
  case (VList l)
  then show ?thesis
    using assms(1) fold_lpush [of "m(k \<mapsto> (AList [last (l_nodes l)], 0))" k _ 0 "rev (butlast (l_nodes l))"]
    by (cases "l_nodes l" rule: rev_cases) auto
next
  case (VSet t)
  define vs where "vs = concat (take (s_bucket_count t) (s_buckets t))"
  have "elems t = set vs" using assms(2) VSet by (simp add: elems_def vs_def)
  then show ?thesis
    using assms(1) VSet fold_sadd [of "m(k \<mapsto> (ASet {v}, 0))" k "{v}" 0 for v]
    by (cases vs) (auto simp: vs_def [symmetric])
qed

lemma punctual_same_key:
  assumes "\<And>x. x \<in> set xs \<Longrightarrow> op_key x = k \<and> (\<forall>t. x \<noteq> L_Pexpireat k t)" and "\<And>y t. m k = Some (y, t) \<Longrightarrow> t \<le> 0"
  shows "punctual clk xs m \<and> (\<forall>y t. fold abs_op xs m k = Some (y, t) \<longrightarrow> t \<le> 0)"
  using assms
proof (induction xs arbitrary: m)
  case Nil
  then show ?case by auto
next
  case (Cons x xs)
  have "abs_op x m k = Some (y, t) \<Longrightarrow> t \<le> 0" for y t
    using Cons.prems(1) [of x] Cons.prems(2)
    by (cases x) (auto split: option.splits avalue.splits if_splits)
  with Cons.IH [of "abs_op x m"] Cons.prems show ?case by (force split: option.splits)
qed

lemma entry_ops_effect:
  assumes "m (e_key e) = None" and "wf_entry e"
  shows "fold abs_op (entry_ops now e) m = m(e_key e := rewritten now e)" "punctual clk (entry_ops now e) m"
proof -
  have wfv: "wf_value (e_value e)" using assms(2) by (simp add: wf_entry_def)
  note v = fold_value_ops [of m "e_key e" "e_value e", OF assms(1) wfv]
  show "fold abs_op (entry_ops now e) m = m(e_key e := rewritten now e)"
    using v assms(1) by (auto simp: entry_ops_def rewritten_def fun_eq_iff)
  have keys: "x \<in> set (value_ops k y) \<Longrightarrow> op_key x = k \<and> (\<forall>t. x \<noteq> L_Pexpireat k t)" for k y x
    by (cases y) auto
  have "punctual clk (value_ops (e_key e) (e_value e)) m"
    using punctual_same_key [of "value_ops (e_key e) (e_value e)" "e_key e" m clk] keys assms(1) by simp
  then show "punctual clk (entry_ops now e) m"
    using v assms(1) by (auto simp: entry_ops_def punctual_append)
qed

lemma entries_ops_effect:
  assumes "distinct (map e_key es)" and "\<And>e. e \<in> set es \<Longrightarrow> wf_entry e \<and> m (e_key e) = None"
  shows "fold abs_op (concat (map (entry_ops now) es)) m =
      (\<lambda>k. case find (\<lambda>e. e_key e = k) es of None \<Rightarrow> m k | Some e \<Rightarrow> rewritten now e) \<and>
    punctual clk (concat (map (entry_ops now) es)) m"
  using assms
proof (induction es arbitrary: m)
  case Nil
  then show ?case by simp
next
  case (Cons e es)
  have e: "m (e_key e) = None" "wf_entry e" using Cons.prems(2) by simp_all
  note step = entry_ops_effect [where m = m and e = e and now = now, OF e]
  define m' where "m' = m(e_key e := rewritten now e)"
  have rest: "distinct (map e_key es)" "\<And>e'. e' \<in> set es \<Longrightarrow> wf_entry e' \<and> m' (e_key e') = None"
    using Cons.prems by (auto simp: m'_def rev_image_eqI)
  have none: "find (\<lambda>e'. e_key e' = e_key e) es = None"
    using Cons.prems(1) by (auto simp: find_None_iff rev_image_eqI)
  show ?case
    using Cons.IH [of m', OF rest] step [folded m'_def] none
    by (intro conjI ext) (simp_all add: punctual_append, auto simp: m'_def split: option.split)
qed

fun value_strings :: "kv_value \<Rightarrow> string set" where
  "value_strings (VString v) = {v}"
| "value_strings (VList l) = set (l_nodes l)"
| "value_strings (VSet t) = elems t"

text \<open>Every string of the store survives a line of the log, every deadline its type.\<close>

definition loggable_store :: "kv_store \<Rightarrow> bool" where
  "loggable_store s \<longleftrightarrow>
     (\<forall>k e. lookup s k = Some e \<longrightarrow> int64 (expire_at_ms e) \<and> (\<forall>v\<in>value_strings (e_value e). loggable v))"

lemma lookup_concat:
  assumes "wf_store base s"
  shows "lookup s k = find (\<lambda>e. e_key e = k) (concat (buckets s))"
  using entries.find_concat_placed [OF wf_storeD(5) [OF assms] wf_storeD(3) [OF assms], of k] by (simp add: lookup_def)

lemma lookup_member:
  assumes "wf_store base s" and "e \<in> set (concat (buckets s))"
  shows "lookup s (e_key e) = Some e"
proof -
  from assms(2) obtain i p where "i < length (buckets s)" "p < length (buckets s ! i)" "buckets s ! i ! p = e"
    by (auto simp: in_set_conv_nth)
  then show ?thesis using lookup_deref [OF assms(1), of "(i, p)"] by (simp add: valid_ptr_def)
qed

lemma store_ops_ok:
  assumes "wf_store base s" and "loggable_store s" and "x \<in> set (store_ops now s)"
  shows "op_ok x"
proof -
  obtain e where e: "e \<in> set (concat (buckets s))" "x \<in> set (entry_ops now e)"
    using assms(3) wf_storeD(1) [OF assms(1)] by (auto simp: store_ops_def)
  note l = lookup_member [OF assms(1) e(1)]
  have wf: "valid_key (e_key e)" "cstring (e_key e)" "wf_value (e_value e)"
    using lookup_wf [OF assms(1) l] by (simp_all add: wf_entry_def)
  have s: "int64 (expire_at_ms e)" "\<And>v. v \<in> value_strings (e_value e) \<Longrightarrow> loggable v"
    using assms(2) l by (auto simp: loggable_store_def)
  have "y \<in> set (value_ops (e_key e) (e_value e)) \<Longrightarrow>
      \<exists>v\<in>value_strings (e_value e). y \<in> {L_Set (e_key e) v, L_Lpush (e_key e) v, L_Sadd (e_key e) v}" for y
    using wf(3) by (cases "e_value e") (auto simp: elems_def)
  then have "y \<in> set (value_ops (e_key e) (e_value e)) \<Longrightarrow> op_ok y" for y
    using wf s(2) by fastforce
  then show ?thesis using e(2) wf s(1) by (auto simp: entry_ops_def split: if_splits)
qed

lemma store_ops_effect:
  assumes "wf_store base s"
  shows "fold abs_op (store_ops now s) Map.empty = (\<lambda>k. Option.bind (lookup s k) (rewritten now))"
    "punctual clk (store_ops now s) Map.empty"
proof -
  have all: "store_ops now s = concat (map (entry_ops now) (concat (buckets s)))"
    using wf_storeD(1) [OF assms] by (simp add: store_ops_def)
  have d: "distinct (map e_key (concat (buckets s)))"
    using entries.distinct_concat_placed [OF wf_storeD(5) [OF assms]] .
  have w: "e \<in> set (concat (buckets s)) \<Longrightarrow> wf_entry e \<and> Map.empty (e_key e) = None" for e
    using lookup_wf [OF assms lookup_member [OF assms]] by simp
  note es = entries_ops_effect [OF d, of Map.empty, OF w]
  show "fold abs_op (store_ops now s) Map.empty = (\<lambda>k. Option.bind (lookup s k) (rewritten now))"
    using es [of now] by (simp add: all lookup_concat [OF assms] fun_eq_iff split: option.split)
  show "punctual clk (store_ops now s) Map.empty" using es by (simp add: all)
qed

section \<open>Properties\<close>

text \<open>Log operations survive a round trip through the file: replaying the text of any sequence
  of records into a store without limits applies exactly these operations, in order, provided
  none of them meets an expired key.\<close>

lemma replay_applies_log:
  assumes "ready base w" and "\<forall>x\<in>set xs. op_ok x" and "punctual (clock (os w)) xs (abs_view (st w))"
  shows "\<exists>w'. replay_aof_log (Some path) (Some (concat (map op_record xs))) w = Inr w' \<and> ready base w' \<and>
    abs_view (st w') = fold abs_op xs (abs_view (st w))"
  using replay_applies [OF assms(1) _ assms(3)] replay_log_records [of xs path w] assms(2) by auto

lemma replay_applies_log_witness:
  "\<exists>w'. replay_aof_log (Some ''f'')
      (Some (concat (map op_record [L_Set ''a'' ''1'', L_Set ''a'' ''2'', L_Pexpireat ''a'' 90])))
      (quiet_world 7 (fresh_store 8 0 0)) = Inr w' \<and> abs_view (st w') ''a'' = Some (AString ''2'', 90)"
proof -
  let ?xs = "[L_Set ''a'' ''1'', L_Set ''a'' ''2'', L_Pexpireat ''a'' 90]"
  have "abs_view (st (quiet_world 7 (fresh_store 8 0 0))) = Map.empty"
    by (simp add: abs_view_def fun_eq_iff)
  with replay_applies_log [of 0 "quiet_world 7 (fresh_store 8 0 0)" ?xs "''f''"] show ?thesis
    by (auto simp: ready_def loggable_def int64_def)
qed

text \<open>The rewritten log describes the store it was made from: replayed into an empty store
  without limits, it gives every key that was live when the rewrite started its value and its
  deadline back, and nothing else. Only a container without elements is dropped, and a
  deadline before the epoch, which is never enforced, becomes none.\<close>

lemma rewrite_then_replay:
  assumes "wf_store base' s" and "loggable_store s"
    and "ready base w" and "\<And>k. lookup (st w) k = None"
  shows "\<exists>w'. replay_aof_log (Some path) (Some (rewrite_store now s)) w = Inr w' \<and> ready base w' \<and>
    abs_view (st w') = (\<lambda>k. Option.bind (lookup s k) (rewritten now))"
proof -
  have empty: "abs_view (st w) = Map.empty" using assms(4) by (simp add: abs_view_def fun_eq_iff)
  note ops = store_ops_ok [OF assms(1,2), where now = now] store_ops_effect [OF assms(1), where now = now]
  show ?thesis
    using replay_applies [of base w "store_ops now s", OF assms(3) ops(1)] ops(2,3)
      replay_log_records [of "store_ops now s" path w, OF ops(1)]
    by (auto simp: empty rewrite_store_ops)
qed

lemma rewrite_then_replay_witness:
  "\<exists>w'. replay_aof_log (Some ''f'') (Some (rewrite_store 7 (singleton_store 0 (list_entry ''a'' [''2'', ''1'']))))
      (quiet_world 7 (fresh_store 8 0 0)) = Inr w' \<and> abs_view (st w') ''a'' = Some (AList [''2'', ''1''], 0)"
proof -
  let ?e = "list_entry ''a'' [''2'', ''1'']"
  have e: "wf_entry ?e" "loggable_store (singleton_store 0 ?e)"
    by (simp_all add: loggable_store_def loggable_def list_entry_def wf_entry_def int64_def)
  have "rewritten 7 ?e = Some (AList [''2'', ''1''], 0)"
    by (simp add: rewritten_def list_entry_def entry_is_expired_def)
  with rewrite_then_replay [of 0 "singleton_store 0 ?e" 0 "quiet_world 7 (fresh_store 8 0 0)" "''f''" 7] e show ?thesis
    by (auto simp: ready_def list_entry_def)
qed

end
