(* ===== verification/KV_Init.thy ===== *)
theory KV_Init
  imports KV_Aof
begin

text \<open>
  Creating and destroying a store (\<^verbatim>\<open>src/kv.c\<close>). \<^verbatim>\<open>kv_init_full\<close> writes into memory the caller
  owns: the state it is given is whatever that memory holds. The log file, if one is named, is
  an argument (\<open>None\<close> when it does not exist yet).
\<close>

section \<open>Initialisation\<close>

definition destroy_store_locks :: "kv_store \<Rightarrow> kv_store" where
  "destroy_store_locks s =
     (if lock_initialized s \<and> bucket_locks s
      then s\<lparr>bucket_locks := False, num_locks := 0, lock_initialized := False\<rparr> else s)"

definition init_fields :: "nat \<Rightarrow> nat \<Rightarrow> nat \<Rightarrow> kv_store \<Rightarrow> kv_store" where
  "init_fields n cap budget s =
     s\<lparr>buckets := replicate n [], bucket_count := n, kv_size := 0, max_capacity := cap,
       allocated_bytes := sz_mul n sizeof_ptr, peak_allocated_bytes := sz_mul n sizeof_ptr,
       max_memory_budget := budget, auto_resize := True, lru_clock := 0, bgsave_pid := 0,
       num_locks := shard_count n\<rparr>"

definition init_aof_fields :: "aof_state \<Rightarrow> aof_state" where
  "init_aof_fields a =
     a\<lparr>aof_fp := None, aof_path := None, durability_level := KV_DURABILITY_FLUSH, aof_rewrite_pid := 0,
       aof_rewrite_buf := None, aof_rewrite_buf_len := 0, aof_rewrite_buf_cap := 0\<rparr>"

text \<open>Giving up: the locks go, then the bucket array.\<close>

definition abandon :: "kv_store \<Rightarrow> kv_store" where
  "abandon s = (destroy_store_locks s)\<lparr>buckets := []\<rparr>"

definition init_log :: "nat \<Rightarrow> string \<Rightarrow> string option \<Rightarrow> world \<Rightarrow> int result" where
  "init_log budget path contents w =
     (let path_bytes = length path + 1
      in if budget > 0 \<and> allocated_bytes (st w) + path_bytes > budget
         then Inr (KV_ERR_BUDGET_EXCEEDED, upd_st abandon w)
         else
           (let (ok, w1) = tracked_malloc path_bytes w
            in if \<not> ok then Inr (KV_ERR_INTERNAL, upd_st abandon w1)
               else
                 (let w2 = upd_st (add_bytes path_bytes) (upd_aof (\<lambda>a. a\<lparr>aof_path := Some path\<rparr>) w1)
                  in case replay_aof_log (Some path) contents w2 of
                       Inl ub \<Rightarrow> Inl ub
                     | Inr w3 \<Rightarrow>
                         (case io_step w3 of
                            (None, w4) \<Rightarrow>
                              Inr (KV_OK, set_fp (open_stream (case contents of None \<Rightarrow> [] | Some c \<Rightarrow> c)) w4)
                          | (Some _, w4) \<Rightarrow>
                              Inr (KV_ERR_IO, upd_st abandon (upd_aof (\<lambda>a. a\<lparr>aof_path := None\<rparr>) w4))))))"

definition kv_init_full :: "nat \<Rightarrow> nat \<Rightarrow> nat \<Rightarrow> cstr \<Rightarrow> string option \<Rightarrow> world \<Rightarrow> int result" where
  "kv_init_full n cap budget path contents w =
     (if n = 0 then Inr (KV_ERR_INVALID_PARAM, w)
      else if budget > 0 \<and> sz_mul n sizeof_ptr > budget then Inr (KV_ERR_BUDGET_EXCEEDED, w)
      else
        (let (ok, w1) = tracked_calloc n sizeof_ptr w
         in if \<not> ok then Inr (KV_ERR_INTERNAL, w1)
            else
              (let w2 = upd_aof init_aof_fields (upd_st (init_fields n cap budget) w1);
                   (ok2, w3) = libc_malloc w2
               in if \<not> ok2
                  then Inr (KV_ERR_INTERNAL, upd_st (\<lambda>s. s\<lparr>bucket_locks := False, buckets := []\<rparr>) w3)
                  else
                    (let w4 = upd_st (\<lambda>s. s\<lparr>bucket_locks := True, lock_initialized := True\<rparr>) w3
                     in case path of
                          None \<Rightarrow> Inr (KV_OK, w4)
                        | Some p \<Rightarrow> init_log budget p contents w4))))"

definition kv_init :: "nat \<Rightarrow> world \<Rightarrow> int result" where
  "kv_init n w = kv_init_full n KV_DEFAULT_MAX_CAPACITY KV_DEFAULT_MEMORY_BUDGET None None w"

definition kv_init_with_capacity :: "nat \<Rightarrow> nat \<Rightarrow> world \<Rightarrow> int result" where
  "kv_init_with_capacity n cap w = kv_init_full n cap KV_DEFAULT_MEMORY_BUDGET None None w"

definition kv_init_with_budget :: "nat \<Rightarrow> nat \<Rightarrow> nat \<Rightarrow> world \<Rightarrow> int result" where
  "kv_init_with_budget n cap budget w = kv_init_full n cap budget None None w"

definition kv_init_with_aof :: "nat \<Rightarrow> cstr \<Rightarrow> string option \<Rightarrow> world \<Rightarrow> int result" where
  "kv_init_with_aof n path contents w =
     kv_init_full n KV_DEFAULT_MAX_CAPACITY KV_DEFAULT_MEMORY_BUDGET path contents w"

section \<open>Destruction\<close>

text \<open>\<^verbatim>\<open>fclose\<close> writes out what the stream still buffers. The entries are freed one by one; freeing
  the bucket array with them leaves nothing of the table.\<close>

definition kv_destroy :: "world \<Rightarrow> world" where
  "kv_destroy w =
     (if buckets (st w) = [] then w
      else
        (let w1 = (if lock_initialized (st w) then kv_acquire_all_locks w else w);
             w2 = upd_aof (\<lambda>a. a\<lparr>aof_fp := None\<rparr>) (flush_log w1);
             w3 = upd_aof (\<lambda>a. a\<lparr>aof_path := None,
                    aof_rewrite_buf := None,
                    aof_rewrite_buf_len := (if aof_rewrite_buf a = None then aof_rewrite_buf_len a else 0),
                    aof_rewrite_buf_cap := (if aof_rewrite_buf a = None then aof_rewrite_buf_cap a else 0)\<rparr>) w2;
             w4 = upd_st (\<lambda>s. s\<lparr>buckets := [], bucket_count := 0, kv_size := 0, allocated_bytes := 0,
                    peak_allocated_bytes := 0\<rparr>) w3
         in if lock_initialized (st w4) then upd_st destroy_store_locks (kv_release_all_locks w4) else w4))"

section \<open>A new store\<close>

lemma init_fields_wf:
  assumes "0 < n" and "n * sizeof_ptr < 2 ^ 64"
  shows "wf_store 0 ((init_fields n cap budget s)\<lparr>bucket_locks := True, lock_initialized := True\<rparr>)"
    "lookup ((init_fields n cap budget s)\<lparr>bucket_locks := True, lock_initialized := True\<rparr>) k = None"
  using assms
  by (auto simp: wf_store_def init_fields_def entries.placed_empty sz_mul_def lookup_def entries.find_empty)

lemma tracked_calloc_bound: "fst (tracked_calloc m n w) \<Longrightarrow> m * n < 2 ^ 64"
  by (auto simp: tracked_calloc_def split_beta Let_def split: if_splits)

lemma init_success_cases [consumes 2]:
  assumes "0 < n" and "budget = 0 \<or> sz_mul n sizeof_ptr \<le> budget"
  obtains (no_memory) w' where "kv_init_full n cap budget path contents w = Inr (KV_ERR_INTERNAL, w')"
      "st w' = st w \<or> buckets (st w') = []" "\<not> no_oom w \<or> 2 ^ 64 \<le> n * sizeof_ptr"
  | (made) w4 where "n * sizeof_ptr < 2 ^ 64"
      "st w4 = (init_fields n cap budget (st w))\<lparr>bucket_locks := True, lock_initialized := True\<rparr>"
      "aof w4 = init_aof_fields (aof w)" "no_oom w \<longrightarrow> no_oom w4"
      "clock (os w4) = clock (os w)" "io_fault (os w4) = io_fault (os w)" "g_io_fail (os w4) = g_io_fail (os w)"
      "kv_init_full n cap budget path contents w =
         (case path of None \<Rightarrow> Inr (KV_OK, w4) | Some p \<Rightarrow> init_log budget p contents w4)"
proof -
  define c where "c = tracked_calloc n sizeof_ptr w"
  define w2 where "w2 = upd_aof init_aof_fields (upd_st (init_fields n cap budget) (snd c))"
  define m where "m = libc_malloc w2"
  define w4 where "w4 = upd_st (\<lambda>s. s\<lparr>bucket_locks := True, lock_initialized := True\<rparr>) (snd m)"
  have run: "kv_init_full n cap budget path contents w =
    (if \<not> fst c then Inr (KV_ERR_INTERNAL, snd c)
     else if \<not> fst m then Inr (KV_ERR_INTERNAL, upd_st (\<lambda>s. s\<lparr>bucket_locks := False, buckets := []\<rparr>) (snd m))
     else case path of None \<Rightarrow> Inr (KV_OK, w4) | Some p \<Rightarrow> init_log budget p contents w4)"
    using assms
    unfolding kv_init_full_def Let_def split_beta c_def [symmetric] w2_def [symmetric] m_def [symmetric]
      w4_def [symmetric] by auto
  have oom: "no_oom w \<Longrightarrow> n * sizeof_ptr < 2 ^ 64 \<Longrightarrow> fst c" "no_oom w \<Longrightarrow> no_oom (snd c)"
    using tracked_calloc_no_oom by (simp_all add: c_def)
  have w2: "no_oom w2 = no_oom (snd c)" "no_oom w2 \<Longrightarrow> fst m \<and> no_oom (snd m)"
    by (auto simp: w2_def m_def no_oom_def libc_malloc_def)
  show thesis
  proof (cases "fst c \<and> fst m")
    case True
    have "kept w (snd c)" by (simp add: c_def kept_prim)
    then have "clock (os w4) = clock (os w)" "io_fault (os w4) = io_fault (os w)" "g_io_fail (os w4) = g_io_fail (os w)"
      using keptD by (auto simp: w4_def m_def w2_def libc_malloc_def)
    moreover have "no_oom w \<longrightarrow> no_oom w4" using oom w2 by (auto simp: w4_def no_oom_def)
    moreover have "st w4 = (init_fields n cap budget (st w))\<lparr>bucket_locks := True, lock_initialized := True\<rparr>"
      "aof w4 = init_aof_fields (aof w)"
      by (simp_all add: w4_def m_def w2_def c_def frame)
    ultimately show thesis
      using made run True tracked_calloc_bound [of n sizeof_ptr w] by (simp add: c_def)
  next
    case False
    then have "\<not> no_oom w \<or> 2 ^ 64 \<le> n * sizeof_ptr" using oom w2 by fastforce
    with False run show thesis
      using no_memory [of "if fst c then upd_st (\<lambda>s. s\<lparr>bucket_locks := False, buckets := []\<rparr>) (snd m) else snd c"]
      by (auto simp: c_def frame)
  qed
qed

lemma init_with_aof_recovers:
  assumes "0 < n" and "n * sizeof_ptr < 2 ^ 64" and "no_oom w" and "\<And>i. io_fault (os w) i = None"
    and "\<forall>x\<in>set xs. op_ok x" and "punctual (clock (os w)) xs Map.empty"
  shows "\<exists>w'. kv_init_with_aof n (Some path) (Some (concat (map op_record xs))) w = Inr (KV_OK, w') \<and>
    ready (length path + 1) w' \<and> abs_view (st w') = fold abs_op xs Map.empty \<and>
    aof_fp (aof w') = Some (open_stream (concat (map op_record xs)))"
proof -
  have "budget = 0 \<or> sz_mul n sizeof_ptr \<le> budget" if "budget = 0" for budget using that by simp
  from assms(1) this [OF refl] show ?thesis
  proof (cases rule: init_success_cases [where cap = 0 and path = "Some path" and w = w and
        contents = "Some (concat (map op_record xs))"])
    case (no_memory w')
    with assms(2,3) show ?thesis by simp
  next
    case (made w4)
    define m where "m = tracked_malloc (length path + 1) w4"
    define w2 where "w2 = upd_st (add_bytes (length path + 1)) (upd_aof (\<lambda>a. a\<lparr>aof_path := Some path\<rparr>) (snd m))"
    have m: "fst m" "no_oom (snd m)" using tracked_malloc_no_oom made(4) assms(3) by (simp_all add: m_def)
    have wf4: "wf_store 0 (st w4)" "lookup (st w4) k = None" for k
      using init_fields_wf [OF assms(1) made(1)] by (simp_all add: made(2))
    have "wf_store (length path + 1) (st w2)"
      using wf4(1) add_bytes_peak(1) [of "st w4" "length path + 1"]
      by (auto simp: w2_def m_def frame wf_store_def)
    then have ready: "ready (length path + 1) w2"
      using m(2) by (simp add: ready_def w2_def m_def frame made(2) init_fields_def no_oom_def)
    have empty: "abs_view (st w2) = Map.empty"
      using wf4(2) by (simp add: abs_view_def w2_def m_def frame fun_eq_iff)
    have env: "clock (os w2) = clock (os w)" "io_fault (os w2) = io_fault (os w)"
      using keptD [OF kept_prim(2) [OF kept_refl, of w4 "length path + 1"]] made(5,6) by (simp_all add: w2_def m_def)
    obtain w3 where w3: "replay_aof_log (Some path) (Some (concat (map op_record xs))) w2 = Inr w3"
      "ready (length path + 1) w3" "abs_view (st w3) = fold abs_op xs Map.empty" "kept w2 w3"
      using replay_applies [OF ready, of xs] replay_log_records [of xs path w2] assms(5,6) empty env(1) by auto
    obtain w6 where io: "io_step w3 = (None, w6)" "st w6 = st w3" "no_oom w6 = no_oom w3"
      using keptD(3) [OF w3(4)] env(2) assms(4) by (auto simp: io_step_def no_oom_def)
    define w5 where "w5 = set_fp (open_stream (concat (map op_record xs))) w6"
    have "init_log 0 path (Some (concat (map op_record xs))) w4 = Inr (KV_OK, w5)"
      unfolding init_log_def Let_def split_beta m_def [symmetric] w2_def [symmetric]
      using m(1) w3(1) io(1) by (simp add: w5_def)
    moreover have "ready (length path + 1) w5" "abs_view (st w5) = abs_view (st w3)"
      "aof_fp (aof w5) = Some (open_stream (concat (map op_record xs)))"
      using w3(2) io(2,3) by (simp_all add: w5_def ready_def no_oom_def)
    ultimately show ?thesis using made(8) w3(3) by (simp add: kv_init_with_aof_def)
  qed
qed

section \<open>Properties\<close>

text \<open>Creating a store without a log either succeeds, with an empty well-formed table inside its
  budget, or fails with the documented status and leaves no usable table. Without allocation
  failures it succeeds exactly when there is at least one bucket, the array fits the address
  space and the array fits the budget.\<close>

lemma kv_init_full_creates_empty_store:
  "\<exists>r w'. kv_init_full n cap budget None contents w = Inr (r, w') \<and>
     (if r = KV_OK
      then wf_store 0 (st w') \<and> within_budget (st w') \<and> lock_initialized (st w') \<and> lookup (st w') = Map.empty \<and>
        bucket_count (st w') = n \<and> max_capacity (st w') = cap \<and> max_memory_budget (st w') = budget
      else r \<in> {KV_ERR_INVALID_PARAM, KV_ERR_BUDGET_EXCEEDED, KV_ERR_INTERNAL} \<and>
        (st w' = st w \<or> buckets (st w') = [])) \<and>
     (no_oom w \<and> n * sizeof_ptr < 2 ^ 64 \<longrightarrow>
        r = (if n = 0 then KV_ERR_INVALID_PARAM
             else if 0 < budget \<and> budget < n * sizeof_ptr then KV_ERR_BUDGET_EXCEEDED else KV_OK))"
proof (cases "0 < n \<and> (budget = 0 \<or> sz_mul n sizeof_ptr \<le> budget)")
  case False
  then show ?thesis by (auto simp: kv_init_full_def sz_mul_def)
next
  case True
  then have "0 < n" "budget = 0 \<or> sz_mul n sizeof_ptr \<le> budget" by simp_all
  then show ?thesis
  proof (cases rule: init_success_cases [where cap = cap and path = None and contents = contents and w = w])
    case (no_memory w')
    then show ?thesis by auto
  next
    case (made w4)
    note s = init_fields_wf [OF \<open>0 < n\<close> made(1), of cap budget "st w", folded made(2)]
    have "within_budget (st w4)" "bucket_count (st w4) = n" "max_capacity (st w4) = cap"
      "max_memory_budget (st w4) = budget" "lock_initialized (st w4)"
      using True by (auto simp: made(2) within_budget_def init_fields_def)
    with s made(8) True show ?thesis by (auto simp: fun_eq_iff sz_mul_def)
  qed
qed

lemma kv_init_full_creates_empty_store_witness:
  "\<exists>w'. kv_init_full 8 0 0 None None (quiet_world 7 (fresh_store 8 0 0)) = Inr (KV_OK, w') \<and> wf_store 0 (st w')"
  using kv_init_full_creates_empty_store [of 8 0 0 None "quiet_world 7 (fresh_store 8 0 0)"] by auto

text \<open>Opening a store on an existing log recovers it: whatever sequence of operations the file
  records, a store without limits comes up with exactly their combined effect, and the log is
  open for appending with its contents intact.\<close>

lemma kv_init_with_aof_recovers:
  assumes "0 < n" and "n * sizeof_ptr < 2 ^ 64" and "no_oom w" and "\<And>i. io_fault (os w) i = None"
    and "\<forall>x\<in>set xs. op_ok x" and "punctual (clock (os w)) xs Map.empty"
  shows "\<exists>w'. kv_init_with_aof n (Some path) (Some (concat (map op_record xs))) w = Inr (KV_OK, w') \<and>
    ready (length path + 1) w' \<and> abs_view (st w') = fold abs_op xs Map.empty \<and>
    aof_fp (aof w') = Some (open_stream (concat (map op_record xs)))"
  using assms by (rule init_with_aof_recovers)

lemma kv_init_with_aof_recovers_witness:
  "\<exists>w'. kv_init_with_aof 8 (Some ''f'') (Some (concat (map op_record [L_Lpush ''a'' ''1'', L_Lpush ''a'' ''2''])))
      (quiet_world 7 (fresh_store 8 0 0)) = Inr (KV_OK, w') \<and> abs_view (st w') ''a'' = Some (AList [''2'', ''1''], 0)"
  using kv_init_with_aof_recovers [of 8 "quiet_world 7 (fresh_store 8 0 0)" "[L_Lpush ''a'' ''1'', L_Lpush ''a'' ''2'']" "''f''"]
  by (auto simp: loggable_def quiet_world_def quiet_os_def no_oom_def)

end
