(* ===== verification/KV_Durable.thy ===== *)
theory KV_Durable
  imports KV_Init
begin

text \<open>
  The log records what the commands do. A store whose log is open, in surroundings without
  failures, is driven by an arbitrary sequence of commands; the file then holds a sequence of
  operations whose replay gives the same contents.
\<close>

section \<open>A working log\<close>

text \<open>\<open>log_at w d p\<close>: the file holds \<open>d\<close>, nothing is buffered, the stream's offset is \<open>p\<close>, and
  writing works. After the first write the offset is the end of the file.\<close>

definition log_at :: "world \<Rightarrow> string \<Rightarrow> nat \<Rightarrow> bool" where
  "log_at w d p \<longleftrightarrow>
     (\<exists>f. aof_fp (aof w) = Some f \<and> f_buf f = [] \<and> f_disk f = d \<and> f_pos f = p) \<and>
     io_fault (os w) = (\<lambda>_. None) \<and> \<not> g_io_fail (os w) \<and> durability_level (aof w) \<ge> KV_DURABILITY_FLUSH"

definition log_is :: "world \<Rightarrow> string \<Rightarrow> bool" where
  "log_is w d \<longleftrightarrow> log_at w d (length d)"

lemma aof_broadcast [simp]: "aof (replication_broadcast d w) = aof w"
proof -
  have "aof (snd (broadcast_loop d fds w)) = aof w" for fds w
    by (induction d fds w rule: broadcast_loop.induct)
      (auto simp: io_step_def split_beta Let_def split: option.split nat.split)
  then show ?thesis by (simp add: replication_broadcast_def split_beta Let_def frame)
qed

lemma log_at_write:
  assumes "log_at w d p" and "record_fits buf"
  shows "\<exists>w'. write_aof_record buf w = (KV_OK, int p, w') \<and> log_is w' (d @ buf)"
proof -
  define w1 where "w1 = replication_broadcast buf w"
  obtain f where f: "aof_fp (aof w) = Some f" "f_buf f = []" "f_disk f = d" "f_pos f = p"
    and q: "io_fault (os w) = (\<lambda>_. None)" "\<not> g_io_fail (os w)" "durability_level (aof w) \<ge> KV_DURABILITY_FLUSH"
    using assms(1) by (auto simp: log_at_def)
  have w1: "aof w1 = aof w" "io_fault (os w1) = (\<lambda>_. None)" "\<not> g_io_fail (os w1)"
    using same_but_log_broadcast [of w buf] q by (auto simp: w1_def same_but_log_def)
  have io: "io_step u = (None, u\<lparr>os := (os u)\<lparr>io_calls := Suc (io_calls (os u))\<rparr>\<rparr>)" if "io_fault (os u) = (\<lambda>_. None)" for u
    using that by (simp add: io_step_def)
  obtain err pos w2 where run: "write_locked buf f (mutex_lock Aof_Lock w1) = (err, pos, w2)"
    using prod_cases3 by blast
  then have "err = KV_OK \<and> pos = int p \<and> log_is w2 (d @ buf)"
    using f q w1 assms(2)
    by (auto simp: write_locked_def io frame fwrite_def persist_locked_def fflush_def fsync_def Let_def
        flush_bytes_def ftell_def log_is_def log_at_def split: if_splits)
  then show ?thesis
    using run assms(2) f(1) w1
    by (simp add: write_aof_record_def w1_def [symmetric] Let_def) (simp add: log_is_def log_at_def frame)
qed

lemma log_is_write:
  assumes "log_is w d" and "record_fits buf"
  shows "\<exists>w'. write_aof_record buf w = (KV_OK, int (length d), w') \<and> log_is w' (d @ buf)"
  using log_at_write assms by (simp add: log_is_def)

lemma log_is_rollback:
  assumes "log_is w d" and "p \<le> length d"
  shows "log_is (rollback_aof_record (int p) w) (take p d)"
proof -
  obtain f where f: "aof_fp (aof w) = Some f" "f_buf f = []" "f_disk f = d"
    using assms(1) by (auto simp: log_is_def log_at_def)
  then show ?thesis
    using assms by (auto simp: rollback_aof_record_def fflush_def io_step_def Let_def log_is_def log_at_def frame min_def)
qed

section \<open>Stages that do not write to the log\<close>

definition silent :: "world \<Rightarrow> world \<Rightarrow> bool" where
  "silent w w' \<longleftrightarrow> kept w w' \<and> aof_fp (aof w') = aof_fp (aof w)"

lemma silent_refl [simp]: "silent w w"
  by (simp add: silent_def)

lemma silent_trans: "silent u v \<Longrightarrow> silent v w \<Longrightarrow> silent u w"
  using kept_trans by (auto simp: silent_def)

lemma silent_log: "silent w w' \<Longrightarrow> log_is w' d = log_is w d"
  by (auto simp: silent_def log_is_def log_at_def dest: keptD)

lemma silent_st [simp]: "silent w (w'\<lparr>st := s\<rparr>) = silent w w'"
  by (simp add: silent_def)

lemma silent_locks [simp]:
  "silent w (kv_acquire_bucket_lock k w') = silent w w'" "silent w (kv_release_bucket_lock k w') = silent w w'"
  "silent w (kv_acquire_all_locks w') = silent w w'" "silent w (kv_release_all_locks w') = silent w w'"
  "silent w (set_release g k w') = silent w w'"
  by (simp_all add: silent_def frame)

lemma silent_prim:
  "silent w w' \<Longrightarrow> silent w (snd (libc_malloc w'))" "silent w w' \<Longrightarrow> silent w (snd (tracked_malloc n w'))"
  "silent w w' \<Longrightarrow> silent w (snd (tracked_calloc m n w'))" "silent w w' \<Longrightarrow> silent w (snd (kv_current_time_ms w'))"
  by (simp_all add: silent_def kept_prim frame)

lemma silent_append: "silent w w' \<Longrightarrow> silent w (append_aof_rewrite_buffer d w')"
proof -
  have "aof_fp (aof (append_aof_rewrite_buffer d w')) = aof_fp (aof w')"
    by (auto simp: append_aof_rewrite_buffer_def Let_def split_beta libc_malloc_def frame split: option.split)
  then show "silent w w' \<Longrightarrow> silent w (append_aof_rewrite_buffer d w')"
    by (simp add: silent_def kept_log)
qed

lemma silent_append_record:
  "silent w w' \<Longrightarrow> silent w (append_record1 c k w')" "silent w w' \<Longrightarrow> silent w (append_record2 c k v w')"
  by (simp_all add: append_record1_def append_record2_def silent_append)

lemma silent_copy: "silent w w' \<Longrightarrow> silent w (snd (copy_string_bounded s m w'))"
  by (simp add: copy_string_bounded_def Let_def split_beta silent_prim)

lemma silent_find_entry: "silent w w' \<Longrightarrow> silent w (snd (find_entry_unlocked k w'))"
  by (simp add: silent_def kept_find_entry frame)

lemma silent_resize: "silent w w' \<Longrightarrow> silent w (snd (kv_resize_unlocked n w'))"
  by (simp add: silent_def kept_resize frame)

lemma silent_make_room: "silent w w' \<Longrightarrow> silent w (snd (make_room need w'))"
  by (simp add: silent_def kept_make_room) (simp add: make_room_def Let_def lru.loop_others)

lemmas silent_stages = silent_prim silent_append_record silent_copy silent_find_entry silent_resize silent_make_room

lemma silent_insert_string: "silent w w' \<Longrightarrow> silent w (snd (insert_string k v w'))"
  by (simp add: insert_string_def alloc_string_entry_def Let_def split_beta silent_stages split: option.split)

lemma silent_kv_set_internal: "silent w w' \<Longrightarrow> silent w (snd (kv_set_internal key value w'))"
  by (simp add: kv_set_internal_def replace_string_def overwrite_string_def Let_def split_beta silent_stages
      silent_insert_string split: option.split kv_value.split sum.split)

lemma silent_kv_delete_internal: "silent w w' \<Longrightarrow> silent w (snd (kv_delete_internal key w'))"
  by (simp add: kv_delete_internal_def Let_def split_beta silent_stages split: option.split sum.split)

lemma silent_acquire:
  "silent w w' \<Longrightarrow> silent w (snd (set_acquire bytes k w'))" "silent w w' \<Longrightarrow> silent w (snd (coll_acquire bytes k w'))"
  by (simp_all add: set_acquire_def acquire_global_def coll_acquire_def Let_def split_beta silent_stages)

lemma silent_obtain_entry:
  assumes "\<And>u. silent w u \<Longrightarrow> silent w (snd (alloc u))" and "silent w w'"
  shows "silent w (snd (obtain_entry kind fresh alloc k w'))"
  using assms
  by (simp add: obtain_entry_def create_entry_def alloc_coll_entry_def Let_def split_beta silent_stages split: option.split)

lemma silent_room_for_node: "silent w w' \<Longrightarrow> silent w (snd (room_for_node n v w'))"
  by (simp add: room_for_node_def alloc_node_def Let_def split_beta silent_stages split: option.split)

lemma silent_settle: "silent w w' \<Longrightarrow> silent w (settle b k ptr w')"
  by (simp add: settle_def silent_kv_delete_internal)

section \<open>What each command writes\<close>

lemma op_record_simps:
  "op_record (L_Set k v) = record2 ''SET'' k v" "op_record (L_Delete k) = record1 ''DELETE'' k"
  "op_record (L_Lpush k v) = record2 ''LPUSH'' k v" "op_record (L_Rpop k) = record1 ''RPOP'' k"
  "op_record (L_Sadd k v) = record2 ''SADD'' k v" "op_record (L_Srem k v) = record2 ''SREM'' k v"
  "op_record (L_Pexpireat k t) = record2 ''PEXPIREAT'' k (show_int t)"
  by (simp_all add: op_record_def record1_def record2_def)

lemma log_is_quietly: "log_is w d \<Longrightarrow> record_fits r \<Longrightarrow> log_is (log_quietly r w) (d @ r)"
  using log_is_write [of w d r] by (auto simp: log_quietly_def log_is_def log_at_def)

text \<open>Write-ahead logging: the record stays exactly when the update succeeds.\<close>

lemma logged_log:
  assumes "log_at w d p" and "p \<le> length d" and "record_fits r" and "\<And>u. silent u (snd (update u))"
  obtains w1 where "same_but_log w w1" "fst (logged r update w) = fst (update w1)"
    "st (snd (logged r update w)) = st (snd (update w1))"
    "log_is (snd (logged r update w)) (if fst (update w1) = KV_OK then d @ r else take p d)"
proof -
  obtain w1 where w1: "write_aof_record r w = (KV_OK, int p, w1)" "log_is w1 (d @ r)"
    using log_at_write [OF assms(1,3)] by blast
  have "log_is (snd (update w1)) (d @ r)" using silent_log [OF assms(4)] w1(2) by blast
  moreover from log_is_rollback [OF this, of p] assms(2)
  have "log_is (rollback_aof_record (int p) (snd (update w1))) (take p d)" by simp
  moreover have "aof_fp (aof w) \<noteq> None" using assms(1) by (auto simp: log_at_def)
  moreover have "aof_fp (aof (snd (update w1))) \<noteq> None" using calculation(1) by (auto simp: log_is_def log_at_def)
  ultimately show thesis
    using that [of w1] w1(1) same_but_log_write [of w r] same_but_logD(1) [OF same_but_log_rollback]
    by (simp add: logged_def split_beta Let_def)
qed

text \<open>\<open>recorded base x w w' d\<close>: the command had the effect of \<open>x\<close>, and either \<open>x\<close> was
  appended to the log or it changed nothing.\<close>

definition recorded :: "nat \<Rightarrow> log_op \<Rightarrow> world \<Rightarrow> world \<Rightarrow> string \<Rightarrow> bool" where
  "recorded base x w w' d \<longleftrightarrow> effect base x w w' \<and>
     (log_is w' (d @ op_record x) \<or> log_is w' d \<and> abs_op x (abs_view (st w)) = abs_view (st w))"

lemma log_is_release [simp]:
  "log_is (set_release g k w) d = log_is w d" "log_is (kv_release_bucket_lock k w) d = log_is w d"
  "log_is (kv_acquire_bucket_lock k w) d = log_is w d"
  by (simp_all add: log_is_def log_at_def frame)

lemma effect_release: "effect base x w w' \<Longrightarrow> effect base x w (set_release g k w')"
  "effect base x w w' \<Longrightarrow> effect base x w (kv_release_bucket_lock k w')"
  by (auto simp: effect_def ready_def frame no_oom_def set_release_def)

text \<open>An update behind the write-ahead log, started from a state that shows the same contents.\<close>

lemma recorded_logged:
  assumes "ready base w" and "kept w w1" and "ready base w1" and "abs_view (st w1) = abs_view (st w)"
    and "log_is w1 d" and "record_fits (op_record x)" and "\<And>u. silent u (snd (update u))"
    and "\<And>u. ready base u \<Longrightarrow> effect base x u (snd (update u))"
    and "\<And>u. ready base u \<Longrightarrow> fst (update u) \<noteq> KV_OK \<Longrightarrow> abs_view (st (snd (update u))) = abs_view (st u)"
  shows "recorded base x w (snd (logged (op_record x) update w1)) d"
proof -
  let ?w' = "snd (logged (op_record x) update w1)"
  from logged_log [OF assms(5) [unfolded log_is_def] order_refl assms(6,7)] obtain w2 where w2: "same_but_log w1 w2"
    "fst (logged (op_record x) update w1) = fst (update w2)" "st ?w' = st (snd (update w2))"
    "log_is ?w' (if fst (update w2) = KV_OK then d @ op_record x else take (length d) d)" .
  have ready2: "ready base w2" using assms(3) same_but_logD(1,3) [OF w2(1)] by (simp add: ready_def)
  have view2: "abs_view (st w2) = abs_view (st w)" using same_but_logD(1) [OF w2(1)] assms(4) by simp
  note eff = assms(8) [OF ready2]
  have kept': "kept w ?w'"
    using kept_trans [OF assms(2) kept_logged [of w1 update w1 "op_record x"]] assms(7)
    by (auto simp: silent_def intro: kept_trans)
  have ready': "ready base ?w'"
    using keptD(2) [OF kept'] readyD(3) [OF assms(1)] eff w2(3) by (simp add: effect_def ready_def)
  have "effect base x w ?w'"
    using eff kept' ready' w2(3) view2 by (simp add: effect_def)
  moreover have "abs_op x (abs_view (st w)) = abs_view (st w)" if "fst (update w2) \<noteq> KV_OK"
    using assms(9) [OF ready2 that] eff view2 by (simp add: effect_def)
  ultimately show ?thesis using w2(4) by (auto simp: recorded_def split: if_splits)
qed

lemma recorded_release: "recorded base x w w' d \<Longrightarrow> recorded base x w (set_release g k w') d"
  "recorded base x w w' d \<Longrightarrow> recorded base x w (kv_release_bucket_lock k w') d"
  by (auto simp: recorded_def effect_release)

lemma recorded_set:
  assumes "ready base w" and "op_ok (L_Set k v)" and "record_fits (op_record (L_Set k v))" and "log_is w d"
  shows "recorded base (L_Set k v) w (snd (kv_set (Some k) (Some v) w)) d"
proof -
  have k: "valid_key k" "cstring k" "valid_value v" "cstring v" using assms(2) by (simp_all add: loggable_def)
  note r = readyD [OF assms(1)]
  obtain g w1 where acq: "set_acquire (sizeof_kv_entry + length k + 1 + length v + 1) k w = (g, w1)" by fastforce
  note a = set_acquire_spec [OF r(1) acq]
  have s: "silent w w1" using silent_acquire(1) [of w w] acq by (metis silent_refl snd_conv)
  have "ready base w1" using ready_kept [OF assms(1) _ a(1,3)] s by (simp add: silent_def)
  moreover have "abs_view (st w1) = abs_view (st w)" using a(2) by (simp add: abs_view_def fun_eq_iff)
  moreover have "abs_view (st (snd (kv_set_internal (Some k) (Some v) u))) = abs_view (st u)"
    if u: "ready base u" and err: "fst (kv_set_internal (Some k) (Some v) u) \<noteq> KV_OK" for u
    using readyD(1) [OF u] k(2,4)
    by (cases rule: kv_set_internal_cases) (use err readyD(4) [OF u] in \<open>simp_all add: only_evicted_def\<close>)
  ultimately have "recorded base (L_Set k v) w
      (snd (logged (op_record (L_Set k v)) (kv_set_internal (Some k) (Some v)) w1)) d"
    using assms silent_log [OF s] s effect_set [OF _ op_ok_valid] silent_kv_set_internal
    by (intro recorded_logged) (auto simp: silent_def)
  then have "recorded base (L_Set k v) w
      (set_release g k (snd (logged (record2 ''SET'' k v) (kv_set_internal (Some k) (Some v)) w1))) d"
    unfolding op_record_simps by (rule recorded_release)
  moreover have "snd (kv_set (Some k) (Some v) w) =
      set_release g k (snd (logged (record2 ''SET'' k v) (kv_set_internal (Some k) (Some v)) w1))"
    using r(2) k acq by (simp add: kv_set_def Let_def split_beta)
  ultimately show ?thesis by simp
qed

lemma recorded_delete:
  assumes "ready base w" and "op_ok (L_Delete k)" and "record_fits (op_record (L_Delete k))" and "log_is w d"
  shows "recorded base (L_Delete k) w (snd (kv_delete (Some k) w)) d"
proof -
  have k: "valid_key k" "cstring k" using assms(2) by simp_all
  define w1 where "w1 = kv_acquire_bucket_lock k w"
  have w1: "ready base w1" "kept w w1" "abs_view (st w1) = abs_view (st w)" "log_is w1 d"
    using assms(1,4) by (simp_all add: w1_def ready_def frame)
  have "abs_view (st (snd (kv_delete_internal (Some k) u))) = abs_view (st u)"
    if u: "ready base u" and err: "fst (kv_delete_internal (Some k) u) \<noteq> KV_OK" for u
    using kv_delete_internal_spec(2,3) [OF readyD(1) [OF u] k(2,1)] err
    by (auto simp: abs_view_def fun_eq_iff split: if_splits)
  then have "recorded base (L_Delete k) w (snd (logged (op_record (L_Delete k)) (kv_delete_internal (Some k)) w1)) d"
    using assms w1 effect_delete [OF _ op_ok_valid] silent_kv_delete_internal by (intro recorded_logged) auto
  then have "recorded base (L_Delete k) w
      (kv_release_bucket_lock k (snd (logged (record1 ''DELETE'' k) (kv_delete_internal (Some k)) w1))) d"
    unfolding op_record_simps by (rule recorded_release)
  moreover have "snd (kv_delete (Some k) w) =
      kv_release_bucket_lock k (snd (logged (record1 ''DELETE'' k) (kv_delete_internal (Some k)) w1))"
    using readyD(2) [OF assms(1)] k by (simp add: kv_delete_def Let_def split_beta w1_def)
  ultimately show ?thesis by simp
qed

lemma lpush_node_log:
  assumes "lpush_node k v u = Inr (r, w')" and "log_is u d" and "record_fits (record2 ''LPUSH'' k v)"
    and "fst (room_for_node sizeof_kv_list_node v u) = Inr x"
  shows "log_is w' (d @ record2 ''LPUSH'' k v)"
proof -
  define u1 where "u1 = snd (room_for_node sizeof_kv_list_node v u)"
  have "log_is u1 d" using silent_log [OF silent_room_for_node [OF silent_refl]] assms(2) by (simp add: u1_def)
  then have u1: "log_is (u1\<lparr>st := s\<rparr>) d" for s by (simp add: log_is_def log_at_def)
  have "log_is (append_record2 c k v (log_quietly (record2 ''LPUSH'' k v) (u1\<lparr>st := s\<rparr>))) (d @ record2 ''LPUSH'' k v)" for c s
    using silent_log [OF silent_append_record(2) [OF silent_refl]] log_is_quietly [OF u1 assms(3)] by blast
  with assms(1,4) show ?thesis
    by (auto simp: lpush_node_def split_beta Let_def u1_def [symmetric] split: option.splits kv_value.splits)
qed

lemma recorded_lpush:
  assumes "ready base w" and "op_ok (L_Lpush k v)" and "record_fits (op_record (L_Lpush k v))" and "log_is w d"
    and "unexpired k w"
  shows "\<exists>r w'. kv_lpush (Some k) (Some v) w = Inr (r, w') \<and> recorded base (L_Lpush k v) w w' d"
proof -
  have k: "cstring k" "valid_key k" "cstring v" "valid_value v" using assms(2) by (simp_all add: loggable_def)
  have fits: "record_fits (record2 ''LPUSH'' k v)" using assms(3) by (simp add: op_record_simps)
  note r = readyD [OF assms(1)]
  obtain n w' where run: "kv_lpush (Some k) (Some v) w = Inr (n, w')" and eff: "effect base (L_Lpush k v) w w'"
    using effect_lpush [OF assms(1) op_ok_valid [OF assms(2)] assms(5)] by blast
  define bytes where "bytes = sizeof_kv_entry + length k + 1 + sizeof_kv_list + (sizeof_kv_list_node + length v + 1)"
  define w1 where "w1 = snd (coll_acquire bytes k w)"
  define g where "g = fst (coll_acquire bytes k w)"
  define q where "q = obtain_entry KV_TYPE_LIST (VList empty_list) alloc_list k w1"
  have run': "kv_lpush (Some k) (Some v) w =
    (if fst q \<noteq> KV_OK then Inr (fst q, set_release g k (snd q))
     else case lpush_node k v (snd q) of Inl ub \<Rightarrow> Inl ub | Inr (res, w3) \<Rightarrow> Inr (res, set_release g k w3))"
    using r(2) k unfolding w1_def g_def q_def bytes_def
    by (simp add: kv_lpush_def Let_def split_beta split: sum.split)
  have al: "silent w u \<Longrightarrow> silent w (snd (alloc_list u))" for u by (simp add: alloc_list_def silent_prim)
  have sq: "silent w (snd q)"
    unfolding q_def w1_def by (intro silent_obtain_entry al silent_acquire silent_refl)
  then have lq: "log_is (snd q) d" using silent_log assms(4) by blast
  have w1: "wf_store base (st w1)" "st w1 = st w" "now_of w1 = now_of w" "no_oom w1"
    using r(1,3) by (simp_all add: w1_def frame no_oom_def)
  have "log_is w' (d @ op_record (L_Lpush k v)) \<or> log_is w' d \<and> abs_op (L_Lpush k v) (abs_view (st w)) = abs_view (st w)"
  proof (cases "fst q = KV_OK")
    case True
    have fresh: "wf_value (VList empty_list)" "type_of (VList empty_list) = KV_TYPE_LIST"
      by (simp_all add: empty_list_def)
    have "max_memory_budget (st (snd q)) = 0"
      using w1(1) k(1,2) fresh(1) alloc_list_st fresh(2)
      by (cases rule: obtain_entry_cases) (use True r(4) w1(2) in \<open>simp_all add: q_def stored_def same_settings_def\<close>)
    then have "fst (room_for_node sizeof_kv_list_node v (snd q)) = Inr v"
      using k(3,4) keptD(2) [of w "snd q"] sq r(3) by (intro room_for_node_total) (simp_all add: silent_def)
    then show ?thesis
      using run run' True lpush_node_log [OF _ lq fits] by (auto simp: op_record_simps split: sum.splits)
  next
    case False
    then have "\<exists>e. lookup (st w) k = Some e \<and> e_type e \<noteq> KV_TYPE_LIST"
      using obtain_entry_total(1) [OF w1(1,4) k(1,2)] r(4,5) w1(2,3) assms(5) alloc_list_no_oom
        tracked_calloc_no_oom(2) unfolding q_def unexpired_def by (metis alloc_list_def)
    then have "abs_op (L_Lpush k v) (abs_view (st w)) = abs_view (st w)"
      by (auto simp: abs_view_def split: avalue.split elim!: abs_value.elims)
    with False run run' lq show ?thesis by auto
  qed
  with run eff show ?thesis by (auto simp: recorded_def)
qed

lemma sadd_member_log:
  assumes "sadd_member k v u = Inr (r, w')" and "log_is u d" and "record_fits (record2 ''SADD'' k v)"
  shows "log_is w' (if r = 1 then d @ record2 ''SADD'' k v else d)"
proof -
  define u1 where "u1 = snd (room_for_node sizeof_kv_set_node v u)"
  have l1: "log_is u1 d" using silent_log [OF silent_room_for_node [OF silent_refl]] assms(2) by (simp add: u1_def)
  then have u1: "log_is (u1\<lparr>st := s\<rparr>) d" for s by (simp add: log_is_def log_at_def)
  have "log_is (append_record2 c k v (log_quietly (record2 ''SADD'' k v) (u1\<lparr>st := s\<rparr>))) (d @ record2 ''SADD'' k v)" for c s
    using silent_log [OF silent_append_record(2) [OF silent_refl]] log_is_quietly [OF u1 assms(3)] by blast
  moreover have "err \<noteq> 1" if "fst (room_for_node sizeof_kv_set_node v u) = Inl err" for err
    using room_for_node_error [of sizeof_kv_set_node v u err u1] that by (auto simp: u1_def prod_eq_iff)
  ultimately show ?thesis
    using assms(1,2) l1
    by (auto simp: sadd_member_def sadd_node_def split_beta Let_def u1_def [symmetric]
        split: option.splits kv_value.splits if_splits sum.splits)
qed

lemma recorded_sadd:
  assumes "ready base w" and "op_ok (L_Sadd k v)" and "record_fits (op_record (L_Sadd k v))" and "log_is w d"
    and "unexpired k w"
  shows "\<exists>r w'. kv_sadd (Some k) (Some v) w = Inr (r, w') \<and> recorded base (L_Sadd k v) w w' d"
proof -
  have k: "cstring k" "valid_key k" "cstring v" "valid_value v" using assms(2) by (simp_all add: loggable_def)
  have fits: "record_fits (record2 ''SADD'' k v)" using assms(3) by (simp add: op_record_simps)
  note r = readyD [OF assms(1)]
  have live: "live_entry (st w) (now_of w) k = lookup (st w) k" using assms(5) by (simp add: unexpired_def)
  obtain n w' where run: "kv_sadd (Some k) (Some v) w = Inr (n, w')" and eff: "effect base (L_Sadd k v) w w'"
    using effect_sadd [OF assms(1) op_ok_valid [OF assms(2)] assms(5)] by blast
  define bytes where "bytes = sizeof_kv_entry + length k + 1 + sizeof_kv_set + 16 * sizeof_ptr + (sizeof_kv_set_node + length v + 1)"
  define w1 where "w1 = snd (coll_acquire bytes k w)"
  define g where "g = fst (coll_acquire bytes k w)"
  define q where "q = obtain_entry KV_TYPE_SET (VSet empty_set_value) alloc_set k w1"
  have run': "kv_sadd (Some k) (Some v) w =
    (if fst q \<noteq> KV_OK then Inr (fst q, set_release g k (snd q))
     else case sadd_member k v (snd q) of Inl ub \<Rightarrow> Inl ub | Inr (res, w3) \<Rightarrow> Inr (res, set_release g k w3))"
    using r(2) k unfolding w1_def g_def q_def bytes_def
    by (simp add: kv_sadd_def Let_def split_beta split: sum.split)
  have al: "silent w u \<Longrightarrow> silent w (snd (alloc_set u))" for u
    by (simp add: alloc_set_def Let_def split_beta silent_prim)
  have "silent w (snd q)" unfolding q_def w1_def by (intro silent_obtain_entry al silent_acquire silent_refl)
  then have lq: "log_is (snd q) d" using silent_log assms(4) by blast
  have log: "log_is w' (if n = 1 then d @ record2 ''SADD'' k v else d)"
    using run run' sadd_member_log [OF _ lq fits] lq obtain_entry_error [of KV_TYPE_SET "VSet empty_set_value" alloc_set k w1]
    by (auto simp: q_def [symmetric] split: if_splits sum.splits)
  have "abs_op (L_Sadd k v) (abs_view (st w)) = abs_view (st w)" if "n \<noteq> 1"
    using r(1) k(1,3)
  proof (cases rule: kv_sadd_cases)
    case (refused n' u)
    have "\<exists>e. lookup (st w) k = Some e \<and> e_type e \<noteq> KV_TYPE_SET"
    proof (rule ccontr)
      assume "\<not> ?thesis"
      then have ty: "live_entry (st w) (now_of w) k = Some e \<Longrightarrow> e_type e = KV_TYPE_SET" for e using live by auto
      obtain u' where "kv_sadd (Some k) (Some v) w = Inr (if v \<in> members_at (st w) (now_of w) k then 0 else 1, u')"
        using kv_sadd_total [OF r(1-3) k r(4,5) ty] .
      with refused(1,2) show False by (simp split: if_splits)
    qed
    then show ?thesis by (auto simp: abs_view_def split: avalue.split elim!: abs_value.elims)
  next
    case freed
    with r(4) show ?thesis by simp
  next
    case (member u e t)
    then show ?thesis
      using live empty_set_spec(2)
      by (auto simp: open_value_def abs_view_def insert_absorb fun_eq_iff split: option.splits)
  next
    case (added u e t)
    with run that show ?thesis by simp
  qed
  with log run eff show ?thesis by (auto simp: recorded_def op_record_simps split: if_splits)
qed

lemma log_is_find: "log_is w d \<Longrightarrow> log_is (snd (find_entry_unlocked k (kv_acquire_bucket_lock k w))) d"
  using silent_log [OF silent_find_entry [of w "kv_acquire_bucket_lock k w" k]] by simp

lemma rpop_entry_log:
  assumes "log_is u d" and "record_fits (record1 ''RPOP'' k)"
  shows "log_is (snd (snd (rpop_entry k ptr l u)))
    (if fst (rpop_entry k ptr l u) = KV_OK then d @ record1 ''RPOP'' k else d)"
proof -
  define u1 where "u1 = snd (libc_malloc u)"
  have l1: "log_is u1 d" using silent_log [OF silent_prim(1) [OF silent_refl]] assms(1) by (simp add: u1_def)
  then have "log_is (u1\<lparr>st := s\<rparr>) d" for s by (simp add: log_is_def log_at_def)
  from log_is_quietly [OF this assms(2)]
  have "log_is (settle b k ptr (append_record1 c k (log_quietly (record1 ''RPOP'' k) (u1\<lparr>st := s\<rparr>)))) (d @ record1 ''RPOP'' k)" for b c s
    using silent_log [OF silent_settle [OF silent_append_record(1) [OF silent_refl]]] by blast
  with assms(1) l1 show ?thesis
    by (simp add: rpop_entry_def split_beta Let_def u1_def [symmetric] split: option.split)
qed

lemma kv_rpop_log:
  assumes "log_is w d" and "record_fits (record1 ''RPOP'' k)"
  shows "log_is (snd (snd (kv_rpop (Some k) w))) (if fst (kv_rpop (Some k) w) = KV_OK then d @ record1 ''RPOP'' k else d)"
proof -
  define f where "f = find_entry_unlocked k (kv_acquire_bucket_lock k w)"
  have l: "log_is (snd f) d" using log_is_find [OF assms(1)] by (simp add: f_def)
  show ?thesis
  proof (cases "fst f")
    case None
    then show ?thesis using l assms(1) by (simp add: kv_rpop_def f_def [symmetric] split_beta Let_def)
  next
    case (Some ptr)
    show ?thesis
    proof (cases "e_value (deref (st (snd f)) ptr)")
      case (VList x)
      with Some rpop_entry_log [OF l assms(2), of ptr x] assms(1) show ?thesis
        by (auto simp: kv_rpop_def f_def [symmetric] split_beta Let_def split: if_splits)
    qed (use Some l assms(1) in \<open>simp_all add: kv_rpop_def f_def [symmetric] split_beta Let_def\<close>)
  qed
qed

lemma recorded_rpop:
  assumes "ready base w" and "op_ok (L_Rpop k)" and "record_fits (op_record (L_Rpop k))" and "log_is w d" and "unexpired k w"
  shows "recorded base (L_Rpop k) w (snd (snd (kv_rpop (Some k) w))) d"
proof -
  have eff: "effect base (L_Rpop k) w (snd (snd (kv_rpop (Some k) w)))" using effect_rpop assms(1,5) .
  moreover have "abs_view (st (snd (snd (kv_rpop (Some k) w)))) = abs_view (st w)" if "fst (kv_rpop (Some k) w) \<noteq> KV_OK"
    using readyD(1,2) [OF assms(1)]
  proof (cases rule: kv_rpop_cases [where k = k])
    case (refused r w')
    with abs_view_cong [OF unexpired_outcome [OF assms(5) refused(4)]] show ?thesis by simp
  next
    case (popped w' e v l l')
    with that show ?thesis by simp
  qed
  ultimately show ?thesis
    using kv_rpop_log [OF assms(4), of k] assms(3)
    by (auto simp: recorded_def effect_def op_record_simps split: if_splits)
qed

lemma srem_entry_log:
  assumes "log_is u d" and "record_fits (record2 ''SREM'' k v)"
  shows "log_is (snd (srem_entry k v ptr t u)) (if fst (srem_entry k v ptr t u) = 1 then d @ record2 ''SREM'' k v else d)"
proof -
  have "log_is (u\<lparr>st := s\<rparr>) d" for s using assms(1) by (simp add: log_is_def log_at_def)
  from log_is_quietly [OF this assms(2)]
  have "log_is (settle b k ptr (append_record2 c k v (log_quietly (record2 ''SREM'' k v) (u\<lparr>st := s\<rparr>)))) (d @ record2 ''SREM'' k v)" for b c s
    using silent_log [OF silent_settle [OF silent_append_record(2) [OF silent_refl]]] by blast
  with assms(1) show ?thesis
    by (simp add: srem_entry_def split_beta Let_def split: option.split)
qed

lemma kv_srem_log:
  assumes "log_is w d" and "record_fits (record2 ''SREM'' k v)"
  shows "log_is (snd (kv_srem (Some k) (Some v) w)) (if fst (kv_srem (Some k) (Some v) w) = 1 then d @ record2 ''SREM'' k v else d)"
proof -
  define f where "f = find_entry_unlocked k (kv_acquire_bucket_lock k w)"
  have l: "log_is (snd f) d" using log_is_find [OF assms(1)] by (simp add: f_def)
  show ?thesis
  proof (cases "fst f")
    case None
    then show ?thesis using l assms(1) by (simp add: kv_srem_def f_def [symmetric] split_beta Let_def)
  next
    case (Some ptr)
    show ?thesis
    proof (cases "e_value (deref (st (snd f)) ptr)")
      case (VSet x)
      with Some srem_entry_log [OF l assms(2), of ptr x] assms(1) show ?thesis
        by (auto simp: kv_srem_def f_def [symmetric] split_beta Let_def split: if_splits)
    qed (use Some l assms(1) in \<open>simp_all add: kv_srem_def f_def [symmetric] split_beta Let_def\<close>)
  qed
qed

lemma recorded_srem:
  assumes "ready base w" and "op_ok (L_Srem k v)" and "record_fits (op_record (L_Srem k v))" and "log_is w d" and "unexpired k w"
  shows "recorded base (L_Srem k v) w (snd (kv_srem (Some k) (Some v) w)) d"
proof -
  have eff: "effect base (L_Srem k v) w (snd (kv_srem (Some k) (Some v) w))" using effect_srem assms(1,5) .
  moreover have "abs_view (st (snd (kv_srem (Some k) (Some v) w))) = abs_view (st w)" if "fst (kv_srem (Some k) (Some v) w) \<noteq> 1"
    using readyD(1,2) [OF assms(1)]
  proof (cases rule: kv_srem_cases [where k = k and v = v])
    case (refused r w')
    with abs_view_cong [OF unexpired_outcome [OF assms(5) refused(5)]] show ?thesis by simp
  next
    case (removed w' e s s')
    with that show ?thesis by simp
  qed
  ultimately show ?thesis
    using kv_srem_log [OF assms(4), of k v] assms(3)
    by (auto simp: recorded_def effect_def op_record_simps split: if_splits)
qed

lemma kv_pexpireat_log:
  assumes "log_is w d" and "record_fits (record2 ''PEXPIREAT'' k (show_int t))" and "lock_initialized (st w)"
  shows "log_is (snd (kv_pexpireat (Some k) t w))
    (if fst (kv_pexpireat (Some k) t w) = 1 then d @ record2 ''PEXPIREAT'' k (show_int t) else d)"
proof -
  define u where "u = snd (find_entry_unlocked k (kv_acquire_bucket_lock k w))"
  have l: "log_is u d" using log_is_find [OF assms(1)] by (simp add: u_def)
  then have "log_is (u\<lparr>st := s\<rparr>) d" for s by (simp add: log_is_def log_at_def)
  from log_is_write [OF this assms(2)]
  have "log_is (snd (snd (write_aof_pexpireat k t (u\<lparr>st := s\<rparr>)))) (d @ record2 ''PEXPIREAT'' k (show_int t))" for s
    unfolding write_aof_pexpireat_def by (metis snd_conv)
  then have "log_is (append_record2 c k v (snd (snd (write_aof_pexpireat k t (u\<lparr>st := s\<rparr>))))) (d @ record2 ''PEXPIREAT'' k (show_int t))" for c v s
    using silent_log [OF silent_append_record(2) [OF silent_refl]] by blast
  with l assms(3) show ?thesis
    by (simp add: kv_pexpireat_def split_beta Let_def u_def [symmetric] split: option.split)
qed

lemma recorded_pexpireat:
  assumes "ready base w" and "op_ok (L_Pexpireat k t)" and "record_fits (op_record (L_Pexpireat k t))" and "log_is w d"
    and "unexpired k w"
  shows "recorded base (L_Pexpireat k t) w (snd (kv_pexpireat (Some k) t w)) d"
proof -
  have kept: "kept w (snd (kv_pexpireat (Some k) t w))" by (simp add: kept_kv_pexpireat)
  have live: "live_entry (st w) (now_of w) k = lookup (st w) k" using assms(5) by (simp add: unexpired_def)
  have log: "log_is (snd (kv_pexpireat (Some k) t w))
    (if fst (kv_pexpireat (Some k) t w) = 1 then d @ op_record (L_Pexpireat k t) else d)"
    using kv_pexpireat_log [OF assms(4) _ readyD(2) [OF assms(1)], of k t] assms(3)
    by (simp only: op_record_simps)
  from readyD(1,2) [OF assms(1)] show ?thesis
  proof (cases rule: kv_pexpireat_cases [where k = k and t = t])
    case (absent w')
    have same: "abs_op (L_Pexpireat k t) (abs_view (st w)) = abs_view (st w)"
      using absent(2) live by (auto simp: abs_view_def fun_eq_iff)
    have "effect base (L_Pexpireat k t) w w'"
      using absent kept unexpired_outcome [OF assms(5) absent(4)] lookup_outcome_settings [OF absent(4)] same
      by (intro effect_unchanged [OF assms(1)]) simp_all
    with absent log same show ?thesis by (simp add: recorded_def)
  next
    case (found w' e)
    have "abs_view (st w') = abs_op (L_Pexpireat k t) (abs_view (st w))"
      using abs_view_upd [OF redated_view [OF found(4)]]
      by (auto simp: abs_view_def fun_eq_iff option.map_comp comp_def)
    moreover have "ready base w'"
      using ready_kept [OF assms(1) kept] found by (simp add: redated_def)
    ultimately show ?thesis using found log kept by (simp add: recorded_def effect_def)
  qed
qed

section \<open>A history of commands\<close>

text \<open>The public command that logs an operation.\<close>

fun run_cmd :: "log_op \<Rightarrow> world \<Rightarrow> undefined_behaviour + world" where
  "run_cmd (L_Set k v) w = Inr (snd (kv_set (Some k) (Some v) w))"
| "run_cmd (L_Delete k) w = Inr (snd (kv_delete (Some k) w))"
| "run_cmd (L_Lpush k v) w = ignoring (kv_lpush (Some k) (Some v) w)"
| "run_cmd (L_Rpop k) w = Inr (snd (snd (kv_rpop (Some k) w)))"
| "run_cmd (L_Sadd k v) w = ignoring (kv_sadd (Some k) (Some v) w)"
| "run_cmd (L_Srem k v) w = Inr (snd (kv_srem (Some k) (Some v) w))"
| "run_cmd (L_Pexpireat k t) w = Inr (snd (kv_pexpireat (Some k) t w))"

fun run_cmds :: "log_op list \<Rightarrow> world \<Rightarrow> undefined_behaviour + world" where
  "run_cmds [] w = Inr w"
| "run_cmds (x # xs) w = (case run_cmd x w of Inl ub \<Rightarrow> Inl ub | Inr w1 \<Rightarrow> run_cmds xs w1)"

lemma run_cmd_recorded:
  assumes "ready base w" and "op_ok x" and "record_fits (op_record x)" and "log_is w d" and "unexpired (op_key x) w"
  shows "\<exists>w'. run_cmd x w = Inr w' \<and> recorded base x w w' d"
proof (cases x)
  case (L_Lpush k v)
  with recorded_lpush [of base w k v d] assms show ?thesis by (auto simp: ignoring_def)
next
  case (L_Sadd k v)
  with recorded_sadd [of base w k v d] assms show ?thesis by (auto simp: ignoring_def)
qed (use assms recorded_set recorded_delete recorded_rpop recorded_srem recorded_pexpireat in auto)

text \<open>The log keeps a part of the history that has the same effect.\<close>

lemma run_cmds_recorded:
  assumes "ready base w" and "\<And>x. x \<in> set xs \<Longrightarrow> op_ok x \<and> record_fits (op_record x)"
    and "punctual (clock (os w)) xs (abs_view (st w))" and "log_is w d"
  shows "\<exists>w' ys. run_cmds xs w = Inr w' \<and> ready base w' \<and> kept w w' \<and> abs_view (st w') = fold abs_op xs (abs_view (st w)) \<and>
    log_is w' (d @ concat (map op_record ys)) \<and> set ys \<subseteq> set xs \<and>
    fold abs_op ys (abs_view (st w)) = fold abs_op xs (abs_view (st w)) \<and>
    (\<forall>clk. punctual clk xs (abs_view (st w)) \<longrightarrow> punctual clk ys (abs_view (st w)))"
  using assms
proof (induction xs arbitrary: w d)
  case Nil
  then show ?case by (auto intro!: exI [of _ "[]"])
next
  case (Cons x xs)
  obtain w1 where w1: "run_cmd x w = Inr w1" "recorded base x w w1 d"
    using run_cmd_recorded [OF Cons.prems(1) _ _ Cons.prems(4) punctual_unexpired [OF Cons.prems(3)]]
      Cons.prems(2) [of x] by auto
  have e: "ready base w1" "kept w w1" "abs_view (st w1) = abs_op x (abs_view (st w))"
    using w1(2) by (simp_all add: recorded_def effect_def)
  have p: "punctual (clock (os w1)) xs (abs_view (st w1))"
    using Cons.prems(3) e keptD(1) [of w w1] by simp
  show ?case
  proof (cases "log_is w1 (d @ op_record x)")
    case True
    from Cons.IH [OF e(1) _ p True] Cons.prems(2) obtain w' ys where
      "run_cmds xs w1 = Inr w'" "ready base w'" "kept w1 w'" "abs_view (st w') = fold abs_op xs (abs_view (st w1))"
      "log_is w' ((d @ op_record x) @ concat (map op_record ys))" "set ys \<subseteq> set xs"
      "fold abs_op ys (abs_view (st w1)) = fold abs_op xs (abs_view (st w1))"
      "\<forall>clk. punctual clk xs (abs_view (st w1)) \<longrightarrow> punctual clk ys (abs_view (st w1))" by auto
    with w1(1) e kept_trans [OF e(2)] show ?thesis by (intro exI [of _ w'] exI [of _ "x # ys"]) auto
  next
    case False
    with w1(2) have l: "log_is w1 d" and same: "abs_op x (abs_view (st w)) = abs_view (st w)"
      by (auto simp: recorded_def)
    from Cons.IH [OF e(1) _ p l] Cons.prems(2) obtain w' ys where
      "run_cmds xs w1 = Inr w'" "ready base w'" "kept w1 w'" "abs_view (st w') = fold abs_op xs (abs_view (st w1))"
      "log_is w' (d @ concat (map op_record ys))" "set ys \<subseteq> set xs"
      "fold abs_op ys (abs_view (st w1)) = fold abs_op xs (abs_view (st w1))"
      "\<forall>clk. punctual clk xs (abs_view (st w1)) \<longrightarrow> punctual clk ys (abs_view (st w1))" by auto
    with w1(1) e same kept_trans [OF e(2)] show ?thesis by (intro exI [of _ w'] exI [of _ ys]) auto
  qed
qed

section \<open>Properties\<close>


text \<open>Surroundings without failures in which a log is open on the given file.\<close>

definition logging_world :: "int \<Rightarrow> string \<Rightarrow> kv_store \<Rightarrow> world" where
  "logging_world t d s =
     (quiet_world t s)\<lparr>aof := no_aof\<lparr>aof_fp := Some (open_stream d), aof_path := Some ''f''\<rparr>\<rparr>"

lemma logging_world_sel [simp]:
  "st (logging_world t d s) = s" "os (logging_world t d s) = quiet_os t" "no_oom (logging_world t d s)"
  "log_at (logging_world t d s) d 0"
  by (simp_all add: logging_world_def quiet_world_def quiet_os_def no_aof_def no_oom_def log_at_def open_stream_def)


text \<open>C40. A command that fails takes its record back by truncating the file to the offset the stream
  had before the write. On a stream just opened that offset is zero whatever the file holds: if
  the first command after a restart is a \<^verbatim>\<open>DELETE\<close> of a key that does not exist, the whole log is
  lost.\<close>

theorem failed_delete_after_restart_wipes_log:
  assumes "wf_store base (st w)" and "lock_initialized (st w)" and "valid_key k" and "cstring k"
    and "lookup (st w) k = None" and "log_at w d 0"
  shows "fst (kv_delete (Some k) w) = KV_ERR_NOT_FOUND \<and> log_is (snd (kv_delete (Some k) w)) []"
proof -
  define w1 where "w1 = kv_acquire_bucket_lock k w"
  have w1: "log_at w1 d 0" "st w1 = st w" using assms(6) by (simp_all add: w1_def log_at_def frame)
  have fits: "record_fits (record1 ''DELETE'' k)" using assms(3) by (simp add: record1_def valid_key_def)
  have "silent u (snd (kv_delete_internal (Some k) u))" for u by (simp add: silent_kv_delete_internal)
  from logged_log [OF w1(1) le0 fits this] obtain w2 where w2: "same_but_log w1 w2"
    "fst (logged (record1 ''DELETE'' k) (kv_delete_internal (Some k)) w1) = fst (kv_delete_internal (Some k) w2)"
    "st (snd (logged (record1 ''DELETE'' k) (kv_delete_internal (Some k)) w1)) = st (snd (kv_delete_internal (Some k) w2))"
    "log_is (snd (logged (record1 ''DELETE'' k) (kv_delete_internal (Some k)) w1))
       (if fst (kv_delete_internal (Some k) w2) = KV_OK then d @ record1 ''DELETE'' k else take 0 d)" .
  have "fst (kv_delete_internal (Some k) w2) = KV_ERR_NOT_FOUND"
    using kv_delete_internal_spec(2) [of base w2 k] same_but_logD(1) [OF w2(1)] assms w1(2) by simp
  with w2 assms(2-4) show ?thesis
    by (simp add: kv_delete_def Let_def split_beta w1_def)
qed

theorem failed_delete_after_restart_wipes_log_witness:
  "log_is (snd (kv_delete (Some ''a'') (logging_world 7 (op_record (L_Set ''b'' ''1'')) (fresh_store 8 0 0)))) []"
  using failed_delete_after_restart_wipes_log
    [of 0 "logging_world 7 (op_record (L_Set ''b'' ''1'')) (fresh_store 8 0 0)" "''a''" "op_record (L_Set ''b'' ''1'')"]
  by simp

end
