(* ===== verification/KV_Snapshot.thy ===== *)
theory KV_Snapshot
  imports KV_Init
begin

unbundle bit_operations_syntax

text \<open>
  Binary snapshots (\<^verbatim>\<open>src/snapshot.c\<close>): the checksum, the little-endian codecs, saving the live
  part of a store and loading a file into a store. A file being written is the bytes so far
  with the running checksum; one being read is the bytes left with the running checksum.
\<close>

section \<open>Checksum and codecs\<close>

definition adler_step :: "char \<Rightarrow> 32 word \<times> 32 word \<Rightarrow> 32 word \<times> 32 word" where
  "adler_step b p =
     (let s1 = (fst p + of_char b) mod 65521;
          s2 = (snd p + s1) mod 65521
      in (s1, s2))"

definition adler32 :: "32 word \<Rightarrow> string \<Rightarrow> 32 word" where
  "adler32 adler buf =
     (let (s1, s2) = fold adler_step buf (adler AND 0xFFFF, drop_bit 16 adler AND 0xFFFF)
      in push_bit 16 s2 OR s1)"

fun le_bytes :: "nat \<Rightarrow> 'a::len word \<Rightarrow> string" where
  "le_bytes 0 val = []"
| "le_bytes (Suc n) val = char_of (unat (val AND 0xFF)) # le_bytes n (drop_bit 8 val)"

fun from_le :: "nat \<Rightarrow> string \<Rightarrow> 'a::len word \<Rightarrow> 'a word" where
  "from_le i [] val = val"
| "from_le i (b # bs) val = from_le (Suc i) bs (val OR push_bit (8 * i) (of_char b))"

type_synonym snap = "string \<times> 32 word"

definition write_bytes :: "string \<Rightarrow> snap \<Rightarrow> snap" where
  "write_bytes buf f = (fst f @ buf, adler32 (snd f) buf)"

definition write_uint64 :: "64 word \<Rightarrow> snap \<Rightarrow> snap" where
  "write_uint64 val f = write_bytes (le_bytes 8 val) f"

definition write_uint32 :: "32 word \<Rightarrow> snap \<Rightarrow> snap" where
  "write_uint32 val f = write_bytes (le_bytes 4 val) f"

definition read_bytes :: "nat \<Rightarrow> snap \<Rightarrow> (string \<times> snap) option" where
  "read_bytes len f =
     (if length (fst f) < len then None
      else Some (take len (fst f), (drop len (fst f), adler32 (snd f) (take len (fst f)))))"

definition read_uint64 :: "snap \<Rightarrow> (64 word \<times> snap) option" where
  "read_uint64 f = map_option (\<lambda>(buf, f'). (from_le 0 buf 0, f')) (read_bytes 8 f)"

definition read_uint32 :: "snap \<Rightarrow> (32 word \<times> snap) option" where
  "read_uint32 f = map_option (\<lambda>(buf, f'). (from_le 0 buf 0, f')) (read_bytes 4 f)"

section \<open>Saving\<close>

fun type_byte :: "kv_type \<Rightarrow> char" where
  "type_byte KV_TYPE_STRING = CHR 0x00"
| "type_byte KV_TYPE_LIST = CHR 0x01"
| "type_byte KV_TYPE_SET = CHR 0x02"

definition write_string :: "string \<Rightarrow> snap \<Rightarrow> snap" where
  "write_string v f = write_bytes v (write_uint32 (of_nat (length v)) f)"

fun write_value :: "kv_value \<Rightarrow> snap \<Rightarrow> snap" where
  "write_value (VString v) f = write_string v f"
| "write_value (VList l) f =
     fold write_string (rev (l_nodes l)) (write_uint32 (of_nat (l_count l)) f)"
| "write_value (VSet t) f =
     fold write_string (concat (take (s_bucket_count t) (s_buckets t))) (write_uint32 (of_nat (s_count t)) f)"

definition write_entry :: "int \<Rightarrow> kv_entry \<Rightarrow> snap \<Rightarrow> snap" where
  "write_entry now e f =
     (if expire_at_ms e = 0 \<or> expire_at_ms e > now
      then write_value (e_value e)
             (write_bytes [type_byte (e_type e)]
               (write_bytes (e_key e)
                 (write_uint32 (of_nat (length (e_key e))) (write_uint64 (of_int (expire_at_ms e)) f))))
      else f)"

abbreviation SNAPSHOT_MAGIC :: string where "SNAPSHOT_MAGIC \<equiv> ''MINIKV01''"

definition write_body :: "int \<Rightarrow> kv_store \<Rightarrow> snap \<Rightarrow> snap" where
  "write_body now s f =
     write_uint64 (- 1) (fold (write_entry now) (concat (take (bucket_count s) (buckets s))) f)"

text \<open>The bytes of a snapshot when every write succeeds.\<close>

definition snapshot_bytes :: "int \<Rightarrow> kv_store \<Rightarrow> string" where
  "snapshot_bytes now s =
     (let f = write_body now s (write_bytes SNAPSHOT_MAGIC ([], 1)) in fst f @ le_bytes 4 (snd f))"

text \<open>The result is the status and, on success, what the file now holds. Only the first and the
  last write are checked: when one in between fails, what follows the bytes already written
  is lost, and the file is installed all the same; so it is when the last flush fails.\<close>

definition kv_save_internal_unlocked :: "world \<Rightarrow> int \<times> string option \<times> world" where
  "kv_save_internal_unlocked w =
     (let (open_tmp, w1) = io_step w
      in if open_tmp \<noteq> None then (KV_ERR_IO, None, w1)
         else
           (let (magic, w2) = io_step w1
            in if magic \<noteq> None then (KV_ERR_IO, None, w2)
               else
                 (let (now, w3) = kv_current_time_ms w2;
                      f = write_body now (st w3) (write_bytes SNAPSHOT_MAGIC ([], 1));
                      (body, w4) = io_step w3;
                      written = (case body of None \<Rightarrow> fst f | Some n \<Rightarrow> take (8 + n) (fst f));
                      (csum, w5) = io_step w4
                  in if csum \<noteq> None then (KV_ERR_IO, None, w5)
                     else
                       (let (fl, w6) = io_step w5;
                            all = written @ le_bytes 4 (snd f);
                            on_disk = (case fl of None \<Rightarrow> all | Some n \<Rightarrow> take n all);
                            (ren, w7) = io_step w6
                        in if ren \<noteq> None then (KV_ERR_IO, None, w7) else (KV_OK, Some on_disk, w7)))))"

definition kv_save :: "cstr \<Rightarrow> world \<Rightarrow> int \<times> string option \<times> world" where
  "kv_save filename w =
     (if filename = None then (KV_ERR_INVALID_PARAM, None, w)
      else
        (let (res, out, w1) = kv_save_internal_unlocked (kv_acquire_all_locks w)
         in (res, out, kv_release_all_locks w1)))"

text \<open>A background save: the child's exit status with the file it installs, and the parent's side,
  where \<open>pid\<close> is what \<^verbatim>\<open>fork\<close> returned.\<close>

definition bgsave_child :: "world \<Rightarrow> nat \<times> string option" where
  "bgsave_child w =
     (let (res, out, w1) = kv_save_internal_unlocked w in (if res = KV_OK then 0 else 1, out))"

definition kv_bgsave :: "cstr \<Rightarrow> int \<Rightarrow> world \<Rightarrow> int \<times> world" where
  "kv_bgsave filename pid w =
     (if filename = None then (KV_ERR_INVALID_PARAM, w)
      else
        (let w1 = kv_acquire_all_locks w
         in if bgsave_pid (st w1) \<noteq> 0 \<or> aof_rewrite_pid (aof w1) \<noteq> 0
            then (KV_ERR_AGAIN, kv_release_all_locks w1)
            else if pid < 0 then (KV_ERR_IO, kv_release_all_locks w1)
            else (KV_OK, kv_release_all_locks (upd_st (\<lambda>s. s\<lparr>bgsave_pid := pid\<rparr>) w1))))"

section \<open>Loading\<close>

text \<open>A length-prefixed string, read into memory of its own; \<open>None\<close> is the jump to \<^verbatim>\<open>err\<close>.\<close>

definition read_string :: "nat \<Rightarrow> snap \<Rightarrow> world \<Rightarrow> (string \<times> snap) option \<times> world" where
  "read_string max_len f w =
     (case read_uint32 f of
        None \<Rightarrow> (None, w)
      | Some (len, f1) \<Rightarrow>
          if unat len > max_len then (None, w)
          else (let (ok, w1) = libc_malloc w in (if ok then read_bytes (unat len) f1 else None, w1)))"

type_synonym load_state = "snap option \<times> world"

fun load_elems :: "bool \<Rightarrow> kv_type \<Rightarrow> string \<Rightarrow> nat \<Rightarrow> snap \<Rightarrow> world \<Rightarrow> undefined_behaviour + load_state" where
  "load_elems valid kind key 0 f w = Inr (Some f, w)"
| "load_elems valid kind key (Suc n) f w =
     (let (elem, w1) = read_string KV_MAX_VALUE_LEN f w
      in case elem of
           None \<Rightarrow> Inr (None, w1)
         | Some (v, f1) \<Rightarrow>
             (let r = (if valid
                       then if kind = KV_TYPE_LIST then ignoring (kv_lpush (Some (c_str key)) (Some (c_str v)) w1)
                            else ignoring (kv_sadd (Some (c_str key)) (Some (c_str v)) w1)
                       else Inr w1)
              in case r of Inl ub \<Rightarrow> Inl ub | Inr w2 \<Rightarrow> load_elems valid kind key n f1 w2))"

definition load_string :: "bool \<Rightarrow> int \<Rightarrow> string \<Rightarrow> snap \<Rightarrow> world \<Rightarrow> undefined_behaviour + load_state" where
  "load_string valid t key f w =
     (let (val, w1) = read_string KV_MAX_VALUE_LEN f w
      in case val of
           None \<Rightarrow> Inr (None, w1)
         | Some (v, f1) \<Rightarrow>
             if valid
             then (let (res, w2) = kv_set (Some (c_str key)) (Some (c_str v)) w1
                   in Inr (Some f1, if res = KV_OK \<and> t \<noteq> 0
                        then kv_set_expire_at_ms_internal (Some (c_str key)) t w2 else w2))
             else Inr (Some f1, w1))"

definition load_coll :: "bool \<Rightarrow> int \<Rightarrow> kv_type \<Rightarrow> string \<Rightarrow> snap \<Rightarrow> world \<Rightarrow> undefined_behaviour + load_state" where
  "load_coll valid t kind key f w =
     (case read_uint32 f of
        None \<Rightarrow> Inr (None, w)
      | Some (count, f1) \<Rightarrow>
          (case load_elems valid kind key (unat count) f1 w of
             Inl ub \<Rightarrow> Inl ub
           | Inr (None, w1) \<Rightarrow> Inr (None, w1)
           | Inr (Some f2, w1) \<Rightarrow>
               Inr (Some f2, if valid \<and> unat count > 0 \<and> t \<noteq> 0
                    then kv_set_expire_at_ms_internal (Some (c_str key)) t w1 else w1)))"

text \<open>One entry after its deadline. A type that is none of the three carries nothing.\<close>

definition load_entry :: "int \<Rightarrow> int \<Rightarrow> snap \<Rightarrow> world \<Rightarrow> undefined_behaviour + load_state" where
  "load_entry now t f w =
     (let (key, w1) = read_string KV_MAX_KEY_LEN f w
      in case key of
           None \<Rightarrow> Inr (None, w1)
         | Some (k, f1) \<Rightarrow>
             (case read_bytes 1 f1 of
                None \<Rightarrow> Inr (None, w1)
              | Some (ty, f2) \<Rightarrow>
                  (let valid = (t = 0 \<or> t > now)
                   in if hd ty = CHR 0x00 then load_string valid t k f2 w1
                      else if hd ty = CHR 0x01 then load_coll valid t KV_TYPE_LIST k f2 w1
                      else if hd ty = CHR 0x02 then load_coll valid t KV_TYPE_SET k f2 w1
                      else Inr (Some f2, w1))))"

text \<open>Reading never makes the input longer, and every turn of the loop consumes eight bytes.\<close>

lemma read_bytes_shorter: "read_bytes n f = Some (b, f') \<Longrightarrow> length (fst f') + n = length (fst f)"
  by (auto simp: read_bytes_def split: if_splits)

lemma read_uint_shorter:
  "read_uint64 f = Some (v, f') \<Longrightarrow> length (fst f') + 8 = length (fst f)"
  "read_uint32 f = Some (u, f') \<Longrightarrow> length (fst f') + 4 = length (fst f)"
  by (auto simp: read_uint64_def read_uint32_def dest: read_bytes_shorter)

lemma read_string_shorter: "read_string m f w = (Some (v, f'), w') \<Longrightarrow> length (fst f') \<le> length (fst f)"
  by (auto simp: read_string_def Let_def split_beta split: option.splits if_splits
      dest!: read_bytes_shorter read_uint_shorter)

lemma load_elems_shorter: "load_elems valid kind k n f w = Inr (Some f', w') \<Longrightarrow> length (fst f') \<le> length (fst f)"
proof (induction n arbitrary: f w)
  case (Suc n)
  obtain elem w1 where e: "read_string KV_MAX_VALUE_LEN f w = (elem, w1)" by fastforce
  with Suc.prems obtain v f1 where elem: "elem = Some (v, f1)" by (cases elem) auto
  with Suc.prems e obtain w2 where "load_elems valid kind k n f1 w2 = Inr (Some f', w')"
    by (auto simp: Let_def split: sum.splits)
  from Suc.IH [OF this] read_string_shorter [OF e [unfolded elem]] show ?case by simp
qed simp

lemma load_string_shorter: "load_string valid t k f w = Inr (Some f', w') \<Longrightarrow> length (fst f') \<le> length (fst f)"
  using read_string_shorter [of KV_MAX_VALUE_LEN f w]
  by (auto simp: load_string_def Let_def split_beta prod_eq_iff split: option.splits if_splits)

lemma load_coll_shorter: "load_coll valid t kind k f w = Inr (Some f', w') \<Longrightarrow> length (fst f') \<le> length (fst f)"
  by (fastforce simp: load_coll_def split: option.splits sum.splits dest!: load_elems_shorter read_uint_shorter)

lemma load_entry_shorter:
  assumes "load_entry now t f w = Inr (Some f', w')"
  shows "length (fst f') \<le> length (fst f)"
proof -
  obtain key w1 where e: "read_string KV_MAX_KEY_LEN f w = (key, w1)" by fastforce
  with assms obtain k f1 where key: "key = Some (k, f1)" by (cases key) (auto simp: load_entry_def)
  with assms e obtain ty f2 where ty: "read_bytes 1 f1 = Some (ty, f2)"
    by (cases "read_bytes 1 f1") (auto simp: load_entry_def)
  have "length (fst f') \<le> length (fst f2)"
    using assms e key ty load_string_shorter load_coll_shorter
    by (auto simp: load_entry_def Let_def split: if_splits)
  with read_string_shorter [OF e [unfolded key]] read_bytes_shorter [OF ty] show ?thesis by simp
qed

function load_loop :: "int \<Rightarrow> snap \<Rightarrow> world \<Rightarrow> undefined_behaviour + load_state" where
  "load_loop now f w =
     (case read_uint64 f of
        None \<Rightarrow> Inr (None, w)
      | Some (t, f1) \<Rightarrow>
          if t = - 1 then Inr (Some f1, w)
          else
            (case load_entry now (sint t) f1 w of
               Inl ub \<Rightarrow> Inl ub
             | Inr (None, w1) \<Rightarrow> Inr (None, w1)
             | Inr (Some f2, w1) \<Rightarrow> load_loop now f2 w1))"
  by pat_completeness auto
termination
  by (relation "measure (\<lambda>(now, f, w). length (fst f))") (auto dest!: read_uint_shorter load_entry_shorter)

declare load_loop.simps [simp del]

definition kv_load_snapshot :: "cstr \<Rightarrow> string option \<Rightarrow> world \<Rightarrow> int result" where
  "kv_load_snapshot filename contents w =
     (if filename = None then Inr (KV_ERR_INVALID_PARAM, w)
      else
        case contents of
          None \<Rightarrow> Inr (KV_ERR_IO, w)
        | Some bytes \<Rightarrow>
            if length bytes < 8 then Inr (KV_ERR_IO, w)
            else if take 8 bytes \<noteq> SNAPSHOT_MAGIC then Inr (KV_ERR_IO, w)
            else
              (let (now, w1) = kv_current_time_ms w
               in case load_loop now (drop 8 bytes, adler32 1 (take 8 bytes)) w1 of
                    Inl ub \<Rightarrow> Inl ub
                  | Inr (None, w2) \<Rightarrow> Inr (KV_ERR_IO, w2)
                  | Inr (Some f, w2) \<Rightarrow>
                      if length (fst f) < 4 then Inr (KV_ERR_IO, w2)
                      else if snd f \<noteq> from_le 0 (take 4 (fst f)) 0 then Inr (KV_ERR_IO, w2)
                      else Inr (KV_OK, w2)))"

section \<open>The codecs are inverse\<close>

lemma of_char_char_of_byte:
  fixes v :: "'a::len word"
  assumes "8 \<le> LENGTH('a)"
  shows "(of_char (char_of (unat (v AND 0xFF))) :: 'a word) = take_bit 8 v"
proof -
  have mask: "v AND 0xFF = take_bit 8 v" by (simp add: take_bit_eq_mask mask_eq_exp_minus_1)
  have "unat (take_bit 8 v) = take_bit 8 (unat v)" by (rule unsigned_take_bit_eq)
  then have "unat (take_bit 8 v) < 256" using take_bit_nat_less_exp [of 8 "unat v"] by simp
  then have "(of_char (char_of (unat (take_bit 8 v))) :: nat) = unat (take_bit 8 v)" by simp
  then have "of_nat (of_char (char_of (unat (take_bit 8 v)))) = (of_nat (unat (take_bit 8 v)) :: 'a word)" by metis
  then show ?thesis by (simp only: mask of_nat_of_char) simp
qed

lemma from_le_le_bytes:
  fixes v :: "'a::len word"
  assumes "8 \<le> LENGTH('a)"
  shows "from_le i (le_bytes n v) a = a OR push_bit (8 * i) (take_bit (8 * n) v)"
proof (induction n arbitrary: i a v)
  case 0
  then show ?case by simp
next
  case (Suc n)
  have "push_bit (8 * i) (take_bit 8 v) OR push_bit (8 * Suc i) (take_bit (8 * n) (drop_bit 8 v)) =
      push_bit (8 * i) (take_bit (8 * Suc n) v)"
  proof (rule bit_eqI)
    fix m assume "possible_bit TYPE('a word) m"
    have "8 + (m - (8 + 8 * i)) = m - 8 * i" if "\<not> m - 8 * i < 8" using that by simp
    then show "bit (push_bit (8 * i) (take_bit 8 v) OR push_bit (8 * Suc i) (take_bit (8 * n) (drop_bit 8 v))) m =
      bit (push_bit (8 * i) (take_bit (8 * Suc n) v)) m"
      by (cases "m - 8 * i < 8") (auto simp: bit_simps)
  qed
  then show ?case by (simp add: Suc.IH of_char_char_of_byte [OF assms] or.assoc)
qed

lemma length_le_bytes [simp]: "length (le_bytes n v) = n"
  by (induction n arbitrary: v) auto

lemma uint_round_trip:
  "from_le 0 (le_bytes 8 v) 0 = (v :: 64 word)" "from_le 0 (le_bytes 4 u) 0 = (u :: 32 word)"
  using take_bit_length_eq [of v] take_bit_length_eq [of u] by (simp_all add: from_le_le_bytes)

lemma read_bytes_append: "length b = n \<Longrightarrow> read_bytes n (b @ s, c) = Some (b, (s, adler32 c b))"
  by (simp add: read_bytes_def)

lemma read_uint_append:
  "read_uint64 (le_bytes 8 v @ s, c) = Some (v, (s, adler32 c (le_bytes 8 v)))"
  "read_uint32 (le_bytes 4 u @ s, c) = Some (u, (s, adler32 c (le_bytes 4 u)))"
  by (simp_all add: read_uint64_def read_uint32_def read_bytes_append uint_round_trip)

section \<open>The checksum of a concatenation\<close>

lemma mod_65521_bits: "take_bit 16 ((x :: 32 word) mod 65521) = x mod 65521"
proof -
  have "unat (x mod 65521) < 2 ^ 16"
    using mod_less_divisor [of 65521 "unat x"] by (simp add: unat_mod_distrib)
  then have "unat (take_bit 16 (x mod 65521)) = unat (x mod 65521)"
    by (simp only: unsigned_take_bit_eq) (simp add: take_bit_nat_eq_self)
  then show ?thesis by (simp only: word_unat_eq_iff)
qed

lemma adler_step_bits:
  "take_bit 16 (fst (adler_step b p)) = fst (adler_step b p)" "take_bit 16 (snd (adler_step b p)) = snd (adler_step b p)"
  by (simp_all add: adler_step_def Let_def mod_65521_bits)

lemma fold_adler_bits:
  assumes "take_bit 16 (fst p) = fst p" and "take_bit 16 (snd p) = snd p"
  shows "take_bit 16 (fst (fold adler_step bs p)) = fst (fold adler_step bs p) \<and>
    take_bit 16 (snd (fold adler_step bs p)) = snd (fold adler_step bs p)"
  using assms by (induction bs arbitrary: p) (simp_all add: adler_step_bits)

lemma adler32_append: "adler32 (adler32 a xs) ys = adler32 a (xs @ ys)"
proof -
  let ?start = "\<lambda>a :: 32 word. (a AND 0xFFFF, drop_bit 16 a AND 0xFFFF)"
  have mask: "(a :: 32 word) AND 0xFFFF = take_bit 16 a" for a
    by (simp add: take_bit_eq_mask mask_eq_exp_minus_1)
  have unpack: "?start (push_bit 16 (take_bit 16 s2) OR take_bit 16 s1) = (take_bit 16 s1, take_bit 16 s2)" for s1 s2 :: "32 word"
  proof -
    have "take_bit 16 (push_bit 16 (take_bit 16 s2) OR take_bit 16 s1) = take_bit 16 s1"
      by (rule bit_eqI) (auto simp: bit_simps)
    moreover have "take_bit 16 (drop_bit 16 (push_bit 16 (take_bit 16 s2) OR take_bit 16 s1)) = take_bit 16 s2"
      by (rule bit_eqI) (auto simp: bit_simps)
    ultimately show ?thesis by (simp only: mask)
  qed
  obtain s1 s2 where p: "fold adler_step xs (?start a) = (s1, s2)" by fastforce
  have "take_bit 16 s1 = s1" "take_bit 16 s2 = s2"
    using fold_adler_bits [of "?start a" xs] p by (simp_all add: mask)
  with unpack [of s2 s1] show ?thesis by (simp add: adler32_def p)
qed

lemma write_bytes_append: "write_bytes b (write_bytes a f) = write_bytes (a @ b) f"
  by (simp add: write_bytes_def adler32_append)

section \<open>The bytes of a snapshot\<close>

definition enc_string :: "string \<Rightarrow> string" where
  "enc_string v = le_bytes 4 (of_nat (length v) :: 32 word) @ v"

fun enc_value :: "kv_value \<Rightarrow> string" where
  "enc_value (VString v) = enc_string v"
| "enc_value (VList l) = le_bytes 4 (of_nat (l_count l) :: 32 word) @ concat (map enc_string (rev (l_nodes l)))"
| "enc_value (VSet t) =
     le_bytes 4 (of_nat (s_count t) :: 32 word) @ concat (map enc_string (concat (take (s_bucket_count t) (s_buckets t))))"

definition enc_entry :: "kv_entry \<Rightarrow> string" where
  "enc_entry e =
     le_bytes 8 (of_int (expire_at_ms e) :: 64 word) @ enc_string (e_key e) @ type_byte (e_type e) # enc_value (e_value e)"

definition saved :: "int \<Rightarrow> kv_entry \<Rightarrow> bool" where
  "saved now e \<longleftrightarrow> expire_at_ms e = 0 \<or> expire_at_ms e > now"

lemma adler32_Nil [simp]: "adler32 a [] = a"
proof -
  have "push_bit 16 (drop_bit 16 a AND 0xFFFF) OR (a AND 0xFFFF) = push_bit 16 (take_bit 16 (drop_bit 16 a)) OR take_bit 16 a"
    by (simp add: take_bit_eq_mask mask_eq_exp_minus_1)
  also have "\<dots> = a"
  proof (rule bit_eqI)
    fix n assume "possible_bit TYPE(32 word) n"
    then show "bit (push_bit 16 (take_bit 16 (drop_bit 16 a)) OR take_bit 16 a) n = bit a n"
      by (cases "n < 16") (auto simp: bit_simps)
  qed
  finally show ?thesis by (simp add: adler32_def)
qed

lemma write_string_enc: "write_string v f = write_bytes (enc_string v) f"
  by (simp add: write_string_def write_uint32_def write_bytes_append enc_string_def)

lemma fold_write_string: "fold write_string vs f = write_bytes (concat (map enc_string vs)) f"
  by (induction vs arbitrary: f) (simp_all add: write_string_enc write_bytes_append, simp add: write_bytes_def)

lemma write_value_enc: "write_value x f = write_bytes (enc_value x) f"
  by (cases x) (simp_all add: write_string_enc fold_write_string write_uint32_def write_bytes_append)

lemma write_entry_enc: "write_entry now e f = (if saved now e then write_bytes (enc_entry e) f else f)"
  by (simp add: write_entry_def saved_def write_value_enc write_uint32_def write_uint64_def write_bytes_append
      enc_entry_def enc_string_def)

lemma fold_write_entry:
  "fold (write_entry now) es f = write_bytes (concat (map enc_entry (filter (saved now) es))) f"
  by (induction es arbitrary: f) (simp_all add: write_entry_enc write_bytes_append, simp_all add: write_bytes_def)

definition body_bytes :: "int \<Rightarrow> kv_store \<Rightarrow> string" where
  "body_bytes now s =
     concat (map enc_entry (filter (saved now) (concat (take (bucket_count s) (buckets s))))) @ le_bytes 8 (- 1 :: 64 word)"

lemma snapshot_bytes_enc:
  "snapshot_bytes now s =
     SNAPSHOT_MAGIC @ body_bytes now s @ le_bytes 4 (adler32 (adler32 1 SNAPSHOT_MAGIC) (body_bytes now s))"
  by (simp add: snapshot_bytes_def write_body_def fold_write_entry write_uint64_def write_bytes_append
      body_bytes_def write_bytes_def adler32_append)

section \<open>Reading it back\<close>

lemma read_string_enc:
  assumes "length v \<le> m" and "m < 2 ^ 32" and "no_oom w"
  shows "read_string m (enc_string v @ s, c) w = (Some (v, (s, adler32 c (enc_string v))), snd (libc_malloc w))"
proof -
  have "unat (of_nat (length v) :: 32 word) = length v"
    using assms by (simp add: unsigned_of_nat take_bit_nat_eq_self)
  moreover have "fst (libc_malloc w)" using assms(3) by (simp add: libc_malloc_def no_oom_def)
  ultimately show ?thesis
    using assms(1)
    by (simp add: read_string_def enc_string_def read_uint_append read_bytes_append split_beta Let_def adler32_append)
qed

lemma ready_libc_malloc: "ready base w \<Longrightarrow> ready base (snd (libc_malloc w))"
  by (simp add: ready_def frame) (simp add: no_oom_def libc_malloc_def)

fun coll_op :: "kv_type \<Rightarrow> string \<Rightarrow> string \<Rightarrow> log_op" where
  "coll_op KV_TYPE_LIST = L_Lpush"
| "coll_op KV_TYPE_SET = L_Sadd"
| "coll_op KV_TYPE_STRING = L_Set"

text \<open>No deadline is pending on the key, so no clock reading makes it expire.\<close>

definition undated :: "string \<Rightarrow> world \<Rightarrow> bool" where
  "undated k w \<longleftrightarrow> (\<forall>x t. abs_view (st w) k = Some (x, t) \<longrightarrow> t \<le> 0)"

lemma undated_unexpired: "undated k w \<Longrightarrow> unexpired k w"
  by (auto simp: undated_def unexpired_def live_entry_def entry_is_expired_def abs_view_def split: option.splits)

lemma cstring_c_str: "cstring v \<Longrightarrow> c_str v = v"
  by (auto simp: c_str_def cstring_def takeWhile_eq_all_conv)

lemma load_elems_enc:
  assumes "ready base w" and "kind \<noteq> KV_TYPE_STRING" and "\<And>v. v \<in> set vs \<Longrightarrow> op_valid (coll_op kind k v)"
    and "undated k w"
  shows "\<exists>w'. load_elems True kind k (length vs) (concat (map enc_string vs) @ s, c) w =
      Inr (Some (s, adler32 c (concat (map enc_string vs))), w') \<and> ready base w' \<and> kept w w' \<and>
    abs_view (st w') = fold abs_op (map (coll_op kind k) vs) (abs_view (st w))"
  using assms
proof (induction vs arbitrary: w c)
  case Nil
  then show ?case by simp
next
  case (Cons v vs)
  define w1 where "w1 = snd (libc_malloc w)"
  have v: "op_valid (coll_op kind k v)" using Cons.prems(3) by simp
  then have cs: "length v \<le> KV_MAX_VALUE_LEN" "cstring v" "cstring k"
    using Cons.prems(2) by (cases kind; simp add: valid_value_def)+
  have w1: "ready base w1" "kept w w1" "undated k w1" "abs_view (st w1) = abs_view (st w)"
    using ready_libc_malloc [OF Cons.prems(1)] Cons.prems(4) by (simp_all add: w1_def kept_prim undated_def frame)
  have "unexpired (op_key (coll_op kind k v)) w1"
    using undated_unexpired [OF w1(3)] by (cases kind) simp_all
  then obtain w2 where w2: "run_op (coll_op kind k v) w1 = Inr w2" "effect base (coll_op kind k v) w1 w2"
    using run_op_effect [OF w1(1) v] by blast
  have e: "ready base w2" "kept w w2" "abs_view (st w2) = abs_op (coll_op kind k v) (abs_view (st w))"
    using w2(2) w1(4) kept_trans [OF w1(2)] by (simp_all add: effect_def)
  have u2: "undated k w2"
    using Cons.prems(2,4) unfolding undated_def e(3)
    by (cases kind) (auto split: option.splits avalue.splits)
  have vs: "\<And>v. v \<in> set vs \<Longrightarrow> op_valid (coll_op kind k v)" using Cons.prems(3) by simp
  from Cons.IH [OF e(1) Cons.prems(2) vs u2, of "adler32 c (enc_string v)"] obtain w' where w': "load_elems True kind k (length vs) (concat (map enc_string vs) @ s, adler32 c (enc_string v)) w2 =
      Inr (Some (s, adler32 (adler32 c (enc_string v)) (concat (map enc_string vs))), w')" "ready base w'" "kept w2 w'"
    "abs_view (st w') = fold abs_op (map (coll_op kind k) vs) (abs_view (st w2))"
    by blast
  have step: "(if kind = KV_TYPE_LIST then ignoring (kv_lpush (Some k) (Some v) w1) else ignoring (kv_sadd (Some k) (Some v) w1)) = Inr w2"
    using w2(1) Cons.prems(2) by (cases kind) simp_all
  have rd: "read_string KV_MAX_VALUE_LEN (enc_string v @ concat (map enc_string vs) @ s, c) w =
      (Some (v, (concat (map enc_string vs) @ s, adler32 c (enc_string v))), w1)"
    unfolding w1_def by (rule read_string_enc [OF cs(1) _ readyD(3) [OF Cons.prems(1)]]) simp
  have "load_elems True kind k (length (v # vs)) (concat (map enc_string (v # vs)) @ s, c) w =
      Inr (Some (s, adler32 c (concat (map enc_string (v # vs)))), w')"
    using rd step w'(1) cs(2,3) by (cases "kind = KV_TYPE_LIST") (simp_all add: Let_def cstring_c_str adler32_append)
  with w'(2,4) e(3) kept_trans [OF e(2) w'(3)] show ?case by auto
qed

lemma load_elems_skip:
  assumes "no_oom w" and "\<And>v. v \<in> set vs \<Longrightarrow> length v \<le> KV_MAX_VALUE_LEN"
  shows "\<exists>w'. load_elems False kind k (length vs) (concat (map enc_string vs) @ s, c) w =
      Inr (Some (s, adler32 c (concat (map enc_string vs))), w') \<and> st w' = st w \<and> kept w w' \<and> no_oom w' \<and> aof w' = aof w"
  using assms
proof (induction vs arbitrary: w c)
  case Nil
  then show ?case by simp
next
  case (Cons v vs)
  define w1 where "w1 = snd (libc_malloc w)"
  have w1: "no_oom w1" "st w1 = st w" "kept w w1" "aof w1 = aof w"
    using Cons.prems(1) by (simp_all add: w1_def frame kept_prim) (simp add: no_oom_def libc_malloc_def)
  have vs: "\<And>v. v \<in> set vs \<Longrightarrow> length v \<le> KV_MAX_VALUE_LEN" using Cons.prems(2) by simp
  from Cons.IH [OF w1(1) vs, of "adler32 c (enc_string v)"] obtain w' where w':
    "load_elems False kind k (length vs) (concat (map enc_string vs) @ s, adler32 c (enc_string v)) w1 =
      Inr (Some (s, adler32 (adler32 c (enc_string v)) (concat (map enc_string vs))), w')"
    "st w' = st w1" "kept w1 w'" "no_oom w'" "aof w' = aof w1" by blast
  have "read_string KV_MAX_VALUE_LEN (enc_string v @ concat (map enc_string vs) @ s, c) w =
      (Some (v, (concat (map enc_string vs) @ s, adler32 c (enc_string v))), w1)"
    unfolding w1_def by (rule read_string_enc [OF _ _ Cons.prems(1)]) (use Cons.prems(2) in simp_all)
  with w'(1) have "load_elems False kind k (length (v # vs)) (concat (map enc_string (v # vs)) @ s, c) w =
      Inr (Some (s, adler32 c (concat (map enc_string (v # vs)))), w')"
    by (simp add: Let_def adler32_append)
  with w' w1 kept_trans [OF w1(3) w'(3)] show ?case by auto
qed

text \<open>Storing a string without a log.\<close>

lemma effect_kv_set:
  assumes "ready base w" and "aof_fp (aof w) = None" and "op_valid (L_Set k v)" and "lookup (st w) k = None"
  shows "fst (kv_set (Some k) (Some v) w) = KV_OK" "effect base (L_Set k v) w (snd (kv_set (Some k) (Some v) w))"
proof -
  note r = readyD [OF assms(1)]
  have k: "cstring k" "valid_key k" "cstring v" "valid_value v" using assms(3) by simp_all
  show "fst (kv_set (Some k) (Some v) w) = KV_OK"
    using r assms(4) by (intro kv_set_total [OF r(1-3) assms(2) k]) simp_all
  obtain g w1 where acq: "set_acquire (sizeof_kv_entry + length k + 1 + length v + 1) k w = (g, w1)" by fastforce
  note a = set_acquire_spec [OF r(1) acq]
  have kept1: "kept w w1" using kept_acquire(1) [OF kept_refl] acq by (metis snd_conv)
  note ready1 = ready_kept [OF assms(1) kept1 a(1,3)]
  have fp: "aof_fp (aof (snd (kv_set_internal (Some k) (Some v) w1))) = None"
    using keptD(5) [OF kept_kv_set_internal [OF kept_refl]] assms(2) a(6) by simp
  have run: "snd (kv_set (Some k) (Some v) w) = set_release g k (snd (kv_set_internal (Some k) (Some v) w1))"
    using r(2) k acq a(6) assms(2) fp by (auto simp: kv_set_def Let_def split_beta logged_def)
  have "abs_view (st w1) = abs_view (st w)" using a(2) by (simp add: abs_view_def fun_eq_iff)
  then have "effect base (L_Set k v) w (snd (kv_set_internal (Some k) (Some v) w1))"
    using effect_set [OF ready1 assms(3)] kept_trans [OF kept1] by (simp add: effect_def)
  then show "effect base (L_Set k v) w (snd (kv_set (Some k) (Some v) w))"
    unfolding run by (auto simp: effect_def ready_def frame no_oom_def)
qed

definition loaded :: "int \<Rightarrow> kv_entry \<Rightarrow> (avalue \<times> int) option" where
  "loaded now e =
     (if saved now e \<and> \<not> hollow (abs_value (e_value e)) then Some (abs_value (e_value e), expire_at_ms e) else None)"

text \<open>Counts are stored in 32 bits, deadlines in 64.\<close>

fun value_count :: "kv_value \<Rightarrow> nat" where
  "value_count (VString v) = 1"
| "value_count (VList l) = l_count l"
| "value_count (VSet t) = s_count t"

definition savable :: "kv_entry \<Rightarrow> bool" where
  "savable e \<longleftrightarrow> int64 (expire_at_ms e) \<and> value_count (e_value e) < 2 ^ 32"

text \<open>The deadline that follows the elements.\<close>

lemma load_deadline:
  assumes "ready base w" and "abs_view (st w) = m(k \<mapsto> (x, 0))"
  shows "\<exists>w'. (if t \<noteq> 0 then kv_set_expire_at_ms_internal (Some k) t w else w) = w' \<and>
    ready base w' \<and> kept w w' \<and> abs_view (st w') = m(k \<mapsto> (x, t))"
  using effect_pexpireat [OF assms(1), of k t] assms by (auto simp: effect_def)

lemma unat_count: "n < 2 ^ 32 \<Longrightarrow> unat (of_nat n :: 32 word) = n"
  by (simp add: unsigned_of_nat take_bit_nat_eq_self)

lemma load_coll_enc:
  assumes "ready base w" and "kind \<noteq> KV_TYPE_STRING" and "\<And>v. v \<in> set vs \<Longrightarrow> op_valid (coll_op kind k v)"
    and "cstring k" and "length vs < 2 ^ 32" and "abs_view (st w) k = None"
    and fold: "vs \<noteq> [] \<Longrightarrow> fold abs_op (map (coll_op kind k) vs) (abs_view (st w)) = (abs_view (st w))(k \<mapsto> (x, 0))"
  shows "\<exists>w'. load_coll valid t kind k (le_bytes 4 (of_nat (length vs) :: 32 word) @ concat (map enc_string vs) @ s, c) w =
      Inr (Some (s, adler32 c (le_bytes 4 (of_nat (length vs) :: 32 word) @ concat (map enc_string vs))), w') \<and>
    ready base w' \<and> kept w w' \<and> abs_view (st w') = (abs_view (st w))(k := if valid \<and> vs \<noteq> [] then Some (x, t) else None)"
proof (cases "valid \<and> vs \<noteq> []")
  case True
  have "undated k w" using assms(6) by (simp add: undated_def)
  from load_elems_enc [where vs = vs, OF assms(1,2,3) this, where s = s and c = "adler32 c (le_bytes 4 (of_nat (length vs) :: 32 word))"]
  obtain w1 where w1: "load_elems True kind k (length vs)
        (concat (map enc_string vs) @ s, adler32 c (le_bytes 4 (of_nat (length vs) :: 32 word))) w =
      Inr (Some (s, adler32 c (le_bytes 4 (of_nat (length vs) :: 32 word) @ concat (map enc_string vs))), w1)"
    "ready base w1" "kept w w1" "abs_view (st w1) = (abs_view (st w))(k \<mapsto> (x, 0))"
    using fold True by (auto simp: adler32_append)
  from load_deadline [OF w1(2,4), of t] w1 True assms(4) show ?thesis
    by (auto simp: load_coll_def read_uint_append unat_count [OF assms(5)] cstring_c_str intro: kept_trans)
next
  case False
  have len: "length v \<le> KV_MAX_VALUE_LEN" if "v \<in> set vs" for v
    using assms(2) assms(3) [OF that] by (cases kind) (simp_all add: valid_value_def)
  have "\<exists>w1. load_elems valid kind k (length vs)
        (concat (map enc_string vs) @ s, adler32 c (le_bytes 4 (of_nat (length vs) :: 32 word))) w =
      Inr (Some (s, adler32 c (le_bytes 4 (of_nat (length vs) :: 32 word) @ concat (map enc_string vs))), w1) \<and>
      st w1 = st w \<and> kept w w1 \<and> no_oom w1"
  proof (cases "vs = []")
    case True
    then show ?thesis using readyD(3) [OF assms(1)] by simp
  next
    case nonempty: False
    then have "\<not> valid" using False by simp
    with load_elems_skip [where vs = vs, OF readyD(3) [OF assms(1)] len, where kind = kind and k = k and s = s and c = "adler32 c (le_bytes 4 (of_nat (length vs) :: 32 word))"]
    show ?thesis by (auto simp: adler32_append)
  qed
  then obtain w1 where "load_elems valid kind k (length vs)
        (concat (map enc_string vs) @ s, adler32 c (le_bytes 4 (of_nat (length vs) :: 32 word))) w =
      Inr (Some (s, adler32 c (le_bytes 4 (of_nat (length vs) :: 32 word) @ concat (map enc_string vs))), w1)"
      "st w1 = st w" "kept w w1" "no_oom w1" by blast
  moreover from this have "ready base w1" using assms(1) by (simp add: ready_def)
  ultimately show ?thesis
    using False assms(6) by (auto simp: load_coll_def read_uint_append unat_count [OF assms(5)] fun_upd_idem)
qed

lemma load_string_enc:
  assumes "ready base w" and "aof_fp (aof w) = None" and "op_valid (L_Set k v)" and "abs_view (st w) k = None"
  shows "\<exists>w'. load_string valid t k (enc_string v @ s, c) w = Inr (Some (s, adler32 c (enc_string v)), w') \<and>
    ready base w' \<and> kept w w' \<and> abs_view (st w') = (abs_view (st w))(k := if valid then Some (AString v, t) else None)"
proof -
  define w1 where "w1 = snd (libc_malloc w)"
  have w1: "ready base w1" "kept w w1" "st w1 = st w" "aof_fp (aof w1) = None"
    using ready_libc_malloc [OF assms(1)] assms(2) by (simp_all add: w1_def kept_prim frame)
  have v: "length v \<le> KV_MAX_VALUE_LEN" "cstring v" "cstring k" using assms(3) by (simp_all add: valid_value_def)
  have rd: "read_string KV_MAX_VALUE_LEN (enc_string v @ s, c) w = (Some (v, (s, adler32 c (enc_string v))), w1)"
    unfolding w1_def by (rule read_string_enc [OF v(1) _ readyD(3) [OF assms(1)]]) simp
  have absent: "lookup (st w1) k = None" using assms(4) w1(3) by (simp add: abs_view_def)
  note set = effect_kv_set [OF w1(1,4) assms(3) absent]
  have "abs_view (st (snd (kv_set (Some k) (Some v) w1))) = (abs_view (st w))(k \<mapsto> (AString v, 0))"
    using set(2) w1(3) assms(4) by (simp add: effect_def)
  from load_deadline [OF _ this, of base t] set w1 rd v assms(4) show ?thesis
    by (auto simp: load_string_def Let_def split_beta cstring_c_str effect_def fun_upd_idem intro: kept_trans)
qed

text \<open>One entry, after its deadline.\<close>

definition enc_rest :: "kv_entry \<Rightarrow> string" where
  "enc_rest e = enc_string (e_key e) @ type_byte (e_type e) # enc_value (e_value e)"

lemma load_value_enc:
  assumes "ready base w" and "aof_fp (aof w) = None" and "wf_entry e" and "value_count (e_value e) < 2 ^ 32"
    and "abs_view (st w) (e_key e) = None"
  shows "\<exists>w'. (case e_value e of
        VString v \<Rightarrow> load_string (saved now e) (expire_at_ms e) (e_key e) (enc_value (e_value e) @ s, c) w
      | VList l \<Rightarrow> load_coll (saved now e) (expire_at_ms e) KV_TYPE_LIST (e_key e) (enc_value (e_value e) @ s, c) w
      | VSet t \<Rightarrow> load_coll (saved now e) (expire_at_ms e) KV_TYPE_SET (e_key e) (enc_value (e_value e) @ s, c) w) =
      Inr (Some (s, adler32 c (enc_value (e_value e))), w') \<and>
    ready base w' \<and> kept w w' \<and> abs_view (st w') = (abs_view (st w))(e_key e := loaded now e)"
proof -
  have k: "valid_key (e_key e)" "cstring (e_key e)" "wf_value (e_value e)" using assms(3) by (simp_all add: wf_entry_def)
  note fold = fold_value_ops [of "abs_view (st w)" "e_key e" "e_value e", OF assms(5) k(3)]
  show ?thesis
  proof (cases "e_value e")
    case (VString v)
    then show ?thesis
      using load_string_enc [OF assms(1,2) _ assms(5), of v "saved now e" "expire_at_ms e" s c] k
      by (simp add: loaded_def split del: if_split cong: if_cong)
  next
    case (VList l)
    have "l_count l = length (rev (l_nodes l))" using VList k(3) by simp
    moreover have "\<exists>w'. load_coll (saved now e) (expire_at_ms e) KV_TYPE_LIST (e_key e)
        (le_bytes 4 (of_nat (length (rev (l_nodes l))) :: 32 word) @ concat (map enc_string (rev (l_nodes l))) @ s, c) w =
        Inr (Some (s, adler32 c (le_bytes 4 (of_nat (length (rev (l_nodes l))) :: 32 word) @ concat (map enc_string (rev (l_nodes l))))), w') \<and>
      ready base w' \<and> kept w w' \<and> abs_view (st w') = (abs_view (st w))
        (e_key e := if saved now e \<and> rev (l_nodes l) \<noteq> [] then Some (AList (l_nodes l), expire_at_ms e) else None)"
      using VList fold k assms(4) by (intro load_coll_enc [OF assms(1) _ _ k(2) _ assms(5)]) auto
    ultimately show ?thesis using VList by (simp add: loaded_def split del: if_split cong: if_cong)
  next
    case (VSet t)
    define vs where "vs = concat (s_buckets t)"
    have vs: "s_count t = length vs" "elems t = set vs" "concat (take (s_bucket_count t) (s_buckets t)) = vs"
      using VSet k(3) sum_list_map_concat [of "\<lambda>_. 1" "s_buckets t"]
      by (simp_all add: vs_def elems_def table_sum_def sum_list_triv)
    have "\<exists>w'. load_coll (saved now e) (expire_at_ms e) KV_TYPE_SET (e_key e)
        (le_bytes 4 (of_nat (length vs) :: 32 word) @ concat (map enc_string vs) @ s, c) w =
        Inr (Some (s, adler32 c (le_bytes 4 (of_nat (length vs) :: 32 word) @ concat (map enc_string vs))), w') \<and>
      ready base w' \<and> kept w w' \<and> abs_view (st w') = (abs_view (st w))
        (e_key e := if saved now e \<and> vs \<noteq> [] then Some (ASet (elems t), expire_at_ms e) else None)"
      using VSet vs fold k assms(4) by (intro load_coll_enc [OF assms(1) _ _ k(2) _ assms(5)]) (auto simp: vs_def)
    then show ?thesis using VSet vs by (simp add: loaded_def split del: if_split cong: if_cong)
  qed
qed

lemma load_entry_enc:
  assumes "ready base w" and "aof_fp (aof w) = None" and "wf_entry e" and "value_count (e_value e) < 2 ^ 32"
    and "abs_view (st w) (e_key e) = None"
  shows "\<exists>w'. load_entry now (expire_at_ms e) (enc_rest e @ s, c) w = Inr (Some (s, adler32 c (enc_rest e)), w') \<and>
    ready base w' \<and> kept w w' \<and> abs_view (st w') = (abs_view (st w))(e_key e := loaded now e)"
proof -
  define w1 where "w1 = snd (libc_malloc w)"
  have w1: "ready base w1" "kept w w1" "st w1 = st w" "aof_fp (aof w1) = None"
    using ready_libc_malloc [OF assms(1)] assms(2) by (simp_all add: w1_def kept_prim frame)
  have k: "length (e_key e) \<le> KV_MAX_KEY_LEN" using assms(3) by (simp add: wf_entry_def valid_key_def)
  have rd: "read_string KV_MAX_KEY_LEN (enc_rest e @ s, c) w =
      (Some (e_key e, (type_byte (e_type e) # enc_value (e_value e) @ s, adler32 c (enc_string (e_key e)))), w1)"
    using read_string_enc [OF k _ readyD(3) [OF assms(1)], of "type_byte (e_type e) # enc_value (e_value e) @ s" c]
    by (simp add: enc_rest_def w1_def)
  define c' where "c' = adler32 c (enc_string (e_key e) @ [type_byte (e_type e)])"
  have ty: "read_bytes 1 (type_byte (e_type e) # enc_value (e_value e) @ s, adler32 c (enc_string (e_key e))) =
      Some ([type_byte (e_type e)], (enc_value (e_value e) @ s, c'))"
    by (simp add: read_bytes_def c'_def adler32_append)
  have sum: "adler32 c' (enc_value (e_value e)) = adler32 c (enc_rest e)"
    by (simp add: c'_def adler32_append enc_rest_def)
  have absent: "abs_view (st w1) (e_key e) = None" using assms(5) w1(3) by simp
  from load_value_enc [OF w1(1,4) assms(3,4) absent, of now s c'] show ?thesis
    using rd ty w1(2,3) sum
    by (cases "e_value e") (auto simp: load_entry_def Let_def saved_def intro: kept_trans)
qed

lemma sint_deadline: "int64 t \<Longrightarrow> sint (of_int t :: 64 word) = t"
  by (simp add: int64_def signed_of_int signed_take_bit_int_eq_self)

lemma deadline_not_marker: "int64 t \<Longrightarrow> 0 \<le> t \<Longrightarrow> (of_int t :: 64 word) \<noteq> - 1"
  using sint_deadline [of t] by auto

lemma enc_entry_rest: "enc_entry e = le_bytes 8 (of_int (expire_at_ms e) :: 64 word) @ enc_rest e"
  by (simp add: enc_entry_def enc_rest_def)

lemma load_loop_enc:
  assumes "ready base w" and "aof_fp (aof w) = None" and "distinct (map e_key es)"
    and "\<And>e. e \<in> set es \<Longrightarrow> wf_entry e \<and> savable e \<and> 0 \<le> expire_at_ms e \<and> abs_view (st w) (e_key e) = None"
  shows "\<exists>w'. load_loop now (concat (map enc_entry es) @ le_bytes 8 (- 1 :: 64 word) @ s, c) w =
      Inr (Some (s, adler32 c (concat (map enc_entry es) @ le_bytes 8 (- 1 :: 64 word))), w') \<and> ready base w' \<and> kept w w' \<and>
    abs_view (st w') = (\<lambda>k. case find (\<lambda>e. e_key e = k) es of None \<Rightarrow> abs_view (st w) k | Some e \<Rightarrow> loaded now e)"
  using assms
proof (induction es arbitrary: w c)
  case Nil
  then show ?case by (simp add: load_loop.simps read_uint_append)
next
  case (Cons e es)
  define c1 where "c1 = adler32 c (le_bytes 8 (of_int (expire_at_ms e) :: 64 word))"
  define s1 where "s1 = concat (map enc_entry es) @ le_bytes 8 (- 1 :: 64 word) @ s"
  have e: "wf_entry e" "int64 (expire_at_ms e)" "value_count (e_value e) < 2 ^ 32" "0 \<le> expire_at_ms e"
    "abs_view (st w) (e_key e) = None"
    using Cons.prems(4) by (simp_all add: savable_def)
  from load_entry_enc [OF Cons.prems(1,2) e(1,3,5), of now s1 c1] obtain w1 where w1:
    "load_entry now (expire_at_ms e) (enc_rest e @ s1, c1) w = Inr (Some (s1, adler32 c (enc_entry e)), w1)"
    "ready base w1" "kept w w1" "abs_view (st w1) = (abs_view (st w))(e_key e := loaded now e)"
    by (auto simp: c1_def enc_entry_rest adler32_append)
  have fp: "aof_fp (aof w1) = None" using keptD(5) [OF w1(3)] Cons.prems(2) by simp
  have rest: "distinct (map e_key es)"
    "\<And>e'. e' \<in> set es \<Longrightarrow> wf_entry e' \<and> savable e' \<and> 0 \<le> expire_at_ms e' \<and> abs_view (st w1) (e_key e') = None"
    using Cons.prems(3,4) by (auto simp: w1(4) rev_image_eqI)
  from Cons.IH [OF w1(2) fp rest, of "adler32 c (enc_entry e)"] obtain w' where w':
    "load_loop now (s1, adler32 c (enc_entry e)) w1 =
      Inr (Some (s, adler32 c (concat (map enc_entry (e # es)) @ le_bytes 8 (- 1 :: 64 word))), w')" "ready base w'" "kept w1 w'"
    "abs_view (st w') = (\<lambda>k. case find (\<lambda>e. e_key e = k) es of None \<Rightarrow> abs_view (st w1) k | Some e \<Rightarrow> loaded now e)"
    by (auto simp: s1_def adler32_append)
  have "load_loop now (concat (map enc_entry (e # es)) @ le_bytes 8 (- 1 :: 64 word) @ s, c) w =
      load_loop now (s1, adler32 c (enc_entry e)) w1"
    using w1(1) deadline_not_marker [OF e(2,4)]
    by (subst load_loop.simps) (simp add: enc_entry_rest read_uint_append s1_def [symmetric] c1_def [symmetric] sint_deadline [OF e(2)])
  moreover have "find (\<lambda>e'. e_key e' = e_key e) es = None"
    using Cons.prems(3) by (auto simp: find_None_iff rev_image_eqI)
  ultimately show ?case
    using w' w1(4) kept_trans [OF w1(3) w'(3)] by (auto simp: fun_eq_iff split: option.split)
qed

definition savable_store :: "kv_store \<Rightarrow> bool" where
  "savable_store s \<longleftrightarrow> (\<forall>k e. lookup s k = Some e \<longrightarrow> savable e)"

definition restored :: "int \<Rightarrow> int \<Rightarrow> kv_store \<Rightarrow> string \<Rightarrow> (avalue \<times> int) option" where
  "restored t1 t2 s k = Option.bind (lookup s k) (\<lambda>e. if saved t1 e then loaded t2 e else None)"

lemma find_filter: "distinct (map f xs) \<Longrightarrow> find (\<lambda>x. f x = k) (filter P xs) =
    (case find (\<lambda>x. f x = k) xs of None \<Rightarrow> None | Some x \<Rightarrow> if P x then Some x else None)"
proof (induction xs)
  case (Cons x xs)
  then have "k = f x \<Longrightarrow> find (\<lambda>x. f x = k) xs = None" by (auto simp: find_None_iff rev_image_eqI)
  with Cons show ?case by (auto split: option.splits)
qed simp

lemma load_snapshot_loop:
  assumes "wf_store base' s" and "savable_store s" and "0 \<le> t" and "ready base v" and "aof_fp (aof v) = None"
    and "\<And>k. lookup (st v) k = None"
  shows "\<exists>v'. load_loop (now_of v) (body_bytes t s @ tail, adler32 1 SNAPSHOT_MAGIC) (snd (kv_current_time_ms v)) =
      Inr (Some (tail, adler32 (adler32 1 SNAPSHOT_MAGIC) (body_bytes t s)), v') \<and>
    ready base v' \<and> kept v v' \<and> abs_view (st v') = restored t (now_of v) s"
proof -
  let ?es = "filter (saved t) (concat (buckets s))" and ?v = "snd (kv_current_time_ms v)"
  have v: "ready base ?v" "aof_fp (aof ?v) = None" "abs_view (st ?v) = Map.empty"
    using assms(4-6) by (simp_all add: ready_def abs_view_def fun_eq_iff frame) (simp add: no_oom_def kv_current_time_ms_def)
  have d: "distinct (map e_key (concat (buckets s)))"
    using entries.distinct_concat_placed [OF wf_storeD(5) [OF assms(1)]] .
  have es: "wf_entry e \<and> savable e \<and> 0 \<le> expire_at_ms e \<and> abs_view (st ?v) (e_key e) = None" if "e \<in> set ?es" for e
    using that lookup_member [OF assms(1), of e] lookup_wf [OF assms(1), of "e_key e" e] assms(2,3) v(3)
    by (auto simp: savable_store_def saved_def)
  have body: "body_bytes t s = concat (map enc_entry ?es) @ le_bytes 8 (- 1 :: 64 word)"
    using wf_storeD(1) [OF assms(1)] by (simp add: body_bytes_def)
  have "distinct (map e_key ?es)" using d by (rule distinct_map_filter)
  from load_loop_enc [OF v(1,2) this es, of "now_of v" tail "adler32 1 SNAPSHOT_MAGIC"] obtain v' where v':
    "load_loop (now_of v) (body_bytes t s @ tail, adler32 1 SNAPSHOT_MAGIC) ?v =
      Inr (Some (tail, adler32 (adler32 1 SNAPSHOT_MAGIC) (body_bytes t s)), v')" "ready base v'" "kept ?v v'"
    "abs_view (st v') = (\<lambda>k. case find (\<lambda>e. e_key e = k) ?es of None \<Rightarrow> None | Some e \<Rightarrow> loaded (now_of v) e)"
    by (auto simp: body v(3) cong: option.case_cong)
  have "abs_view (st v') = restored t (now_of v) s"
    unfolding v'(4) find_filter [OF d]
    by (auto simp: fun_eq_iff restored_def lookup_concat [OF assms(1)] split: option.split)
  moreover have "kept v v'" using kept_trans [OF kept_prim(4) [OF kept_refl] v'(3)] .
  ultimately show ?thesis using v'(1,2) by blast
qed

lemma load_snapshot_body:
  assumes "wf_store base' s" and "savable_store s" and "0 \<le> t" and "ready base v" and "aof_fp (aof v) = None"
    and "\<And>k. lookup (st v) k = None" and "length tail = 4"
  shows "\<exists>v'. kv_load_snapshot (Some f) (Some (SNAPSHOT_MAGIC @ body_bytes t s @ tail)) v =
      Inr (if adler32 (adler32 1 SNAPSHOT_MAGIC) (body_bytes t s) = from_le 0 tail 0 then KV_OK else KV_ERR_IO, v') \<and>
    ready base v' \<and> kept v v' \<and> abs_view (st v') = restored t (now_of v) s"
  using load_snapshot_loop [OF assms(1-6), of tail] assms(7)
  by (auto simp: kv_load_snapshot_def split_beta Let_def)

text \<open>More input after what was read changes nothing but the rest.\<close>

fun more :: "string \<Rightarrow> undefined_behaviour + load_state \<Rightarrow> undefined_behaviour + load_state \<Rightarrow> bool" where
  "more q (Inl ub) r \<longleftrightarrow> r = Inl ub"
| "more q (Inr (None, w)) r \<longleftrightarrow> True"
| "more q (Inr (Some f, w)) r \<longleftrightarrow> r = Inr (Some (fst f @ q, snd f), w)"

lemma read_bytes_more: "read_bytes n (p, c) = Some (b, f) \<Longrightarrow> read_bytes n (p @ q, c) = Some (b, (fst f @ q, snd f))"
  by (auto simp: read_bytes_def split: if_splits)

lemma read_uint_more:
  "read_uint64 (p, c) = Some (x, f) \<Longrightarrow> read_uint64 (p @ q, c) = Some (x, (fst f @ q, snd f))"
  "read_uint32 (p, c) = Some (y, f) \<Longrightarrow> read_uint32 (p @ q, c) = Some (y, (fst f @ q, snd f))"
  by (auto simp: read_uint64_def read_uint32_def dest: read_bytes_more)

lemma read_string_more:
  "read_string m (p, c) w = (Some (v, f), w') \<Longrightarrow> read_string m (p @ q, c) w = (Some (v, (fst f @ q, snd f)), w')"
proof -
  assume r: "read_string m (p, c) w = (Some (v, f), w')"
  then obtain len p1 c1 where len: "read_uint32 (p, c) = Some (len, (p1, c1))" by (auto simp: read_string_def split: option.splits)
  with r have "unat len \<le> m" "fst (libc_malloc w)" "w' = snd (libc_malloc w)" "read_bytes (unat len) (p1, c1) = Some (v, f)"
    by (auto simp: read_string_def Let_def split_beta split: if_splits)
  with read_uint_more(2) [OF len, of q] read_bytes_more [OF this(4), of q] show ?thesis
    by (simp add: read_string_def Let_def split_beta)
qed

lemma load_elems_more: "more q (load_elems valid kind k n (p, c) w) (load_elems valid kind k n (p @ q, c) w)"
proof (induction n arbitrary: p c w)
  case 0
  then show ?case by simp
next
  case (Suc n)
  obtain elem w1 where e: "read_string KV_MAX_VALUE_LEN (p, c) w = (elem, w1)" by fastforce
  show ?case
  proof (cases elem)
    case None
    then show ?thesis using e by simp
  next
    case (Some vf)
    then obtain v p1 c1 where v: "elem = Some (v, (p1, c1))" by (cases vf) auto
    note e' = read_string_more [OF e [unfolded v], of q]
    define r where "r = (if valid
        then if kind = KV_TYPE_LIST then ignoring (kv_lpush (Some (c_str k)) (Some (c_str v)) w1)
             else ignoring (kv_sadd (Some (c_str k)) (Some (c_str v)) w1) else Inr w1)"
    show ?thesis using e e' v Suc.IH [of p1 c1] by (cases r) (simp_all add: Let_def r_def [symmetric] del: more.simps(2,3))
  qed
qed

lemma load_string_more: "more q (load_string valid t k (p, c) w) (load_string valid t k (p @ q, c) w)"
proof -
  obtain elem w1 where e: "read_string KV_MAX_VALUE_LEN (p, c) w = (elem, w1)" by fastforce
  then show ?thesis
    using read_string_more [of KV_MAX_VALUE_LEN p c w _ _ w1 q]
    by (cases elem) (auto simp: load_string_def split_beta Let_def)
qed

lemma load_coll_more: "more q (load_coll valid t kind k (p, c) w) (load_coll valid t kind k (p @ q, c) w)"
proof (cases "read_uint32 (p, c)")
  case None
  then show ?thesis by (simp add: load_coll_def)
next
  case (Some nf)
  then obtain n p1 c1 where n: "read_uint32 (p, c) = Some (n, (p1, c1))" by (cases nf) auto
  note n' = read_uint_more(2) [OF n, of q]
  show ?thesis
    using n n' load_elems_more [of q valid kind k "unat n" p1 c1 w]
    by (cases "load_elems valid kind k (unat n) (p1, c1) w" rule: sum.exhaust)
      (auto simp: load_coll_def split: option.splits prod.splits)
qed

lemma load_entry_more: "more q (load_entry now t (p, c) w) (load_entry now t (p @ q, c) w)"
proof -
  obtain key w1 where e: "read_string KV_MAX_KEY_LEN (p, c) w = (key, w1)" by fastforce
  show ?thesis
  proof (cases key)
    case None
    then show ?thesis using e by (simp add: load_entry_def)
  next
    case (Some kf)
    then obtain k p1 c1 where k: "key = Some (k, (p1, c1))" by (cases kf) auto
    note e' = read_string_more [OF e [unfolded k], of q]
    show ?thesis
    proof (cases "read_bytes 1 (p1, c1)")
      case None
      then show ?thesis using e k by (simp add: load_entry_def)
    next
      case (Some tf)
      then obtain ty p2 c2 where ty: "read_bytes 1 (p1, c1) = Some (ty, (p2, c2))" by (cases tf) auto
      show ?thesis
        using e e' k ty read_bytes_more [OF ty, of q] load_string_more load_coll_more
        by (simp add: load_entry_def Let_def)
    qed
  qed
qed

lemma load_loop_more: "more q (load_loop now (p, c) w) (load_loop now (p @ q, c) w)"
proof (induction "length p" arbitrary: p c w rule: less_induct)
  case less
  show ?case
  proof (cases "read_uint64 (p, c)")
    case None
    then show ?thesis by (simp add: load_loop.simps)
  next
    case (Some tf)
    then obtain t p1 c1 where t: "read_uint64 (p, c) = Some (t, (p1, c1))" by (cases tf) auto
    note t' = read_uint_more(1) [OF t, of q]
    note m = load_entry_more [of q now "sint t" p1 c1 w]
    show ?thesis
    proof (cases "t = - 1")
      case True
      then show ?thesis using t t' by (simp add: load_loop.simps)
    next
      case False
      have l: "load_loop now (p, c) w = (case load_entry now (sint t) (p1, c1) w of
            Inl ub \<Rightarrow> Inl ub | Inr (None, w1) \<Rightarrow> Inr (None, w1) | Inr (Some f2, w1) \<Rightarrow> load_loop now f2 w1)"
        "load_loop now (p @ q, c) w = (case load_entry now (sint t) (p1 @ q, c1) w of
            Inl ub \<Rightarrow> Inl ub | Inr (None, w1) \<Rightarrow> Inr (None, w1) | Inr (Some f2, w1) \<Rightarrow> load_loop now f2 w1)"
        using t t' False by (subst load_loop.simps, simp)+
      consider ub where "load_entry now (sint t) (p1, c1) w = Inl ub"
        | w1 where "load_entry now (sint t) (p1, c1) w = Inr (None, w1)"
        | p2 c2 w1 where "load_entry now (sint t) (p1, c1) w = Inr (Some (p2, c2), w1)"
        by (cases "load_entry now (sint t) (p1, c1) w") (auto, metis option.exhaust surj_pair)
      then show ?thesis
      proof cases
        case (3 p2 c2 w1)
        have "length p2 < length p" using load_entry_shorter [OF 3] read_uint_shorter(1) [OF t] by simp
        from less.hyps [OF this, of c2 w1] show ?thesis using m 3 by (simp add: l)
      qed (use m in \<open>simp_all add: l\<close>)
    qed
  qed
qed

section \<open>Properties\<close>

lemma snapshot_file:
  "snapshot_bytes t s = SNAPSHOT_MAGIC @ body_bytes t s @
     le_bytes 4 (adler32 (adler32 1 SNAPSHOT_MAGIC) (body_bytes t s))"
  "length (snapshot_bytes t s) = 12 + length (body_bytes t s)"
  by (simp_all add: snapshot_bytes_enc)

lemma kv_save_bytes:
  assumes "\<And>n. io_fault (os w) n = None"
  shows "\<exists>w'. kv_save (Some f) w = (KV_OK, Some (snapshot_bytes (now_of w) (st w)), w') \<and> st w' = st w"
proof -
  have step: "io_step v = (None, v\<lparr>os := (os v)\<lparr>io_calls := Suc (io_calls (os v))\<rparr>\<rparr>)" if "io_fault (os v) = io_fault (os w)" for v
    using assms that by (simp add: io_step_def)
  show ?thesis
    by (simp add: kv_save_def kv_save_internal_unlocked_def step split_beta Let_def frame kv_current_time_ms_def snapshot_bytes_def)
qed

lemma io_fault_quiet: "io_fault (os (quiet_world t s)) n = None"
  by (simp add: quiet_world_def quiet_os_def)

text \<open>C6. What a snapshot saves, loading it restores. Saving a store and loading the file into an
  empty store without limits and without a log succeeds and gives every key that was live at
  the save and still is at the load its value, in order, and its deadline, and nothing else.
  Only containers without elements are dropped.\<close>

theorem save_then_load:
  assumes "wf_store base' (st w)" and "savable_store (st w)" and "0 \<le> now_of w" and "\<And>n. io_fault (os w) n = None"
    and "ready base v" and "aof_fp (aof v) = None" and "\<And>k. lookup (st v) k = None"
  shows "\<exists>bytes w' v'. kv_save (Some f) w = (KV_OK, Some bytes, w') \<and> st w' = st w \<and>
    kv_load_snapshot (Some f) (Some bytes) v = Inr (KV_OK, v') \<and> ready base v' \<and>
    abs_view (st v') = restored (now_of w) (now_of v) (st w)"
proof -
  let ?sum = "adler32 (adler32 1 SNAPSHOT_MAGIC) (body_bytes (now_of w) (st w))"
  have "length (le_bytes 4 ?sum) = 4" by simp
  from load_snapshot_body [OF assms(1-3,5-7) this, of f] kv_save_bytes [OF assms(4), of f] show ?thesis
    by (auto simp: snapshot_file(1) uint_round_trip)
qed

theorem save_then_load_witness:
  "\<exists>bytes w' v'. kv_save (Some ''f'') (quiet_world 7 (singleton_store 0 (list_entry ''a'' [''2'', ''1'']))) = (KV_OK, Some bytes, w') \<and>
     kv_load_snapshot (Some ''f'') (Some bytes) (quiet_world 8 (fresh_store 8 0 0)) = Inr (KV_OK, v') \<and>
     abs_view (st v') ''a'' = Some (AList [''2'', ''1''], 0)"
proof -
  let ?e = "list_entry ''a'' [''2'', ''1'']"
  have e: "wf_entry ?e" "savable_store (singleton_store 0 ?e)"
    by (simp_all add: savable_store_def savable_def list_entry_def wf_entry_def int64_def)
  have "restored 7 8 (singleton_store 0 ?e) ''a'' = Some (AList [''2'', ''1''], 0)"
    by (simp add: restored_def saved_def loaded_def list_entry_def)
  with save_then_load [of 0 "quiet_world 7 (singleton_store 0 ?e)" 0 "quiet_world 8 (fresh_store 8 0 0)" "''f''"] e
  show ?thesis by (auto simp: ready_def list_entry_def io_fault_quiet)
qed

text \<open>C25. A torn snapshot is never accepted: loading any proper prefix of a snapshot ends with
  \<^verbatim>\<open>KV_ERR_IO\<close>, wherever the cut is.\<close>

theorem truncated_snapshot_rejected:
  assumes "wf_store base' s" and "savable_store s" and "0 \<le> t"
    and "ready base v" and "aof_fp (aof v) = None" and "\<And>k. lookup (st v) k = None"
    and "n < length (snapshot_bytes t s)"
  shows "\<exists>v'. kv_load_snapshot (Some f) (Some (take n (snapshot_bytes t s))) v = Inr (KV_ERR_IO, v')"
proof (cases "n < 8")
  case True
  then show ?thesis by (simp add: kv_load_snapshot_def)
next
  case False
  let ?rest = "body_bytes t s @ le_bytes 4 (adler32 (adler32 1 SNAPSHOT_MAGIC) (body_bytes t s))"
  let ?loop = "\<lambda>p. load_loop (now_of v) (p, adler32 1 SNAPSHOT_MAGIC) (snd (kv_current_time_ms v))"
  define p where "p = take (n - 8) ?rest"
  define q where "q = drop (n - 8) ?rest"
  have "n - 8 < length ?rest" using assms(7) False snapshot_file(2) [of t s] by simp
  then have q: "q \<noteq> []" by (simp only: q_def drop_eq_Nil not_le simp_thms)
  have pre: "take n (snapshot_bytes t s) = SNAPSHOT_MAGIC @ p"
    unfolding snapshot_file(1) p_def take_append [of n SNAPSHOT_MAGIC] using False by (simp add: eval_nat_numeral)
  obtain v' where all: "?loop (p @ q) = Inr (Some (le_bytes 4 (adler32 (adler32 1 SNAPSHOT_MAGIC) (body_bytes t s)),
      adler32 (adler32 1 SNAPSHOT_MAGIC) (body_bytes t s)), v')"
    using load_snapshot_loop [OF assms(1-6), of "le_bytes 4 (adler32 (adler32 1 SNAPSHOT_MAGIC) (body_bytes t s))"]
    unfolding p_def q_def append_take_drop_id by auto
  note m = load_loop_more [of q "now_of v" p "adler32 1 SNAPSHOT_MAGIC" "snd (kv_current_time_ms v)", unfolded all]
  have "(\<exists>w1. ?loop p = Inr (None, w1)) \<or> (\<exists>r c w1. ?loop p = Inr (Some (r, c), w1) \<and> length r < 4)"
  proof (cases "?loop p" rule: sum.exhaust)
    case (Inl ub)
    then show ?thesis using m by simp
  next
    case (Inr x)
    show ?thesis
    proof (cases "fst x")
      case None
      then show ?thesis using Inr by (metis prod.collapse)
    next
      case (Some f)
      then have "fst f @ q = le_bytes 4 (adler32 (adler32 1 SNAPSHOT_MAGIC) (body_bytes t s))"
        using m Inr by (cases x) auto
      from arg_cong [OF this, of length] have "length (fst f) < 4" using q by (cases q) auto
      then show ?thesis using Some Inr by (metis prod.collapse)
    qed
  qed
  then show ?thesis by (auto simp: pre kv_load_snapshot_def split_beta Let_def)
qed

theorem truncated_snapshot_rejected_witness:
  "\<exists>v'. kv_load_snapshot (Some ''f'') (Some (take 15 (snapshot_bytes 7 (singleton_store 0 (string_entry ''a'' ''1'' 0)))))
     (quiet_world 8 (fresh_store 8 0 0)) = Inr (KV_ERR_IO, v')"
proof -
  let ?s = "singleton_store 0 (string_entry ''a'' ''1'' 0)"
  have s: "wf_store 0 ?s" "savable_store ?s" by (simp_all add: savable_store_def savable_def int64_def)
  have "15 < length (snapshot_bytes 7 ?s)" by (simp add: snapshot_file(2) body_bytes_def)
  with truncated_snapshot_rejected [of 0 ?s 7 0 "quiet_world 8 (fresh_store 8 0 0)" 15 "''f''"] s
  show ?thesis by (simp add: ready_def)
qed

text \<open>C26. The checksum is compared only after every entry has been stored. A file whose body is
  intact but whose checksum does not match is reported as \<^verbatim>\<open>KV_ERR_IO\<close>, and the store holds
  everything in it all the same.\<close>

theorem bad_checksum_is_loaded_anyway:
  assumes "wf_store base' s" and "savable_store s" and "0 \<le> t"
    and "ready base v" and "aof_fp (aof v) = None" and "\<And>k. lookup (st v) k = None"
    and "length tail = 4" and "from_le 0 tail 0 \<noteq> adler32 (adler32 1 SNAPSHOT_MAGIC) (body_bytes t s)"
  shows "\<exists>v'. kv_load_snapshot (Some f) (Some (SNAPSHOT_MAGIC @ body_bytes t s @ tail)) v = Inr (KV_ERR_IO, v') \<and>
    abs_view (st v') = restored t (now_of v) s"
  using load_snapshot_body [OF assms(1-7), of f] assms(8) by auto

theorem bad_checksum_is_loaded_anyway_witness:
  "\<exists>tail v'. kv_load_snapshot (Some ''f'') (Some (SNAPSHOT_MAGIC @ body_bytes 7 (singleton_store 0 (string_entry ''a'' ''1'' 0)) @ tail))
     (quiet_world 8 (fresh_store 8 0 0)) = Inr (KV_ERR_IO, v') \<and> abs_view (st v') ''a'' = Some (AString ''1'', 0)"
proof -
  let ?s = "singleton_store 0 (string_entry ''a'' ''1'' 0)"
  define sum where "sum = adler32 (adler32 1 SNAPSHOT_MAGIC) (body_bytes 7 ?s)"
  have s: "wf_store 0 ?s" "savable_store ?s" by (simp_all add: savable_store_def savable_def int64_def)
  have "from_le 0 (le_bytes 4 (sum + 1)) 0 \<noteq> sum" by (simp add: uint_round_trip)
  then obtain v' where v': "kv_load_snapshot (Some ''f'') (Some (SNAPSHOT_MAGIC @ body_bytes 7 ?s @ le_bytes 4 (sum + 1)))
      (quiet_world 8 (fresh_store 8 0 0)) = Inr (KV_ERR_IO, v')" "abs_view (st v') = restored 7 8 ?s"
    using bad_checksum_is_loaded_anyway [of 0 ?s 7 0 "quiet_world 8 (fresh_store 8 0 0)" "le_bytes 4 (sum + 1)" "''f''"] s
    by (auto simp: ready_def sum_def [symmetric])
  have "restored 7 8 ?s ''a'' = Some (AString ''1'', 0)" by (simp add: restored_def saved_def loaded_def string_entry_def)
  with v' show ?thesis by metis
qed

end
