(* ===== verification/KV_Replication.thy ===== *)
theory KV_Replication
  imports KV_Snapshot
begin

text \<open>
  Replication (\<^verbatim>\<open>src/replication.c\<close>). The master answers \<^verbatim>\<open>SYNC\<close> with a snapshot and registers the
  connection for the broadcast of log records. The replica reads a byte stream: the header,
  the snapshot, which replaces its store, and then log records, of which it applies two
  kinds. How the stream is cut into pieces by \<^verbatim>\<open>recv\<close> is a parameter.
\<close>

abbreviation crlf :: string where "crlf \<equiv> [cr, nl]"

section \<open>The master\<close>

definition replication_init :: "cstr \<Rightarrow> nat \<Rightarrow> world \<Rightarrow> world" where
  "replication_init host port w =
     (let zero = (repl w)\<lparr>mode := REPLICA_MODE_NONE, master_host := None, master_port := 0, is_running := False,
                    replicas := []\<rparr>
      in case host of
           Some h \<Rightarrow>
             if port > 0
             then (let (ok, w1) = libc_malloc w
                   in w1\<lparr>repl := zero\<lparr>mode := REPLICA_MODE_REPLICA,
                        master_host := (if ok then Some h else None), master_port := port\<rparr>\<rparr>)
             else w\<lparr>repl := zero\<lparr>mode := REPLICA_MODE_MASTER\<rparr>\<rparr>
         | None \<Rightarrow> w\<lparr>repl := zero\<lparr>mode := REPLICA_MODE_MASTER\<rparr>\<rparr>)"

definition replication_add_replica :: "int \<Rightarrow> world \<Rightarrow> world" where
  "replication_add_replica fd w =
     (if mode (repl w) \<noteq> REPLICA_MODE_MASTER then w
      else
        (let (ok, w1) = libc_malloc w
         in if \<not> ok then w1
            else (let w2 = mutex_lock Replicas_Lock w1
                  in mutex_unlock Replicas_Lock (w2\<lparr>repl := (repl w2)\<lparr>replicas := fd # replicas (repl w2)\<rparr>\<rparr>))))"

text \<open>A \<^verbatim>\<open>send\<close> whose result is not looked at: a short write or an error loses the rest.\<close>

definition send_quietly :: "int \<Rightarrow> string \<Rightarrow> world \<Rightarrow> world" where
  "send_quietly fd d w =
     (let (r, w1) = io_step w;
          d1 = (case r of None \<Rightarrow> d | Some n \<Rightarrow> take n d)
      in if d1 = [] then w1 else w1\<lparr>repl := (repl w1)\<lparr>sent := (fd, d1) # sent (repl w1)\<rparr>\<rparr>)"

text \<open>\<^verbatim>\<open>fread\<close> into 4096 bytes until nothing is left.\<close>

function blocks :: "nat \<Rightarrow> string \<Rightarrow> string list" where
  "blocks n s = (if n = 0 \<or> s = [] then [] else take n s # blocks n (drop n s))"
  by pat_completeness auto
termination
  by (relation "measure (length \<circ> snd)") auto

declare blocks.simps [simp del]

definition send_snapshot :: "int \<Rightarrow> string \<Rightarrow> world \<Rightarrow> world" where
  "send_snapshot fd file_bytes w =
     fold (send_quietly fd) (blocks 4096 file_bytes)
       (send_quietly fd (''+SNAPSHOT '' @ show_nat (length file_bytes) @ crlf) w)"

text \<open>\<open>pid\<close> is the result of \<^verbatim>\<open>fork\<close> in the parent, \<open>exited\<close> whether the child ended by itself. The
  child works on its own copy of the state.\<close>

definition replication_handle_sync :: "int \<Rightarrow> bool \<Rightarrow> int \<Rightarrow> world \<Rightarrow> int \<times> world" where
  "replication_handle_sync pid exited fd w =
     (if mode (repl w) \<noteq> REPLICA_MODE_MASTER
      then (- 1, send_quietly fd (''-ERR Server is not a master'' @ crlf) w)
      else
        (let (res, w1) = kv_bgsave (Some ''master_sync.snap'') pid w
         in if res \<noteq> KV_OK then (- 1, send_quietly fd (''-ERR Failed to start BGSAVE'' @ crlf) w1)
            else
              (let (status, out) = bgsave_child (kv_acquire_all_locks w);
                   w2 = upd_st (\<lambda>s. s\<lparr>bgsave_pid := 0\<rparr>) w1
               in if \<not> exited \<or> status \<noteq> 0 then (- 1, send_quietly fd (''-ERR BGSAVE failed'' @ crlf) w2)
                  else
                    (let (open_snap, w3) = io_step w2
                     in case out of
                          None \<Rightarrow> (- 1, send_quietly fd (''-ERR Could not open snapshot'' @ crlf) w3)
                        | Some bytes \<Rightarrow>
                            if open_snap \<noteq> None
                            then (- 1, send_quietly fd (''-ERR Could not open snapshot'' @ crlf) w3)
                            else (0, replication_add_replica fd (send_snapshot fd bytes w3))))))"

section \<open>The replica\<close>

text \<open>A blocking \<^verbatim>\<open>recv\<close>: at least one byte unless the stream has ended or no room was offered;
  how many is up to the network (\<open>ch\<close>, by what is left of the stream).\<close>

definition recv_some :: "(nat \<Rightarrow> nat) \<Rightarrow> nat \<Rightarrow> string \<Rightarrow> string \<times> string" where
  "recv_some ch room s = (let r = min room (max 1 (ch (length s))) in (take r s, drop r s))"

text \<open>The header, byte by byte: up to 63 bytes or a line feed.\<close>

fun recv_header :: "nat \<Rightarrow> string \<Rightarrow> string \<times> string" where
  "recv_header 0 s = ([], s)"
| "recv_header (Suc n) [] = ([], [])"
| "recv_header (Suc n) (c # cs) =
     (if c = nl then ([c], cs) else case recv_header n cs of (h, rest) \<Rightarrow> (c # h, rest))"

text \<open>The array is terminated only when a line feed arrived. Without one, comparing past the
  received bytes, or a number that runs into them, reads indeterminate memory.\<close>

definition number_ends :: "string \<Rightarrow> bool" where
  "number_ends s =
     (let s1 = dropWhile isspace s;
          s2 = (case s1 of [] \<Rightarrow> [] | c # cs \<Rightarrow> if c = CHR ''-'' \<or> c = CHR ''+'' then cs else s1)
      in dropWhile isdigit s2 \<noteq> [])"

definition parse_header :: "string \<Rightarrow> undefined_behaviour + int option" where
  "parse_header h =
     (let text = c_str h; magic = ''+SNAPSHOT ''
      in if take (length magic) text \<noteq> take (length text) magic then Inr None
         else if nl \<in> set h \<or> text \<noteq> h
         then Inr (if has_prefix magic text then Some (fst (strtoll (drop (length magic) text))) else None)
         else if length text < length magic then Inl Uninitialised_Read
         else if number_ends (drop (length magic) text) then Inr (Some (fst (strtoll (drop (length magic) text))))
         else Inl Uninitialised_Read)"

function recv_file :: "(nat \<Rightarrow> nat) \<Rightarrow> nat \<Rightarrow> string \<Rightarrow> string \<times> string" where
  "recv_file ch left s =
     (if left = 0 then ([], s)
      else
        (let (r, s1) = recv_some ch (min left 4096) s
         in if r = [] then ([], s1)
            else (let (rest, s2) = recv_file ch (left - length r) s1 in (r @ rest, s2))))"
  by pat_completeness auto
termination
  by (relation "measure (\<lambda>(ch, n, s). n)") auto

declare recv_file.simps [simp del]

definition replica_reload :: "string \<Rightarrow> world \<Rightarrow> undefined_behaviour + world" where
  "replica_reload bytes w =
     (case kv_init_full 1024 KV_DEFAULT_MAX_CAPACITY KV_DEFAULT_MEMORY_BUDGET None None (kv_destroy w) of
        Inl ub \<Rightarrow> Inl ub
      | Inr (_, w1) \<Rightarrow> ignoring (kv_load_snapshot (Some ''replica_sync.snap'') (Some bytes) w1))"

text \<open>One record: only two of the seven kinds are known.\<close>

definition apply_record :: "string \<Rightarrow> world \<Rightarrow> world" where
  "apply_record line w =
     (if has_prefix (''SET'' @ [tab]) line
      then (case split_at tab (drop 4 line) of
              None \<Rightarrow> w
            | Some (k, v) \<Rightarrow> snd (kv_set_internal (Some k) (Some v) w))
      else if has_prefix (''DELETE'' @ [tab]) line then snd (kv_delete_internal (Some (drop 7 line)) w)
      else w)"

text \<open>The buffer is searched as a C string, so a zero byte hides what follows it.\<close>

function apply_lines :: "string \<Rightarrow> world \<Rightarrow> string \<times> world" where
  "apply_lines buf w =
     (case split_at nl (c_str buf) of
        None \<Rightarrow> (buf, w)
      | Some (line, _) \<Rightarrow> apply_lines (drop (length line + 1) buf) (apply_record line w))"
  by pat_completeness auto
termination
  by (relation "measure (length \<circ> fst)") (auto simp: split_at_def c_str_def split: if_splits, case_tac buf, auto)

declare apply_lines.simps [simp del]

text \<open>The buffer has 4096 bytes, of which one is kept for the terminator.\<close>

function replica_stream :: "(nat \<Rightarrow> nat) \<Rightarrow> string \<Rightarrow> string \<Rightarrow> world \<Rightarrow> string \<times> world" where
  "replica_stream ch buf s w =
     (if \<not> is_running (repl w) then (buf, w)
      else
        (let (r, s1) = recv_some ch (4095 - length buf) s
         in if r = [] then (buf, w)
            else (let (buf1, w1) = apply_lines (buf @ r) w in replica_stream ch buf1 s1 w1)))"
  by pat_completeness auto
termination
  by (relation "measure (\<lambda>(ch, buf, s, w). length s)")
    (auto simp: recv_some_def Let_def min_def max_def split: if_splits)

declare replica_stream.simps [simp del]

text \<open>One connection of \<^verbatim>\<open>replica_thread_main\<close>, from the master's answer on: the stream is what the
  master sends until the connection ends.\<close>

definition replica_session :: "(nat \<Rightarrow> nat) \<Rightarrow> string \<Rightarrow> world \<Rightarrow> undefined_behaviour + world" where
  "replica_session ch s w =
     (let (h, s1) = recv_header 63 s
      in case parse_header h of
           Inl ub \<Rightarrow> Inl ub
         | Inr None \<Rightarrow> Inr w
         | Inr (Some n) \<Rightarrow>
             (let (open_tmp, w1) = io_step w
              in if open_tmp \<noteq> None then Inr (snd (replica_stream ch [] s1 w1))
                 else
                   (let (bytes, s2) = recv_file ch (nat n) s1
                    in case replica_reload bytes w1 of
                         Inl ub \<Rightarrow> Inl ub
                       | Inr w2 \<Rightarrow> Inr (snd (replica_stream ch [] s2 w2)))))"

text \<open>The thread of a replica. Every round of its loop opens a socket, parses the master's address
  (\<open>pton\<close> stands for \<^verbatim>\<open>inet_pton\<close>; the host is a null pointer when its copy could not be
  allocated), connects, asks for the snapshot and runs a session. The list holds what the
  kernel and the master answer in each round until the thread is stopped; the result lists the
  sockets closed on the way.\<close>

record attempt =
  attempt_socket :: int
  connects :: bool
  sync_sent :: bool
  master_stream :: string

definition replica_round :: "(string \<Rightarrow> bool) \<Rightarrow> (nat \<Rightarrow> nat) \<Rightarrow> attempt \<Rightarrow> world \<Rightarrow> undefined_behaviour + world" where
  "replica_round pton ch a w =
     (case master_host (repl w) of
        None \<Rightarrow> Inl Null_Dereference
      | Some h \<Rightarrow>
          if \<not> pton h then Inr w
          else if \<not> connects a then Inr w
          else if \<not> sync_sent a then Inr w
          else replica_session ch (master_stream a) w)"

fun replica_thread_main ::
    "(string \<Rightarrow> bool) \<Rightarrow> (nat \<Rightarrow> nat) \<Rightarrow> attempt list \<Rightarrow> world \<Rightarrow> undefined_behaviour + int list \<times> world" where
  "replica_thread_main pton ch [] w = Inr ([], w)"
| "replica_thread_main pton ch (a # rounds) w =
     (if \<not> is_running (repl w) then Inr ([], w)
      else if attempt_socket a < 0 then replica_thread_main pton ch rounds w
      else
        (case replica_round pton ch a w of
           Inl ub \<Rightarrow> Inl ub
         | Inr w1 \<Rightarrow>
             (case replica_thread_main pton ch rounds w1 of
                Inl ub \<Rightarrow> Inl ub
              | Inr (shut, w2) \<Rightarrow> Inr (attempt_socket a # shut, w2))))"

definition replication_start :: "world \<Rightarrow> world" where
  "replication_start w =
     (if mode (repl w) = REPLICA_MODE_REPLICA then w\<lparr>repl := (repl w)\<lparr>is_running := True\<rparr>\<rparr> else w)"

definition replication_stop :: "world \<Rightarrow> world" where
  "replication_stop w =
     (if \<not> is_running (repl w) then w
      else
        (let w1 = w\<lparr>repl := (repl w)\<lparr>is_running := False\<rparr>\<rparr>;
             w2 = (if mode (repl w1) = REPLICA_MODE_MASTER
                   then (let v = mutex_lock Replicas_Lock w1
                         in mutex_unlock Replicas_Lock (v\<lparr>repl := (repl v)\<lparr>replicas := [],
                              closed_fds := rev (replicas (repl v)) @ closed_fds (repl v)\<rparr>\<rparr>))
                   else w1)
         in w2\<lparr>repl := (repl w2)\<lparr>master_host := None\<rparr>\<rparr>))"

section \<open>Cutting the stream does not matter\<close>

lemma recv_file_take: "recv_file ch n s = (take n s, drop n s)"
proof (induction n arbitrary: s rule: less_induct)
  case (less n)
  show ?case
  proof (cases "n = 0 \<or> s = []")
    case True
    then show ?thesis by (subst recv_file.simps) (auto simp: recv_some_def)
  next
    case False
    define r where "r = min (min n 4096) (max 1 (ch (length s)))"
    have r: "0 < r" "r \<le> n" using False by (auto simp: r_def)
    then have ne: "take r s \<noteq> []" using False by simp
    have rs: "recv_some ch (min n 4096) s = (take r s, drop r s)" by (simp add: recv_some_def r_def Let_def)
    have "recv_file ch n s = (take r s @ take (n - length (take r s)) (drop r s), drop (n - length (take r s)) (drop r s))"
      using less.IH [of "n - length (take r s)" "drop r s"] False ne r
      by (subst recv_file.simps) (simp add: rs)
    also have "\<dots> = (take n s, drop n s)"
    proof (cases "r \<le> length s")
      case True
      then have "take n s = take r s @ take (n - r) (drop r s)" using r(2) take_add [of r "n - r" s] by simp
      then show ?thesis using True r by (simp add: min_def)
    next
      case False
      then show ?thesis using r by simp
    qed
    finally show ?thesis .
  qed
qed

lemma recv_header_line: "nl \<notin> set h \<Longrightarrow> length h < n \<Longrightarrow> recv_header n (h @ nl # rest) = (h @ [nl], rest)"
proof (induction h arbitrary: n)
  case Nil
  then show ?case by (cases n) auto
next
  case (Cons c h)
  then show ?case by (cases n) auto
qed

lemma c_str_id: "cstring s \<Longrightarrow> c_str s = s"
  by (rule cstring_c_str)

lemma apply_lines_line:
  assumes "nl \<notin> set l" and "cstring l"
  shows "apply_lines (l @ nl # rest) w = apply_lines rest (apply_record l w)"
proof -
  have "c_str (l @ nl # rest) = l @ nl # c_str rest"
    using assms(2) by (induction l) (auto simp: c_str_def cstring_def)
  then have "split_at nl (c_str (l @ nl # rest)) = Some (l, c_str rest)"
    using split_at_field [OF assms(1)] by simp
  then show ?thesis by (subst apply_lines.simps) simp
qed

lemma apply_lines_rest: "nl \<notin> set buf \<Longrightarrow> apply_lines buf w = (buf, w)"
proof -
  assume "nl \<notin> set buf"
  then have "nl \<notin> set (c_str buf)" using set_takeWhileD by (fastforce simp: c_str_def)
  then have "split_at nl (c_str buf) = None" by (simp add: split_at_None)
  then show ?thesis by (subst apply_lines.simps) simp
qed

text \<open>What is left in the buffer is a piece of a line.\<close>

lemma apply_lines_append:
  assumes "cstring a"
  shows "apply_lines (a @ b) w = (case apply_lines a w of (a', w1) \<Rightarrow> apply_lines (a' @ b) w1) \<and>
    (\<exists>p. a = p @ fst (apply_lines a w)) \<and> nl \<notin> set (fst (apply_lines a w)) \<and> cstring (fst (apply_lines a w))"
  using assms
proof (induction "length a" arbitrary: a w rule: less_induct)
  case less
  show ?case
  proof (cases "nl \<in> set a")
    case False
    then show ?thesis using less.prems by (simp add: apply_lines_rest)
  next
    case True
    then obtain l rest where a: "a = l @ nl # rest" "nl \<notin> set l" by (meson split_list_first)
    have l: "cstring l" "cstring rest" using less.prems a(1) by (auto simp: cstring_def)
    note step = apply_lines_line [OF a(2) l(1)]
    have "length rest < length a" using a(1) by simp
    note IH = less.hyps [OF this l(2), of "apply_record l w"]
    then obtain p where "rest = p @ fst (apply_lines rest (apply_record l w))" by blast
    then have "a = (l @ nl # p) @ fst (apply_lines a w)" using step [of rest w] a(1) by simp
    moreover have "apply_lines (a @ b) w = apply_lines (rest @ b) (apply_record l w)" using step [of "rest @ b" w] a(1) by simp
    ultimately show ?thesis using IH step [of rest w] a(1) by (intro conjI exI [of _ "l @ nl # p"]) simp_all
  qed
qed

text \<open>Every piece without a line feed fits the buffer.\<close>

definition short_lines :: "string \<Rightarrow> bool" where
  "short_lines s \<longleftrightarrow> (\<forall>a b c. s = a @ b @ c \<and> nl \<notin> set b \<longrightarrow> length b < 4095)"

lemma kept_apply_record: "kept w (apply_record l w)"
  by (auto simp: apply_record_def kept_kv_set_internal kept_kv_delete_internal split: option.split)

lemma kept_apply_lines: "kept w (snd (apply_lines buf w))"
proof (induction buf w rule: apply_lines.induct)
  case (1 buf w)
  show ?case
  proof (cases "split_at nl (c_str buf)")
    case None
    then show ?thesis by (subst apply_lines.simps) simp
  next
    case (Some lr)
    then obtain l r where lr: "split_at nl (c_str buf) = Some (l, r)" by (cases lr) auto
    from kept_trans [OF kept_apply_record 1 [OF lr refl]] lr show ?thesis by (subst apply_lines.simps) simp
  qed
qed

lemma replica_stream_lines:
  assumes "is_running (repl w)" and "cstring (buf @ s)" and "short_lines (buf @ s)" and "nl \<notin> set buf"
  shows "replica_stream ch buf s w = apply_lines (buf @ s) w"
  using assms
proof (induction "length s" arbitrary: buf s w rule: less_induct)
  case less
  have room: "length buf < 4095" using less.prems(3,4) unfolding short_lines_def by (metis append_Nil)
  show ?case
  proof (cases "s = []")
    case True
    then show ?thesis using less.prems(1,4) by (subst replica_stream.simps) (simp add: recv_some_def apply_lines_rest)
  next
    case False
    define r where "r = min (4095 - length buf) (max 1 (ch (length s)))"
    have r: "0 < r" using room by (simp add: r_def)
    obtain buf1 w1 where a: "apply_lines (buf @ take r s) w = (buf1, w1)" by fastforce
    have "cstring (buf @ take r s)" using less.prems(2) by (auto simp: cstring_def dest: in_set_takeD)
    note app = apply_lines_append [OF this, of "drop r s" w, unfolded a, simplified]
    then obtain p where p: "buf @ take r s = p @ buf1" by blast
    then have whole: "buf @ s = p @ buf1 @ drop r s" by (metis append.assoc append_take_drop_id)
    have "is_running (repl w1)" using keptD(9) [OF kept_apply_lines [of w "buf @ take r s"]] a less.prems(1) by simp
    moreover have "cstring (buf1 @ drop r s)" using less.prems(2) whole by (auto simp: cstring_def)
    moreover have "short_lines (buf1 @ drop r s)"
      using less.prems(3) unfolding short_lines_def whole by (metis append.assoc)
    moreover have "nl \<notin> set buf1" using app by simp
    ultimately have "replica_stream ch buf1 (drop r s) w1 = apply_lines (buf1 @ drop r s) w1"
      using less.hyps [of "drop r s" w1 buf1] r False by simp
    moreover have "recv_some ch (4095 - length buf) s = (take r s, drop r s)" by (simp add: recv_some_def r_def Let_def)
    ultimately show ?thesis
      using app a r False less.prems(1) by (subst replica_stream.simps) simp
  qed
qed

section \<open>What the records do\<close>

fun replicated :: "log_op \<Rightarrow> bool" where
  "replicated (L_Set k v) = True"
| "replicated (L_Delete k) = True"
| "replicated x = False"

lemma apply_record_op:
  assumes "op_ok x"
  shows "apply_record (op_line x) w =
    (case x of L_Set k v \<Rightarrow> snd (kv_set_internal (Some k) (Some v) w)
     | L_Delete k \<Rightarrow> snd (kv_delete_internal (Some k) w) | _ \<Rightarrow> w)"
  using assms by (cases x) (simp_all add: apply_record_def has_prefix_def split_at_key)

lemma apply_record_effect:
  assumes "ready base w" and "op_ok x"
  shows "ready base (apply_record (op_line x) w) \<and>
    abs_view (st (apply_record (op_line x) w)) = (if replicated x then abs_op x else id) (abs_view (st w))"
  unfolding apply_record_op [OF assms(2)]
  using assms(1) op_ok_valid [OF assms(2)] effect_set [OF assms(1)] effect_delete [OF assms(1)]
  by (cases x) (simp_all add: effect_def)

lemma apply_records:
  assumes "ready base w" and "\<And>x. x \<in> set xs \<Longrightarrow> op_ok x"
  shows "\<exists>w'. apply_lines (concat (map op_record xs)) w = ([], w') \<and> ready base w' \<and>
    abs_view (st w') = fold abs_op (filter replicated xs) (abs_view (st w))"
  using assms
proof (induction xs arbitrary: w)
  case Nil
  then show ?case by (simp add: apply_lines_rest)
next
  case (Cons x xs)
  have x: "op_ok x" "nl \<notin> set (op_line x)" "cstring (op_line x)"
    using Cons.prems(2) [of x] op_line_chars [of x] by (simp_all add: cstring_def)
  note e = apply_record_effect [OF Cons.prems(1) x(1)]
  from Cons.IH [of "apply_record (op_line x) w"] e Cons.prems(2) show ?case
    by (auto simp: op_record_def apply_lines_line [OF x(2,3)])
qed

lemma short_lines_concat:
  assumes "\<And>l. l \<in> set ls \<Longrightarrow> length l < 4095"
  shows "short_lines (concat (map (\<lambda>l. l @ [nl]) ls))"
  unfolding short_lines_def
proof (intro allI impI)
  fix a b c
  assume "concat (map (\<lambda>l. l @ [nl]) ls) = a @ b @ c \<and> nl \<notin> set b"
  with assms show "length b < 4095"
  proof (induction ls arbitrary: a)
    case Nil
    then show ?case by simp
  next
    case (Cons l ls)
    let ?rest = "concat (map (\<lambda>l. l @ [nl]) ls)"
    have eq: "l @ nl # ?rest = a @ b @ c" and b: "nl \<notin> set b" using Cons.prems by auto
    show ?case
    proof (cases "length l < length a")
      case True
      have "(l @ [nl]) @ ?rest = a @ b @ c" using eq by simp
      then obtain us where "(l @ [nl]) @ us = a" "?rest = us @ b @ c"
        using True by (auto simp: append_eq_append_conv2 Cons_eq_append_conv)
      then show ?thesis using Cons.IH [of us] Cons.prems by auto
    next
      case False
      have "length a + length b \<le> length l"
      proof (rule ccontr)
        assume "\<not> ?thesis"
        then have "(a @ b @ c) ! length l = b ! (length l - length a)" "length l - length a < length b"
          using False by (auto simp: nth_append)
        moreover have "(a @ b @ c) ! length l = nl" using eq by (metis nth_append_length)
        ultimately show False using b nth_mem by metis
      qed
      then show ?thesis using Cons.prems(1) [of l] by simp
    qed
  qed
qed

lemma records_stream:
  assumes "\<And>x. x \<in> set xs \<Longrightarrow> op_ok x \<and> record_fits (op_record x)"
  shows "cstring (concat (map op_record xs))" "short_lines (concat (map op_record xs))"
proof -
  have "CHR 0x00 \<notin> set (op_record x)" if "x \<in> set xs" for x
    using op_line_chars [of x] assms [OF that] by (auto simp: op_record_def)
  then show "cstring (concat (map op_record xs))" by (auto simp: cstring_def)
  have "length l < 4095" if "l \<in> set (map op_line xs)" for l
    using that assms by (auto simp: op_record_def)
  from short_lines_concat [of "map op_line xs", OF this] show "short_lines (concat (map op_record xs))"
    by (simp add: op_record_def [abs_def] comp_def)
qed

section \<open>A whole session\<close>

lemma parse_snapshot_header:
  assumes "int n < 2 ^ 63"
  shows "recv_header 63 (''+SNAPSHOT '' @ show_nat n @ crlf @ s) = (''+SNAPSHOT '' @ show_nat n @ crlf, s)"
    "parse_header (''+SNAPSHOT '' @ show_nat n @ crlf) = Inr (Some (int n))"
proof -
  have n: "int64 (int n)" "show_nat n = show_int (int n)" using assms by (simp_all add: int64_def show_int_def)
  have c: "nl \<notin> set (show_nat n)" "CHR 0x00 \<notin> set (show_nat n)"
    using show_int_chars(2,5) [of _ "int n"] unfolding n(2) by blast+
  show "recv_header 63 (''+SNAPSHOT '' @ show_nat n @ crlf @ s) = (''+SNAPSHOT '' @ show_nat n @ crlf, s)"
    using recv_header_line [of "''+SNAPSHOT '' @ show_nat n @ [cr]" 63 s] c(1) show_int_length [OF n(1)] by (simp add: n(2))
  have "c_str (''+SNAPSHOT '' @ show_nat n @ crlf) = ''+SNAPSHOT '' @ show_nat n @ crlf"
    by (rule cstring_c_str) (simp add: cstring_def c(2))
  moreover have "strtoll (show_nat n @ crlf) = (int n, crlf)"
    using strtoll_show_int [OF n(1), of crlf] by (simp add: n(2) isdigit_def)
  ultimately show "parse_header (''+SNAPSHOT '' @ show_nat n @ crlf) = Inr (Some (int n))"
    by (simp add: parse_header_def Let_def has_prefix_def)
qed

lemma kv_destroy_env:
  "clock (os (kv_destroy w)) = clock (os w)" "no_oom (kv_destroy w) = no_oom w" "repl (kv_destroy w) = repl w"
proof -
  have f: "clock (os (flush_log v)) = clock (os v)" "no_oom (flush_log v) = no_oom v" "repl (flush_log v) = repl v" for v
    by (auto simp: flush_log_def fflush_def io_step_def Let_def no_oom_def split: option.split)
  show "clock (os (kv_destroy w)) = clock (os w)" "no_oom (kv_destroy w) = no_oom w" "repl (kv_destroy w) = repl w"
    using f by (simp_all add: kv_destroy_def Let_def frame no_oom_def)
qed

lemma kv_init_repl: "kv_init_full n cap budget None contents w = Inr (r, w') \<Longrightarrow> repl w' = repl w"
  by (auto simp: kv_init_full_def Let_def split_beta frame split: if_splits)

lemma replica_reload_restores:
  assumes "wf_store base s" and "savable_store s" and "0 \<le> t" and "no_oom w"
  shows "\<exists>w' j. replica_reload (snapshot_bytes t s) w = Inr w' \<and> ready 0 w' \<and> is_running (repl w') = is_running (repl w) \<and>
    abs_view (st w') = restored t (clock (os w) j) s"
proof -
  have "0 < (1024 :: nat)" "(0 :: nat) = 0 \<or> sz_mul 1024 sizeof_ptr \<le> 0" by simp_all
  then obtain w1 where w1: "kv_init_full 1024 0 0 None None (kv_destroy w) = Inr (KV_OK, w1)"
    "st w1 = (init_fields 1024 0 0 (st (kv_destroy w)))\<lparr>bucket_locks := True, lock_initialized := True\<rparr>"
    "aof w1 = init_aof_fields (aof (kv_destroy w))" "no_oom w1" "clock (os w1) = clock (os w)"
  proof (cases rule: init_success_cases [where cap = 0 and path = None and contents = None and w = "kv_destroy w"])
    case no_memory
    then show ?thesis using assms(4) by (simp add: kv_destroy_env)
  next
    case (made w4)
    then show ?thesis using that assms(4) by (simp add: kv_destroy_env)
  qed
  have n: "(0 :: nat) < 1024" "1024 * sizeof_ptr < 2 ^ 64" by simp_all
  note fresh = init_fields_wf [OF n, of 0 0 "st (kv_destroy w)", folded w1(2)]
  have ready: "ready 0 w1" "aof_fp (aof w1) = None"
    using fresh w1(2-4) by (simp_all add: ready_def init_fields_def init_aof_fields_def)
  let ?sum = "adler32 (adler32 1 SNAPSHOT_MAGIC) (body_bytes t s)"
  have "length (le_bytes 4 ?sum) = 4" by simp
  from load_snapshot_body [OF assms(1-3) ready fresh(2) this, of "''replica_sync.snap''"] obtain w2 where w2:
    "kv_load_snapshot (Some ''replica_sync.snap'') (Some (snapshot_bytes t s)) w1 = Inr (KV_OK, w2)" "ready 0 w2"
    "kept w1 w2" "abs_view (st w2) = restored t (now_of w1) s"
    by (auto simp: snapshot_file(1) uint_round_trip)
  have "now_of w1 = clock (os w) (clock_reads (os w1))" using w1(5) by (simp add: kv_current_time_ms_def)
  with w1(1) w2 kv_init_repl [OF w1(1)] keptD(9) [OF w2(3)] show ?thesis
    by (auto simp: replica_reload_def ignoring_def kv_destroy_env)
qed

section \<open>Properties\<close>

text \<open>C18. How the network cuts the stream of records into pieces makes no difference: as long as every
  line fits the buffer, the replica applies the lines of the stream one by one, in order, and
  keeps exactly the unfinished last line.\<close>

theorem replica_stream_ignores_segmentation:
  assumes "is_running (repl w)" and "cstring s" and "short_lines s"
  shows "replica_stream ch [] s w = apply_lines s w"
  using replica_stream_lines [of w "[]" s ch] assms by simp

theorem replica_stream_ignores_segmentation_witness:
  "replica_stream (\<lambda>_. 1) [] (concat (map op_record [L_Set ''a'' ''1'', L_Delete ''a'']))
     (quiet_world 7 (fresh_store 8 0 0)\<lparr>repl := no_replication\<lparr>is_running := True\<rparr>\<rparr>) =
   apply_lines (concat (map op_record [L_Set ''a'' ''1'', L_Delete ''a'']))
     (quiet_world 7 (fresh_store 8 0 0)\<lparr>repl := no_replication\<lparr>is_running := True\<rparr>\<rparr>)"
proof -
  have "op_ok x \<and> record_fits (op_record x)" if "x \<in> set [L_Set ''a'' ''1'', L_Delete ''a'']" for x
    using that by (auto simp: loggable_def op_record_def)
  note s = records_stream [of "[L_Set ''a'' ''1'', L_Delete ''a'']", OF this]
  show ?thesis by (rule replica_stream_ignores_segmentation [OF _ s]) simp
qed

text \<open>A round is fruitless when no connection comes about or the master does not answer with a
  snapshot. It leaves the replica as it was.\<close>

definition fruitless :: "(string \<Rightarrow> bool) \<Rightarrow> string \<Rightarrow> attempt \<Rightarrow> bool" where
  "fruitless pton h a \<longleftrightarrow>
     attempt_socket a < 0 \<or> \<not> pton h \<or> \<not> connects a \<or> \<not> sync_sent a \<or>
     parse_header (fst (recv_header 63 (master_stream a))) = Inr None"

lemma fruitless_round:
  assumes "fruitless pton h a" and "master_host (repl w) = Some h" and "\<not> attempt_socket a < 0"
  shows "replica_round pton ch a w = Inr w"
  using assms by (auto simp: fruitless_def replica_round_def replica_session_def split_beta)

lemma fruitless_rounds:
  assumes "\<And>a. a \<in> set tries \<Longrightarrow> fruitless pton h a" and "master_host (repl w) = Some h" and "is_running (repl w)"
  shows "replica_thread_main pton ch (tries @ rest) w =
    map_sum id (map_prod ((@) (filter (\<lambda>fd. 0 \<le> fd) (map attempt_socket tries))) id) (replica_thread_main pton ch rest w)"
  using assms
proof (induction tries)
  case Nil
  then show ?case by (cases "replica_thread_main pton ch rest w") auto
next
  case (Cons a tries)
  show ?case
    using Cons fruitless_round [OF Cons.prems(1), of a w ch]
    by (cases "replica_thread_main pton ch rest w") (auto simp: not_less)
qed

text \<open>What a session leaves behind.\<close>

lemma replica_session_applies:
  assumes "wf_store base s" and "savable_store s" and "0 \<le> t" and "int (length (snapshot_bytes t s)) < 2 ^ 63"
    and "no_oom w" and "\<And>n. io_fault (os w) n = None" and "is_running (repl w)"
    and "\<And>x. x \<in> set xs \<Longrightarrow> op_ok x \<and> record_fits (op_record x)"
  shows "\<exists>w' j. replica_session ch (''+SNAPSHOT '' @ show_nat (length (snapshot_bytes t s)) @ crlf @ snapshot_bytes t s @
      concat (map op_record xs)) w = Inr w' \<and> ready 0 w' \<and>
    abs_view (st w') = fold abs_op (filter replicated xs) (restored t (clock (os w) j) s)"
proof -
  let ?n = "length (snapshot_bytes t s)" and ?recs = "concat (map op_record xs)"
  define w1 where "w1 = snd (io_step w)"
  have w1: "io_step w = (None, w1)" "no_oom w1" "is_running (repl w1)" "clock (os w1) = clock (os w)"
    using assms(5-7) by (auto simp: w1_def io_step_def no_oom_def)
  obtain w2 j where w2: "replica_reload (snapshot_bytes t s) w1 = Inr w2" "ready 0 w2" "is_running (repl w2)"
    "abs_view (st w2) = restored t (clock (os w) j) s"
    using replica_reload_restores [OF assms(1-3) w1(2)] w1(3,4) by auto
  obtain w3 where w3: "apply_lines ?recs w2 = ([], w3)" "ready 0 w3"
    "abs_view (st w3) = fold abs_op (filter replicated xs) (abs_view (st w2))"
    using apply_records [OF w2(2), of xs] assms(8) by auto
  have "replica_stream ch [] ?recs w2 = ([], w3)"
    using replica_stream_lines [of w2 "[]" ?recs ch] records_stream [OF assms(8)] w2(3) w3(1) by simp
  moreover have "recv_file ch (nat (int ?n)) (snapshot_bytes t s @ ?recs) = (snapshot_bytes t s, ?recs)"
    by (simp add: recv_file_take)
  ultimately have "replica_session ch (''+SNAPSHOT '' @ show_nat ?n @ crlf @ snapshot_bytes t s @ ?recs) w = Inr w3"
    unfolding replica_session_def parse_snapshot_header(1) [OF assms(4)]
    using w1(1) w2(1) by (simp add: parse_snapshot_header(2) [OF assms(4), simplified])
  with w3(2,3) w2(4) show ?thesis by auto
qed

text \<open>C17. A replica keeps trying: after any number of rounds in which no connection came about or the
  master refused, the first successful session leaves it with the snapshot of the master's
  store and then the effect of the records that followed it, but only of the \<^verbatim>\<open>SET\<close> and \<^verbatim>\<open>DELETE\<close>
  records: list, set and deadline operations of the master never reach it. Every socket that
  was opened is closed.\<close>

theorem replica_converges:
  assumes "\<And>a. a \<in> set tries \<Longrightarrow> fruitless pton h a"
    and "master_host (repl w) = Some h" and "pton h" and "0 \<le> fd" and "is_running (repl w)"
    and "wf_store base s" and "savable_store s" and "0 \<le> t" and "int (length (snapshot_bytes t s)) < 2 ^ 63"
    and "no_oom w" and "\<And>n. io_fault (os w) n = None"
    and "\<And>x. x \<in> set xs \<Longrightarrow> op_ok x \<and> record_fits (op_record x)"
    and "answer = ''+SNAPSHOT '' @ show_nat (length (snapshot_bytes t s)) @ crlf @ snapshot_bytes t s @
      concat (map op_record xs)"
  shows "\<exists>w' j. replica_thread_main pton ch
      (tries @ [\<lparr>attempt_socket = fd, connects = True, sync_sent = True, master_stream = answer\<rparr>]) w =
      Inr (filter (\<lambda>fd. 0 \<le> fd) (map attempt_socket tries) @ [fd], w') \<and>
    ready 0 w' \<and> abs_view (st w') = fold abs_op (filter replicated xs) (restored t (clock (os w) j) s)"
proof -
  obtain w' j where w': "replica_session ch answer w = Inr w'" "ready 0 w'"
    "abs_view (st w') = fold abs_op (filter replicated xs) (restored t (clock (os w) j) s)"
    using replica_session_applies [OF assms(6-11,5,12), where ch = ch] unfolding assms(13) by blast
  have "replica_thread_main pton ch
      (tries @ [\<lparr>attempt_socket = fd, connects = True, sync_sent = True, master_stream = answer\<rparr>]) w =
      Inr (filter (\<lambda>fd. 0 \<le> fd) (map attempt_socket tries) @ [fd], w')"
    using fruitless_rounds [of tries pton h w ch, OF assms(1,2,5)] assms(2-5) w'(1) by (simp add: replica_round_def)
  with w'(2,3) show ?thesis by blast
qed

theorem replica_converges_witness:
  "\<exists>w'. replica_thread_main (\<lambda>h. h = ''10.0.0.1'') (\<lambda>_. 1)
      ([\<lparr>attempt_socket = - 1, connects = False, sync_sent = False, master_stream = []\<rparr>,
        \<lparr>attempt_socket = 5, connects = False, sync_sent = False, master_stream = []\<rparr>,
        \<lparr>attempt_socket = 5, connects = True, sync_sent = True, master_stream = ''-ERR'' @ crlf\<rparr>] @
       [\<lparr>attempt_socket = 6, connects = True, sync_sent = True,
          master_stream = ''+SNAPSHOT '' @ show_nat (length (snapshot_bytes 7 (fresh_store 8 0 0))) @ crlf @
            snapshot_bytes 7 (fresh_store 8 0 0) @ concat (map op_record [L_Set ''a'' ''1'', L_Lpush ''b'' ''2''])\<rparr>])
      (quiet_world 7 (fresh_store 8 0 0)\<lparr>repl := no_replication\<lparr>is_running := True, master_host := Some ''10.0.0.1''\<rparr>\<rparr>) =
      Inr ([5, 5, 6], w') \<and>
     abs_view (st w') ''a'' = Some (AString ''1'', 0) \<and> abs_view (st w') ''b'' = None"
proof -
  let ?xs = "[L_Set ''a'' ''1'', L_Lpush ''b'' ''2'']" and ?s = "fresh_store 8 0 0"
  let ?w = "quiet_world 7 ?s\<lparr>repl := no_replication\<lparr>is_running := True, master_host := Some ''10.0.0.1''\<rparr>\<rparr>"
  let ?tries = "[\<lparr>attempt_socket = - 1, connects = False, sync_sent = False, master_stream = []\<rparr>,
        \<lparr>attempt_socket = 5, connects = False, sync_sent = False, master_stream = []\<rparr>,
        \<lparr>attempt_socket = 5, connects = True, sync_sent = True, master_stream = ''-ERR'' @ crlf\<rparr>]"
  let ?p = "\<lambda>h. h = ''10.0.0.1''"
  have ok: "op_ok x \<and> record_fits (op_record x)" if "x \<in> set ?xs" for x
    using that by (auto simp: loggable_def op_record_def valid_key_def isspace_def cstring_def)
  have b: "body_bytes 7 ?s = le_bytes 8 (- 1 :: 64 word)" by (simp add: body_bytes_def fresh_store_def)
  have len: "int (length (snapshot_bytes 7 ?s)) < 2 ^ 63" by (simp add: snapshot_file(2) b)
  have sv: "savable_store ?s" by (simp add: savable_store_def)
  have none: "restored 7 t ?s = Map.empty" for t by (simp add: restored_def fun_eq_iff)
  have refused: "parse_header (fst (recv_header 63 (''-ERR'' @ crlf))) = Inr None"
    by (simp add: parse_header_def eval_nat_numeral c_str_def)
  have tries: "fruitless ?p ''10.0.0.1'' a" if "a \<in> set ?tries" for a
    using that refused by (auto simp: fruitless_def)
  show ?thesis
    using replica_converges [where base = 0 and ch = "\<lambda>_. 1" and w = ?w and fd = 6 and tries = ?tries and xs = ?xs,
        OF tries _ _ _ _ _ sv _ len _ _ ok refl]
    by (auto simp: none quiet_world_def quiet_os_def no_oom_def)
qed

text \<open>Without a log the broadcast, which is a part of writing the log, does not happen.\<close>

lemma repl_append_buffer: "repl (append_aof_rewrite_buffer d w) = repl w"
  by (auto simp: append_aof_rewrite_buffer_def Let_def split_beta libc_malloc_def frame split: option.split)

lemma repl_append: "repl (append_record2 c k v w) = repl w"
  by (simp add: append_record2_def repl_append_buffer)

lemma repl_make_room: "repl (snd (make_room need w)) = repl w"
  by (simp add: make_room_def Let_def frame lru.loop_others)

lemma repl_insert_string: "repl (snd (insert_string k v w)) = repl w"
  by (simp add: insert_string_def Let_def split_beta frame repl_append repl_make_room split: option.split)

lemma repl_replace_string: "repl (snd (replace_string k v old w)) = repl w"
  by (simp add: replace_string_def overwrite_string_def Let_def split_beta frame repl_append repl_make_room
      repl_insert_string split: option.split)

lemma kv_set_internal_repl: "repl (snd (kv_set_internal key value w)) = repl w"
  by (simp add: kv_set_internal_def Let_def repl_insert_string repl_replace_string
      split: sum.split option.split kv_value.split)

text \<open>A master without a log never tells its replicas about a \<^verbatim>\<open>SET\<close>.\<close>

lemma set_without_log_is_not_replicated:
  assumes "aof_fp (aof w) = None" and "wf_store base (st w)"
  shows "sent (repl (snd (kv_set key value w))) = sent (repl w)"
proof -
  have "repl (snd (kv_set key value w)) = repl w"
  proof (cases "validate_key key")
    case (Inl err)
    then show ?thesis by (simp add: kv_set_def)
  next
    case k: (Inr n)
    show ?thesis
    proof (cases "validate_value value")
      case (Inl err)
      then show ?thesis using k by (simp add: kv_set_def)
    next
      case (Inr m)
      let ?bytes = "sizeof_kv_entry + n + 1 + m + 1"
      obtain g w1 where acq: "set_acquire ?bytes (the key) w = (g, w1)" by fastforce
      note a = set_acquire_spec [OF assms(2) acq]
      have "aof_fp (aof (snd (kv_set_internal key value w1))) = None"
        using keptD(5) [OF kept_kv_set_internal [OF kept_refl]] assms(1) a(6) by simp
      then show ?thesis
        using k Inr acq a assms(1) by (auto simp: kv_set_def Let_def split_beta logged_def kv_set_internal_repl frame)
    qed
  qed
  then show ?thesis by simp
qed

end
