(* ===== verification/KV_Protocol.thy ===== *)
theory KV_Protocol
  imports KV_Replication
begin

text \<open>
  The text protocol (\<^verbatim>\<open>src/protocol.c\<close>): one line in, one reply out. The reply is what the handler
  leaves in the response buffer and the length it reports; the two differ only when a member
  list outgrows the buffer. \<open>pid\<close> is what \<^verbatim>\<open>fork\<close> returns to the server and \<open>exited\<close> whether the
  child it waits for ended by itself.
\<close>

section \<open>Replies\<close>

record reply =
  r_bytes :: string
  r_len :: nat
  r_close :: bool
  r_detach :: bool

definition no_reply :: reply where
  "no_reply = \<lparr>r_bytes = [], r_len = 0, r_close = False, r_detach = False\<rparr>"

definition answer :: "string \<Rightarrow> reply" where
  "answer msg = no_reply\<lparr>r_bytes := msg @ crlf, r_len := length msg + 2\<rparr>"

abbreviation invalid_arguments :: reply where "invalid_arguments \<equiv> answer ''ERR invalid_arguments''"
abbreviation err_internal :: reply where "err_internal \<equiv> answer ''ERR internal''"

text \<open>\<^verbatim>\<open>snprintf\<close> into the whole buffer: what does not fit is not reported.\<close>

definition formatted :: "nat \<Rightarrow> string \<Rightarrow> reply \<Rightarrow> reply" where
  "formatted buf_size text otherwise = (if length text + 2 < buf_size then answer text else otherwise)"

definition number :: "nat \<Rightarrow> int \<Rightarrow> reply" where
  "number buf_size n = formatted buf_size (CHR '':'' # show_int n) no_reply"

section \<open>Arguments\<close>

text \<open>Exactly one argument.\<close>

definition one_arg :: "cstr \<Rightarrow> (string \<Rightarrow> reply result) \<Rightarrow> world \<Rightarrow> reply result" where
  "one_arg args act w =
     (case args of
        None \<Rightarrow> Inr (invalid_arguments, w)
      | Some a \<Rightarrow> if a = [] \<or> CHR '' '' \<in> set a then Inr (invalid_arguments, w) else act a)"

text \<open>No argument.\<close>

definition no_arg :: "cstr \<Rightarrow> reply result \<Rightarrow> world \<Rightarrow> reply result" where
  "no_arg args act w = (if args \<noteq> None \<and> args \<noteq> Some [] then Inr (invalid_arguments, w) else act)"

text \<open>A key and a value that is the rest of the line, neither of them empty.\<close>

definition key_value :: "cstr \<Rightarrow> (string \<Rightarrow> string \<Rightarrow> reply result) \<Rightarrow> world \<Rightarrow> reply result" where
  "key_value args act w =
     (case Option.bind args (split_at (CHR '' '')) of
        None \<Rightarrow> Inr (invalid_arguments, w)
      | Some (k, v) \<Rightarrow> if k = [] \<or> v = [] then Inr (invalid_arguments, w) else act k v)"

text \<open>A key and a positive number.\<close>

definition key_number :: "cstr \<Rightarrow> (string \<Rightarrow> int \<Rightarrow> reply result) \<Rightarrow> world \<Rightarrow> reply result" where
  "key_number args act w =
     (case Option.bind args (split_at (CHR '' '')) of
        None \<Rightarrow> Inr (invalid_arguments, w)
      | Some (k, ns) \<Rightarrow>
          if k = [] \<or> ns = [] \<or> CHR '' '' \<in> set ns then Inr (invalid_arguments, w)
          else
            (let (n, rest) = strtoll ns
             in if rest = ns \<or> rest \<noteq> [] \<or> n \<le> 0 then Inr (invalid_arguments, w) else act k n))"

section \<open>Handlers\<close>

definition do_ping :: "cstr \<Rightarrow> world \<Rightarrow> reply result" where
  "do_ping args w = no_arg args (Inr (answer ''PONG'', w)) w"

definition do_quit :: "cstr \<Rightarrow> world \<Rightarrow> reply result" where
  "do_quit args w = no_arg args (Inr ((answer ''BYE'')\<lparr>r_close := True\<rparr>, w)) w"

definition do_save :: "cstr \<Rightarrow> world \<Rightarrow> reply result" where
  "do_save args w =
     no_arg args
       (let (res, w1) = kv_sync w in Inr (answer (if res = KV_OK then ''OK'' else ''ERR io_failure''), w1)) w"

definition do_get :: "nat \<Rightarrow> cstr \<Rightarrow> world \<Rightarrow> reply result" where
  "do_get buf_size args w =
     one_arg args (\<lambda>k.
       let (val, w1) = kv_get (Some k) w
       in Inr (case val of
                 None \<Rightarrow> answer ''NOT_FOUND''
               | Some v \<Rightarrow> formatted buf_size (''VALUE '' @ v) err_internal, w1)) w"

definition do_exists :: "cstr \<Rightarrow> world \<Rightarrow> reply result" where
  "do_exists args w =
     one_arg args (\<lambda>k.
       let (found, w1) = kv_exists (Some k) w
       in Inr (answer (if found then ''EXISTS'' else ''NOT_FOUND''), w1)) w"

definition do_delete :: "cstr \<Rightarrow> world \<Rightarrow> reply result" where
  "do_delete args w =
     one_arg args (\<lambda>k.
       let (res, w1) = kv_delete (Some k) w
       in Inr (if res = KV_OK then answer ''DELETED''
               else if res = KV_ERR_NOT_FOUND then answer ''NOT_FOUND''
               else if res = KV_ERR_INVALID_PARAM \<or> res = KV_ERR_EMPTY_KEY \<or> res = KV_ERR_KEY_WHITESPACE
               then invalid_arguments
               else err_internal, w1)) w"

definition do_lpush :: "nat \<Rightarrow> cstr \<Rightarrow> world \<Rightarrow> reply result" where
  "do_lpush buf_size args w =
     key_value args (\<lambda>k v.
       case kv_lpush (Some k) (Some v) w of
         Inl ub \<Rightarrow> Inl ub
       | Inr (res, w1) \<Rightarrow>
           Inr (if res < 0 then if res = KV_ERR_WRONG_TYPE then answer ''WRONGTYPE'' else err_internal
                else number buf_size res, w1)) w"

definition do_rpop :: "nat \<Rightarrow> cstr \<Rightarrow> world \<Rightarrow> reply result" where
  "do_rpop buf_size args w =
     one_arg args (\<lambda>k.
       let (res, popped, w1) = kv_rpop (Some k) w
       in Inr (if res = KV_ERR_WRONG_TYPE then answer ''WRONGTYPE''
               else if res < 0 then err_internal
               else case popped of
                      None \<Rightarrow> answer ''$-1''
                    | Some v \<Rightarrow> formatted buf_size (''VALUE '' @ v) no_reply, w1)) w"

definition do_llen :: "nat \<Rightarrow> cstr \<Rightarrow> world \<Rightarrow> reply result" where
  "do_llen buf_size args w =
     one_arg args (\<lambda>k.
       let (res, w1) = kv_llen (Some k) w
       in Inr (if res = KV_ERR_WRONG_TYPE then answer ''WRONGTYPE'' else number buf_size res, w1)) w"

definition do_sadd :: "nat \<Rightarrow> cstr \<Rightarrow> world \<Rightarrow> reply result" where
  "do_sadd buf_size args w =
     key_value args (\<lambda>k v.
       case kv_sadd (Some k) (Some v) w of
         Inl ub \<Rightarrow> Inl ub
       | Inr (res, w1) \<Rightarrow>
           Inr (if res = KV_ERR_WRONG_TYPE then answer ''WRONGTYPE''
                else if res < 0 then err_internal else number buf_size res, w1)) w"

definition do_srem :: "nat \<Rightarrow> cstr \<Rightarrow> world \<Rightarrow> reply result" where
  "do_srem buf_size args w =
     key_value args (\<lambda>k v.
       let (res, w1) = kv_srem (Some k) (Some v) w
       in Inr (if res = KV_ERR_WRONG_TYPE then answer ''WRONGTYPE''
               else if res < 0 then err_internal else number buf_size res, w1)) w"

definition do_scard :: "nat \<Rightarrow> cstr \<Rightarrow> world \<Rightarrow> reply result" where
  "do_scard buf_size args w =
     one_arg args (\<lambda>k.
       let (res, w1) = kv_scard (Some k) w
       in Inr (if res = KV_ERR_WRONG_TYPE then answer ''WRONGTYPE'' else number buf_size res, w1)) w"

text \<open>The member list is printed piece by piece at the offset reached so far. \<^verbatim>\<open>snprintf\<close> returns the
  length the text would have had, so the offset can pass the end of the buffer; printing
  there, with a remaining size that has wrapped around, writes outside of it.\<close>

definition member_text :: "string \<Rightarrow> string" where
  "member_text m = CHR ''$'' # show_nat (length m) @ crlf @ m @ crlf"

definition print_at :: "nat \<Rightarrow> string \<Rightarrow> nat \<times> string \<Rightarrow> undefined_behaviour + nat \<times> string" where
  "print_at buf_size text p =
     (if fst p > buf_size then Inl Buffer_Overflow
      else Inr (fst p + length text, snd p @ take (buf_size - fst p - 1) text))"

fun print_members :: "nat \<Rightarrow> string list \<Rightarrow> nat \<times> string \<Rightarrow> undefined_behaviour + nat \<times> string" where
  "print_members buf_size [] p = Inr p"
| "print_members buf_size (m # ms) p =
     (case print_at buf_size (member_text m) p of Inl ub \<Rightarrow> Inl ub | Inr p1 \<Rightarrow> print_members buf_size ms p1)"

definition member_list :: "nat \<Rightarrow> string list \<Rightarrow> undefined_behaviour + reply" where
  "member_list buf_size ms =
     (case print_at buf_size (CHR ''*'' # show_nat (length ms) @ crlf) (0, []) of
        Inl ub \<Rightarrow> Inl ub
      | Inr p \<Rightarrow>
          (case print_members buf_size ms p of
             Inl ub \<Rightarrow> Inl ub
           | Inr p1 \<Rightarrow> Inr (no_reply\<lparr>r_bytes := snd p1, r_len := fst p1\<rparr>)))"

definition do_smembers :: "nat \<Rightarrow> cstr \<Rightarrow> world \<Rightarrow> reply result" where
  "do_smembers buf_size args w =
     one_arg args (\<lambda>k.
       let (members, count, w1) = kv_smembers (Some k) w
       in case members of
            None \<Rightarrow> Inr (answer ''*0'', w1)
          | Some ms \<Rightarrow> map_sum id (\<lambda>r. (r, w1)) (member_list buf_size (take count ms))) w"

definition set_reply :: "int \<Rightarrow> reply" where
  "set_reply res =
     (if res = KV_OK then answer ''OK''
      else if res = KV_ERR_CAPACITY_FULL then answer ''ERR capacity_full''
      else if res = KV_ERR_BUDGET_EXCEEDED then answer ''ERR budget_exceeded''
      else if res = KV_ERR_KEY_TOO_LONG then answer ''ERR key_too_long''
      else if res = KV_ERR_VAL_TOO_LONG then answer ''ERR value_too_long''
      else if res = KV_ERR_KEY_WHITESPACE \<or> res = KV_ERR_EMPTY_KEY then invalid_arguments
      else err_internal)"

definition do_set :: "cstr \<Rightarrow> world \<Rightarrow> reply result" where
  "do_set args w =
     (case Option.bind args (split_at (CHR '' '')) of
        None \<Rightarrow> Inr (invalid_arguments, w)
      | Some (k, v) \<Rightarrow>
          if k = [] then Inr (invalid_arguments, w)
          else if length k > KV_MAX_KEY_LEN then Inr (answer ''ERR key_too_long'', w)
          else if length v > KV_MAX_VALUE_LEN then Inr (answer ''ERR value_too_long'', w)
          else (let (res, w1) = kv_set (Some k) (Some v) w in Inr (set_reply res, w1)))"

definition do_expire :: "nat \<Rightarrow> cstr \<Rightarrow> world \<Rightarrow> reply result" where
  "do_expire buf_size args w =
     key_number args (\<lambda>k seconds. map_sum id (map_prod (number buf_size) id) (kv_expire (Some k) seconds w)) w"

definition do_pexpire :: "nat \<Rightarrow> cstr \<Rightarrow> world \<Rightarrow> reply result" where
  "do_pexpire buf_size args w =
     key_number args (\<lambda>k ms. map_sum id (map_prod (number buf_size) id) (kv_pexpire (Some k) ms w)) w"

definition do_ttl :: "nat \<Rightarrow> cstr \<Rightarrow> world \<Rightarrow> reply result" where
  "do_ttl buf_size args w =
     one_arg args (\<lambda>k. map_sum id (map_prod (number buf_size) id) (kv_ttl (Some k) w)) w"

definition do_pttl :: "nat \<Rightarrow> cstr \<Rightarrow> world \<Rightarrow> reply result" where
  "do_pttl buf_size args w =
     one_arg args (\<lambda>k. map_sum id (map_prod (number buf_size) id) (kv_pttl (Some k) w)) w"

definition do_persist :: "nat \<Rightarrow> cstr \<Rightarrow> world \<Rightarrow> reply result" where
  "do_persist buf_size args w =
     one_arg args (\<lambda>k. let (res, w1) = kv_persist (Some k) w in Inr (number buf_size res, w1)) w"

definition do_bgsave :: "int \<Rightarrow> world \<Rightarrow> reply result" where
  "do_bgsave pid w =
     (let (res, w1) = kv_bgsave (Some ''snapshot.snap'') pid w
      in Inr (if res = KV_OK then answer ''+Background saving started''
              else if res = KV_ERR_AGAIN then answer ''-ERR Background save already in progress''
              else answer ''-ERR Background save failed to start'', w1))"

definition do_bgrewriteaof :: "int \<Rightarrow> world \<Rightarrow> reply result" where
  "do_bgrewriteaof pid w =
     (let (res, w1) = kv_bgrewriteaof pid w
      in Inr (if res = KV_OK then answer ''+Background append only file rewriting started''
              else if res = KV_ERR_AGAIN
              then if aof_rewrite_pid (aof w1) \<noteq> 0
                   then answer ''-ERR Background append only file rewriting already in progress''
                   else answer ''-ERR Background save in progress''
              else answer ''-ERR Background rewrite failed to start'', w1))"

definition do_sync :: "int \<Rightarrow> bool \<Rightarrow> int \<Rightarrow> world \<Rightarrow> reply result" where
  "do_sync pid exited fd w =
     (let (res, w1) = replication_handle_sync pid exited fd w
      in Inr (if res = 0 then no_reply\<lparr>r_detach := True\<rparr> else no_reply\<lparr>r_close := True\<rparr>, w1))"

section \<open>Dispatch\<close>

definition is_write :: "string \<Rightarrow> bool" where
  "is_write cmd \<longleftrightarrow>
     cmd = ''SET'' \<or> cmd = ''DELETE'' \<or> cmd = ''LPUSH'' \<or> cmd = ''SADD'' \<or> cmd = ''SREM'' \<or> cmd = ''EXPIRE'' \<or>
     cmd = ''PEXPIRE'' \<or> cmd = ''PERSIST''"

definition run_command :: "nat \<Rightarrow> int \<Rightarrow> string \<Rightarrow> cstr \<Rightarrow> world \<Rightarrow> reply result" where
  "run_command buf_size pid cmd args w =
     (if cmd = ''PING'' then do_ping args w
      else if cmd = ''QUIT'' then do_quit args w
      else if cmd = ''SAVE'' then do_save args w
      else if cmd = ''GET'' then do_get buf_size args w
      else if cmd = ''EXISTS'' then do_exists args w
      else if cmd = ''DELETE'' then do_delete args w
      else if cmd = ''LPUSH'' then do_lpush buf_size args w
      else if cmd = ''RPOP'' then do_rpop buf_size args w
      else if cmd = ''LLEN'' then do_llen buf_size args w
      else if cmd = ''SADD'' then do_sadd buf_size args w
      else if cmd = ''SREM'' then do_srem buf_size args w
      else if cmd = ''SCARD'' then do_scard buf_size args w
      else if cmd = ''SMEMBERS'' then do_smembers buf_size args w
      else if cmd = ''SET'' then do_set args w
      else if cmd = ''EXPIRE'' then do_expire buf_size args w
      else if cmd = ''PEXPIRE'' then do_pexpire buf_size args w
      else if cmd = ''TTL'' then do_ttl buf_size args w
      else if cmd = ''PTTL'' then do_pttl buf_size args w
      else if cmd = ''PERSIST'' then do_persist buf_size args w
      else if cmd = ''BGSAVE'' then do_bgsave pid w
      else if cmd = ''BGREWRITEAOF'' then do_bgrewriteaof pid w
      else Inr (answer ''ERR unknown_command'', w))"

definition protocol_execute_command :: "nat \<Rightarrow> int \<Rightarrow> bool \<Rightarrow> int \<Rightarrow> string \<Rightarrow> world \<Rightarrow> reply result" where
  "protocol_execute_command buf_size pid exited fd line w =
     (if line = [] then Inr (answer ''ERR empty_command'', w)
      else
        (let (cmd, args) = (case split_at (CHR '' '') (c_str line) of
                              None \<Rightarrow> (c_str line, None) | Some (c, a) \<Rightarrow> (c, Some a))
         in if cmd = [] then Inr (answer ''ERR empty_command'', w)
            else if cmd = ''SYNC'' then do_sync pid exited fd w
            else if is_write cmd \<and> mode (repl w) = REPLICA_MODE_REPLICA
            then Inr (answer ''-ERR Server is running in read-only replica mode'', w)
            else run_command buf_size pid cmd args w))"

section \<open>Every line leaves a sound store\<close>

text \<open>What the server keeps between commands: a well-formed table with exact counters, initialised
  locks, and no more memory in use than the budget allows.\<close>

definition serving :: "nat \<Rightarrow> world \<Rightarrow> bool" where
  "serving base w \<longleftrightarrow> wf_store base (st w) \<and> lock_initialized (st w) \<and> within_budget (st w)"

definition keeps :: "(world \<Rightarrow> bool) \<Rightarrow> undefined_behaviour set \<Rightarrow> 'a result \<Rightarrow> bool" where
  "keeps Q ubs r \<longleftrightarrow> (case r of Inl ub \<Rightarrow> ub \<in> ubs | Inr (x, w') \<Rightarrow> Q w')"

text \<open>The ways in which a command can leave the defined behaviour of C: pushing onto a list or a
  set that eviction has just freed, arithmetic on deadlines, and the member list.\<close>

definition freed_ub :: "world \<Rightarrow> undefined_behaviour set" where
  "freed_ub w = (if max_memory_budget (st w) > 0 then {Use_After_Free} else {})"

definition possible_ub :: "world \<Rightarrow> string \<Rightarrow> undefined_behaviour set" where
  "possible_ub w cmd =
     (if cmd = ''LPUSH'' \<or> cmd = ''SADD'' then freed_ub w
      else if cmd = ''SMEMBERS'' then {Buffer_Overflow}
      else if cmd = ''EXPIRE'' \<or> cmd = ''PEXPIRE'' \<or> cmd = ''TTL'' \<or> cmd = ''PTTL'' then {Signed_Overflow}
      else {})"

named_theorems kept_by \<open>commands after which the store is sound\<close>

lemma keeps_Inr [simp]: "keeps Q ubs (Inr (x, w')) \<longleftrightarrow> Q w'"
  by (simp add: keeps_def)

lemma serving_settings:
  assumes "serving base w" and "wf_store base (st w')" and "same_settings (st w) (st w')"
    and "within_budget (st w) \<Longrightarrow> within_budget (st w')"
  shows "serving base w'"
  using assms by (simp add: serving_def same_settings_def)

lemma serving_outcome: "serving base w \<Longrightarrow> wf_store base (st w') \<Longrightarrow> lookup_outcome k w w' \<Longrightarrow> serving base w'"
  by (rule serving_settings) (auto simp: lookup_outcome_def within_budget_def same_settings_def)

lemma serving_redated: "serving base w \<Longrightarrow> wf_store base (st w') \<Longrightarrow> redated k t (st w) (st w') \<Longrightarrow> serving base w'"
  by (rule serving_settings) (auto simp: redated_def within_budget_def same_settings_def)

lemma servingD:
  assumes "serving base w"
  shows "wf_store base (st w)" "lock_initialized (st w)" "within_budget (st w)"
  using assms by (simp_all add: serving_def)

lemma serving_st: "st w' = st w \<Longrightarrow> serving base w \<Longrightarrow> serving base w'"
  by (simp add: serving_def)

lemma serving_get [kept_by]: "serving base w \<Longrightarrow> serving base (snd (kv_get (Some k) w))"
  using kv_get_spec [of base w k] serving_settings [of base w "snd (kv_get (Some k) w)"]
  by (cases "kv_get (Some k) w") (auto simp: serving_def)

lemma serving_exists [kept_by]: "serving base w \<Longrightarrow> serving base (snd (kv_exists (Some k) w))"
  using kv_exists_spec [of base w k] serving_settings [of base w "snd (kv_exists (Some k) w)"]
  by (cases "kv_exists (Some k) w") (auto simp: serving_def)

lemma serving_set [kept_by]: "serving base w \<Longrightarrow> cstring k \<Longrightarrow> cstring v \<Longrightarrow> serving base (snd (kv_set (Some k) (Some v) w))"
  using kv_set_spec [of base w k v] serving_settings [of base w "snd (kv_set (Some k) (Some v) w)"]
  by (cases "kv_set (Some k) (Some v) w") (auto simp: serving_def)

lemma serving_delete [kept_by]:
  assumes "serving base w" and "cstring k"
  shows "serving base (snd (kv_delete (Some k) w))"
proof (cases "valid_key k")
  case True
  obtain r w' where run: "kv_delete (Some k) w = (r, w')" by fastforce
  from kv_delete_spec [OF servingD(1,2) [OF assms(1)] assms(2) True run]
  have "wf_store base (st w')" "shrunk (st w) (st w')" by simp_all
  then show ?thesis using serving_settings [OF assms(1)] shrunk_settings shrunk_within_budget run by simp
next
  case False
  then have "isl (validate_key (Some k))" using validate_key_Inr [OF assms(2)] by (cases "validate_key (Some k)") auto
  then show ?thesis using assms(1) by (auto simp: kv_delete_def split: sum.splits)
qed

lemma keeps_lpush [kept_by]:
  assumes "serving base w" and "cstring k" and "cstring v"
  shows "keeps (serving base) (freed_ub w) (kv_lpush (Some k) (Some v) w)"
  using servingD(1) [OF assms(1)] assms(2,3)
proof (cases rule: kv_lpush_cases)
  case (refused r w')
  then show ?thesis using serving_settings [OF assms(1) refused(3,4)] by simp
next
  case freed
  then show ?thesis by (simp add: keeps_def freed_ub_def)
next
  case (pushed w' e l)
  then show ?thesis using serving_settings [OF assms(1) pushed(8)] by (simp add: stored_def)
qed

lemma keeps_sadd [kept_by]:
  assumes "serving base w" and "cstring k" and "cstring v"
  shows "keeps (serving base) (freed_ub w) (kv_sadd (Some k) (Some v) w)"
  using servingD(1) [OF assms(1)] assms(2,3)
proof (cases rule: kv_sadd_cases)
  case (refused r w')
  then show ?thesis using serving_settings [OF assms(1) refused(3,4)] by simp
next
  case freed
  then show ?thesis by (simp add: keeps_def freed_ub_def)
next
  case (member w' e t)
  then show ?thesis using serving_settings [OF assms(1) member(6)] by (simp add: stored_def)
next
  case (added w' e t)
  then show ?thesis using serving_settings [OF assms(1) added(8)] by (simp add: stored_def)
qed

lemma serving_smaller:
  "serving base w \<Longrightarrow> wf_store base (st w') \<Longrightarrow> same_settings (st w) (st w') \<Longrightarrow>
   allocated_bytes (st w') \<le> allocated_bytes (st w) \<Longrightarrow> serving base w'"
  by (rule serving_settings) (auto simp: within_budget_def same_settings_def)

lemma serving_rpop [kept_by]:
  assumes "serving base w"
  shows "serving base (snd (snd (kv_rpop (Some k) w)))"
  using servingD(1,2) [OF assms]
proof (cases rule: kv_rpop_cases [where k = k])
  case (refused r w')
  then show ?thesis using serving_outcome [OF assms refused(3)] by simp
next
  case (popped w' e v l l')
  then show ?thesis using serving_smaller [OF assms popped(5-7)] by simp
qed

lemma serving_srem [kept_by]:
  assumes "serving base w"
  shows "serving base (snd (kv_srem (Some k) (Some v) w))"
  using servingD(1,2) [OF assms]
proof (cases rule: kv_srem_cases [where k = k and v = v])
  case (refused r w')
  then show ?thesis using serving_outcome [OF assms refused(4)] by simp
next
  case (removed w' e t t')
  then show ?thesis using serving_smaller [OF assms removed(6-8)] by simp
qed

lemma serving_llen [kept_by]: "serving base w \<Longrightarrow> serving base (snd (kv_llen (Some k) w))"
  using kv_llen_spec [of base w k] serving_outcome [of base w "snd (kv_llen (Some k) w)" k]
  by (cases "kv_llen (Some k) w") (auto simp: serving_def)

lemma serving_scard [kept_by]: "serving base w \<Longrightarrow> serving base (snd (kv_scard (Some k) w))"
  using kv_scard_spec [of base w k] serving_outcome [of base w "snd (kv_scard (Some k) w)" k]
  by (cases "kv_scard (Some k) w") (auto simp: serving_def)

lemma serving_smembers [kept_by]: "serving base w \<Longrightarrow> serving base (snd (snd (kv_smembers (Some k) w)))"
  using kv_smembers_spec [of base w k] serving_outcome [of base w "snd (snd (kv_smembers (Some k) w))" k]
  by (cases "kv_smembers (Some k) w") (auto simp: serving_def)

lemma serving_pexpireat [kept_by]:
  assumes "serving base w"
  shows "serving base (snd (kv_pexpireat (Some k) t w))"
  using servingD(1,2) [OF assms]
proof (cases rule: kv_pexpireat_cases [where k = k and t = t])
  case (absent w')
  then show ?thesis using serving_outcome [OF assms absent(3,4)] by simp
next
  case (found w' e)
  then show ?thesis using serving_redated [OF assms found(3,4)] by simp
qed

lemma serving_persist [kept_by]:
  assumes "serving base w"
  shows "serving base (snd (kv_persist (Some k) w))"
  using servingD(1,2) [OF assms]
proof (cases rule: kv_persist_cases [where k = k])
  case (idle w')
  then show ?thesis using serving_outcome [OF assms idle(3,4)] by simp
next
  case (cleared w' e)
  then show ?thesis using serving_redated [OF assms cleared(4,5)] by simp
qed

lemma keeps_expire [kept_by]:
  assumes "serving base w"
  shows "keeps (serving base) {Signed_Overflow} (kv_expire (Some k) n w)" "keeps (serving base) {Signed_Overflow} (kv_pexpire (Some k) n w)"
proof -
  have "serving base (snd (kv_current_time_ms w))" using assms by (rule serving_st [rotated]) (simp add: frame)
  from serving_pexpireat [OF this, of k] show "keeps (serving base) {Signed_Overflow} (kv_expire (Some k) n w)" "keeps (serving base) {Signed_Overflow} (kv_pexpire (Some k) n w)"
    by (auto simp: kv_expire_def kv_pexpire_def keeps_def split_beta Let_def)
qed

lemma keeps_pttl [kept_by]:
  assumes "serving base w"
  shows "keeps (serving base) {Signed_Overflow} (kv_pttl (Some k) w)" "keeps (serving base) {Signed_Overflow} (kv_ttl (Some k) w)"
proof -
  obtain w' where w': "kv_pttl (Some k) w = map_sum id (\<lambda>r. (r, w')) (remaining (live_entry (st w) (now_of w) k) (later_of w))"
    "wf_store base (st w')" "lookup_outcome k w w'"
    using kv_pttl_spec [OF servingD(1,2) [OF assms]] .
  note s = serving_outcome [OF assms w'(2,3)]
  have r: "remaining e t = Inl ub \<Longrightarrow> ub = Signed_Overflow" for e t ub
    by (auto simp: remaining_def split: option.splits if_splits)
  show "keeps (serving base) {Signed_Overflow} (kv_pttl (Some k) w)"
    using s r by (cases "remaining (live_entry (st w) (now_of w) k) (later_of w)") (auto simp: w'(1) keeps_def)
  then show "keeps (serving base) {Signed_Overflow} (kv_ttl (Some k) w)"
    by (auto simp: kv_ttl_def keeps_def split: sum.splits prod.splits)
qed

lemma serving_sync [kept_by]: "serving base w \<Longrightarrow> serving base (snd (kv_sync w))"
  using same_but_logD(1) [OF same_but_log_sync] by (rule serving_st)

lemma serving_locks [simp]:
  "serving base (kv_acquire_all_locks w) = serving base w" "serving base (kv_release_all_locks w) = serving base w"
  "serving base (upd_st (\<lambda>s. s\<lparr>bgsave_pid := p\<rparr>) w) = serving base w"
  by (simp_all add: serving_def frame wf_store_def within_budget_def)

lemma serving_bgsave [kept_by]: "serving base w \<Longrightarrow> serving base (snd (kv_bgsave file_name pid w))"
  by (simp add: kv_bgsave_def Let_def)

lemma st_flush_log: "st (flush_log w) = st w"
  by (auto simp: flush_log_def fflush_def io_step_def Let_def split: option.split)

lemma serving_bgrewriteaof [kept_by]: "serving base w \<Longrightarrow> serving base (snd (kv_bgrewriteaof pid w))"
  by (rule serving_st) (simp_all add: kv_bgrewriteaof_def Let_def frame st_flush_log)

lemma st_send: "st (send_quietly fd d w) = st w"
  by (simp add: send_quietly_def io_step_def Let_def)

lemma st_send_fold: "st (fold (send_quietly fd) ds w) = st w"
  by (induction ds arbitrary: w) (simp_all add: st_send)

lemma serving_handle_sync [kept_by]:
  assumes "serving base w"
  shows "serving base (snd (replication_handle_sync pid exited fd w))"
proof -
  have s: "serving base (send_quietly fd d v) = serving base v" "serving base (snd (io_step v)) = serving base v"
    "serving base (send_snapshot fd d v) = serving base v" "serving base (replication_add_replica fd v) = serving base v" for d v
    by (auto simp: serving_def st_send st_send_fold io_step_def send_snapshot_def replication_add_replica_def Let_def
        split_beta frame)
  show ?thesis
    using serving_bgsave [OF assms] assms
    by (simp add: replication_handle_sync_def Let_def split_beta s split: option.split)
qed

text \<open>The arguments of a command are pieces of the line, which ends at its first terminator.\<close>

lemma split_at_SomeD: "split_at c s = Some (a, b) \<Longrightarrow> s = a @ c # b"
  by (auto simp: split_at_def split: if_splits)
    (metis (mono_tags, lifting) dropWhile_eq_Nil_conv hd_dropWhile list.collapse takeWhile_dropWhile_id)

lemma cstring_c_str_bytes [simp]: "cstring (c_str s)"
  by (auto simp: cstring_def c_str_def dest: set_takeWhileD)

lemma cstring_split: "split_at c s = Some (a, b) \<Longrightarrow> cstring s \<Longrightarrow> cstring a \<and> cstring b"
  by (drule split_at_SomeD) (simp add: cstring_def)

lemma keeps_no_arg: "Q w \<Longrightarrow> keeps Q ubs act \<Longrightarrow> keeps Q ubs (no_arg args act w)"
  by (simp add: no_arg_def)

lemma keeps_one_arg:
  "Q w \<Longrightarrow> pred_option cstring args \<Longrightarrow> (\<And>k. cstring k \<Longrightarrow> keeps Q ubs (act k)) \<Longrightarrow>
   keeps Q ubs (one_arg args act w)"
  by (cases args) (simp_all add: one_arg_def)

lemma keeps_key_value:
  "Q w \<Longrightarrow> pred_option cstring args \<Longrightarrow> (\<And>k v. cstring k \<Longrightarrow> cstring v \<Longrightarrow> keeps Q ubs (act k v)) \<Longrightarrow>
   keeps Q ubs (key_value args act w)"
  by (cases args) (auto simp: key_value_def split: option.split dest: cstring_split)

lemma keeps_key_number:
  "Q w \<Longrightarrow> pred_option cstring args \<Longrightarrow> (\<And>k n. cstring k \<Longrightarrow> keeps Q ubs (act k n)) \<Longrightarrow>
   keeps Q ubs (key_number args act w)"
  by (cases args) (auto simp: key_number_def split_beta Let_def split: option.split dest: cstring_split)

lemma keeps_map: "keeps Q ubs r \<Longrightarrow> keeps Q ubs (map_sum id (map_prod f id) r)"
  by (cases r) (auto simp: keeps_def)

lemma keeps_case:
  "keeps Q ubs r \<Longrightarrow> keeps Q ubs (case r of Inl ub \<Rightarrow> Inl ub | Inr (x, w') \<Rightarrow> Inr (f x, w'))"
  by (auto simp: keeps_def split: sum.splits)

lemma keeps_pair [intro]: "Q (snd p) \<Longrightarrow> keeps Q ubs (let (x, w') = p in Inr (f x w', w'))"
  by (simp add: split_beta)

lemmas keeps_args = keeps_no_arg keeps_one_arg keeps_key_value keeps_key_number

lemma keeps_member_list:
  "Q w' \<Longrightarrow> keeps Q {Buffer_Overflow} (map_sum id (\<lambda>r. (r, w')) (member_list n ms) :: reply result)"
proof -
  have m: "print_members n xs p = Inl ub \<Longrightarrow> ub = Buffer_Overflow" for xs p ub
    by (induction n xs p rule: print_members.induct) (auto simp: print_at_def split: if_splits sum.splits)
  assume "Q w'"
  then show ?thesis
    by (auto simp: keeps_def member_list_def print_at_def split: sum.splits dest: m)
qed

lemma keeps_handlers:
  assumes "serving base w" and "pred_option cstring args"
  shows "keeps (serving base) (possible_ub w cmd) (run_command n pid cmd args w)"
proof -
  have [intro!]: "keeps (serving base) {} (do_ping args w)" "keeps (serving base) {} (do_quit args w)" "keeps (serving base) {} (do_save args w)"
    unfolding do_ping_def do_quit_def do_save_def
    using assms by (auto intro!: keeps_args simp: split_beta intro: kept_by)
  have [intro!]: "keeps (serving base) {} (do_get n args w)" "keeps (serving base) {} (do_exists args w)" "keeps (serving base) {} (do_delete args w)"
    "keeps (serving base) {} (do_rpop n args w)" "keeps (serving base) {} (do_llen n args w)" "keeps (serving base) {} (do_scard n args w)"
    "keeps (serving base) {} (do_persist n args w)"
    unfolding do_get_def do_exists_def do_delete_def do_rpop_def do_llen_def do_scard_def do_persist_def
    using assms by (auto intro!: keeps_args simp: split_beta Let_def intro: kept_by)
  have [intro!]: "keeps (serving base) {Buffer_Overflow} (do_smembers n args w)"
    unfolding do_smembers_def
    using assms by (auto intro!: keeps_args keeps_member_list simp: split_beta Let_def intro: kept_by split: option.split)
  have [intro!]: "keeps (serving base) (freed_ub w) (do_lpush n args w)" "keeps (serving base) (freed_ub w) (do_sadd n args w)"
    unfolding do_lpush_def do_sadd_def
    using assms by (auto intro!: keeps_args keeps_case intro: kept_by)
  have [intro!]: "keeps (serving base) {} (do_srem n args w)" "keeps (serving base) {} (do_set args w)"
    unfolding do_srem_def do_set_def
    using assms by (auto intro!: keeps_args simp: split_beta Let_def intro: kept_by split: option.split
        dest: cstring_split simp: bind_eq_Some_conv)
  have [intro!]: "keeps (serving base) {Signed_Overflow} (do_expire n args w)" "keeps (serving base) {Signed_Overflow} (do_pexpire n args w)"
    "keeps (serving base) {Signed_Overflow} (do_ttl n args w)" "keeps (serving base) {Signed_Overflow} (do_pttl n args w)"
    unfolding do_expire_def do_pexpire_def do_ttl_def do_pttl_def
    using assms by (auto intro!: keeps_args keeps_map intro: kept_by)
  have [intro!]: "keeps (serving base) {} (do_bgsave pid w)" "keeps (serving base) {} (do_bgrewriteaof pid w)"
    unfolding do_bgsave_def do_bgrewriteaof_def
    using assms by (auto simp: split_beta Let_def intro: kept_by)
  show ?thesis using assms(1) by (auto simp: run_command_def possible_ub_def)
qed

definition command_of :: "string \<Rightarrow> string" where
  "command_of line = takeWhile (\<lambda>c. c \<noteq> CHR '' '') (c_str line)"

lemma command_split:
  "(case split_at (CHR '' '') s of None \<Rightarrow> (s, None) | Some (c, a) \<Rightarrow> (c, Some a)) =
   (takeWhile (\<lambda>c. c \<noteq> CHR '' '') s, map_option snd (split_at (CHR '' '') s))"
proof (cases "CHR '' '' \<in> set s")
  case False
  then have "takeWhile (\<lambda>c. c \<noteq> CHR '' '') s = s" by (intro takeWhile_eq_all_conv [THEN iffD2]) auto
  from this [symmetric] False show ?thesis by (simp only: split_at_def if_False option.case option.map)
qed (simp add: split_at_def)

lemma command_run:
  assumes "Q w" and "keeps Q ubs (do_sync pid exited fd w)"
    and "is_write (command_of line) \<and> mode (repl w) = REPLICA_MODE_REPLICA \<or>
      keeps Q ubs (run_command n pid (command_of line) (map_option snd (split_at (CHR '' '') (c_str line))) w)"
  shows "keeps Q ubs (protocol_execute_command n pid exited fd line w)"
  using assms by (simp add: protocol_execute_command_def command_split flip: command_of_def) blast

lemma cstring_args: "pred_option cstring (map_option snd (split_at (CHR '' '') (c_str line)))"
  by (cases "split_at (CHR '' '') (c_str line)") (auto dest: cstring_split)

lemma keeps_line:
  assumes "serving base w"
  shows "keeps (serving base) (possible_ub w (command_of line)) (protocol_execute_command buf_size pid exited fd line w)"
proof -
  have "keeps (serving base) (possible_ub w (command_of line)) (do_sync pid exited fd w)"
    using assms by (auto simp: do_sync_def split_beta Let_def intro: kept_by)
  with assms show ?thesis using cstring_args by (intro command_run disjI2 keeps_handlers)
qed

text \<open>C7. Type preservation for the command interpreter: whatever bytes a line holds and whatever
  the operating system answers, executing the line on a store that is well formed, accounted
  for exactly and within its budget leaves such a store, or ends in the one kind of undefined
  behaviour its command admits: a push under a memory budget may use a freed entry, arithmetic
  on deadlines may overflow, and a member list may overrun the response buffer. No other
  command has an undefined outcome.\<close>

theorem every_line_keeps_the_store:
  assumes "serving base w"
  shows "case protocol_execute_command buf_size pid exited fd line w of
           Inl ub \<Rightarrow> ub \<in> possible_ub w (command_of line)
         | Inr (r, w') \<Rightarrow> serving base w'"
  using keeps_line [OF assms] by (simp add: keeps_def)

theorem every_line_keeps_the_store_witness:
  "\<exists>r w'. protocol_execute_command 8320 0 True 5 ''SET a 1'' (quiet_world 7 (fresh_store 8 0 0)) = Inr (r, w') \<and>
     serving 0 w'"
proof -
  let ?w = "quiet_world 7 (fresh_store 8 0 0)"
  have "serving 0 ?w" "possible_ub ?w (command_of ''SET a 1'') = {}"
    by (simp_all add: serving_def possible_ub_def command_of_def c_str_def within_budget_def)
  with every_line_keeps_the_store [where base = 0 and w = ?w and buf_size = 8320 and pid = 0
      and exited = True and fd = 5 and line = "''SET a 1''"] show ?thesis
    by (auto split: sum.splits)
qed

section \<open>Replies fit the response buffer\<close>

text \<open>The longest fixed reply has 64 bytes; a handler other than \<^verbatim>\<open>SMEMBERS\<close> reports exactly what it
  wrote, and that is never more than the buffer holds.\<close>

definition fits :: "nat \<Rightarrow> reply \<Rightarrow> bool" where
  "fits n r \<longleftrightarrow> r_len r = length (r_bytes r) \<and> r_len r \<le> n"

definition fitting :: "nat \<Rightarrow> reply result \<Rightarrow> bool" where
  "fitting n res \<longleftrightarrow> (\<forall>r w. res = Inr (r, w) \<longrightarrow> fits n r)"

lemma fits_answer [simp]: "fits n (answer msg) \<longleftrightarrow> length msg + 2 \<le> n"
  by (simp add: fits_def answer_def no_reply_def)

lemma fits_no_reply [simp]: "fits n no_reply" "fits n (no_reply\<lparr>r_close := b\<rparr>)" "fits n (no_reply\<lparr>r_detach := b\<rparr>)"
  "fits n (r\<lparr>r_close := b\<rparr>) = fits n r"
  by (simp_all add: fits_def no_reply_def)

lemma fits_formatted [simp]: "fits n (formatted n text r) \<longleftrightarrow> length text + 2 < n \<or> fits n r"
  by (auto simp: formatted_def)

lemma fits_number [simp]: "fits n (number n i)"
  by (simp add: number_def)

lemma fitting_Inr [simp]: "fitting n (Inr (r, w)) \<longleftrightarrow> fits n r" "fitting n (Inl ub)"
  by (simp_all add: fitting_def)

lemma fitting_map [simp]: "fitting n (map_sum id (map_prod (number n) id) res)"
  by (cases res) auto

lemma fitting_args:
  assumes "64 \<le> n"
  shows "fitting n act0 \<Longrightarrow> fitting n (no_arg args act0 w)"
    and "(\<And>k. fitting n (act1 k)) \<Longrightarrow> fitting n (one_arg args act1 w)"
    and "(\<And>k v. fitting n (act2 k v)) \<Longrightarrow> fitting n (key_value args act2 w)"
    and "(\<And>k i. fitting n (act3 k i)) \<Longrightarrow> fitting n (key_number args act3 w)"
  using assms
  by (simp_all add: no_arg_def one_arg_def key_value_def key_number_def Let_def split_beta split: option.split)

lemma fitting_simple:
  assumes "64 \<le> n"
  shows "fitting n (do_ping args w)" "fitting n (do_quit args w)" "fitting n (do_save args w)"
    "fitting n (do_exists args w)" "fitting n (do_delete args w)" "fitting n (do_bgsave pid w)"
    "fitting n (do_bgrewriteaof pid w)" "fitting n (do_set args w)"
  unfolding do_ping_def do_quit_def do_save_def do_exists_def do_delete_def do_bgsave_def do_bgrewriteaof_def do_set_def
    set_reply_def
  using assms by (auto simp: split_beta Let_def intro!: fitting_args split: option.split)

lemma fitting_numeric:
  assumes "64 \<le> n"
  shows "fitting n (do_lpush n args w)" "fitting n (do_sadd n args w)" "fitting n (do_srem n args w)"
    "fitting n (do_llen n args w)" "fitting n (do_scard n args w)" "fitting n (do_persist n args w)"
    "fitting n (do_expire n args w)" "fitting n (do_pexpire n args w)"
    "fitting n (do_ttl n args w)" "fitting n (do_pttl n args w)"
  unfolding do_lpush_def do_sadd_def do_srem_def do_llen_def do_scard_def do_persist_def do_expire_def do_pexpire_def
    do_ttl_def do_pttl_def
  using assms by (auto simp: split_beta Let_def intro!: fitting_args split: sum.split)

lemma fitting_valued:
  assumes "64 \<le> n"
  shows "fitting n (do_get n args w)" "fitting n (do_rpop n args w)"
  unfolding do_get_def do_rpop_def
  using assms by (auto simp: split_beta Let_def intro!: fitting_args split: option.split)

lemma fitting_handlers:
  assumes "64 \<le> n" and "cmd \<noteq> ''SMEMBERS''"
  shows "fitting n (run_command n pid cmd args w)"
  using assms fitting_simple [OF assms(1)] fitting_numeric [OF assms(1)] fitting_valued [OF assms(1)]
  by (simp add: run_command_def)

text \<open>C21. Bounds on replies: with a response buffer of at least 64 bytes (the server's has 8320), every
  line whose command is not \<^verbatim>\<open>SMEMBERS\<close> gets a reply whose reported length is the number of bytes
  written and does not exceed the buffer.\<close>

theorem reply_fits_buffer:
  assumes "64 \<le> buf_size" and "command_of line \<noteq> ''SMEMBERS''"
    and "protocol_execute_command buf_size pid exited fd line w = Inr (r, w')"
  shows "r_len r = length (r_bytes r) \<and> r_len r \<le> buf_size"
proof -
  have "fitting buf_size (protocol_execute_command buf_size pid exited fd line w)"
    using assms(1) fitting_handlers [OF assms(1,2)]
    by (auto simp: protocol_execute_command_def command_split command_of_def [symmetric] Let_def do_sync_def split_beta)
  with assms(3) show ?thesis by (simp add: fits_def)
qed

theorem reply_fits_buffer_witness:
  "\<exists>r w'. protocol_execute_command 64 0 True 5 ''GET a'' (quiet_world 7 (singleton_store 0 (string_entry ''a'' ''12'' 0)))
       = Inr (r, w') \<and> r_len r \<le> 64"
proof -
  obtain r w' where run: "protocol_execute_command 64 0 True 5 ''GET a''
      (quiet_world 7 (singleton_store 0 (string_entry ''a'' ''12'' 0))) = Inr (r, w')"
    by (auto simp: protocol_execute_command_def split_at_def c_str_def is_write_def run_command_def do_get_def
        one_arg_def split_beta Let_def)
  with reply_fits_buffer [OF _ _ run] show ?thesis by (auto simp: command_of_def c_str_def)
qed

section \<open>Member lists\<close>

definition list_header :: "string list \<Rightarrow> string" where
  "list_header ms = CHR ''*'' # show_nat (length ms) @ crlf"

definition list_text :: "string list \<Rightarrow> string" where
  "list_text ms = list_header ms @ concat (map member_text ms)"

lemma print_members_fits:
  "pos + length (concat (map member_text ms)) < n \<Longrightarrow>
   print_members n ms (pos, out) = Inr (pos + length (concat (map member_text ms)), out @ concat (map member_text ms))"
  by (induction ms arbitrary: pos out) (simp_all add: print_at_def)

lemma print_members_overflow:
  "print_members n ms (pos, out) = Inl ub \<longleftrightarrow>
   ub = Buffer_Overflow \<and> ms \<noteq> [] \<and> n < pos + length (concat (map member_text (butlast ms)))"
  by (induction ms arbitrary: pos out) (auto simp: print_at_def)

lemma print_members_bounded:
  "print_members n ms p = Inr q \<Longrightarrow> length (snd p) \<le> fst p \<Longrightarrow> length (snd p) \<le> n - 1 \<Longrightarrow>
   fst q = fst p + length (concat (map member_text ms)) \<and> length (snd q) \<le> n - 1"
proof (induction n ms p rule: print_members.induct)
  case (2 n m ms p)
  then have le: "\<not> n < fst p" by (auto simp: print_at_def)
  let ?p1 = "(fst p + length (member_text m), snd p @ take (n - fst p - 1) (member_text m))"
  have run: "print_members n ms ?p1 = Inr q" using 2(2) le by (simp add: print_at_def)
  have "length (snd ?p1) \<le> fst ?p1" "length (snd ?p1) \<le> n - 1" using 2(3,4) le by auto
  from 2(1) [OF _ run this] le show ?case by (simp add: print_at_def)
qed simp

text \<open>C22. Bounds of the member list: it is printed completely when it is shorter than the response
  buffer. Otherwise the reported length is the full length although fewer bytes than the
  buffer holds were written, so that sending the reply reads past its end; and the printing
  itself leaves the buffer exactly when all members but the last already exceed it.\<close>

theorem member_list_bounds:
  assumes "0 < n"
  shows "(length (list_text ms) < n \<longrightarrow>
            member_list n ms = Inr (no_reply\<lparr>r_bytes := list_text ms, r_len := length (list_text ms)\<rparr>)) \<and>
    (\<forall>r. member_list n ms = Inr r \<longrightarrow> r_len r = length (list_text ms) \<and> length (r_bytes r) < n) \<and>
    (member_list n ms = Inl Buffer_Overflow \<longleftrightarrow>
       ms \<noteq> [] \<and> n < length (list_header ms @ concat (map member_text (butlast ms))))"
proof -
  let ?p = "(length (list_header ms), take (n - 1) (list_header ms))"
  have run: "member_list n ms = map_sum id (\<lambda>p. no_reply\<lparr>r_bytes := snd p, r_len := fst p\<rparr>) (print_members n ms ?p)"
    by (simp add: member_list_def print_at_def list_header_def split: sum.split)
  have full: "member_list n ms = Inr (no_reply\<lparr>r_bytes := list_text ms, r_len := length (list_text ms)\<rparr>)"
    if "length (list_text ms) < n"
    using that by (simp add: run list_text_def print_members_fits)
  have cut: "r_len r = length (list_text ms) \<and> length (r_bytes r) < n" if "member_list n ms = Inr r" for r
  proof -
    from that obtain q where q: "print_members n ms ?p = Inr q" "r = no_reply\<lparr>r_bytes := snd q, r_len := fst q\<rparr>"
      by (cases "print_members n ms ?p") (simp_all add: run)
    have "fst q = length (list_text ms)" "length (snd q) \<le> n - 1"
      using print_members_bounded [OF q(1)] by (simp_all add: list_text_def)
    with assms show ?thesis by (simp add: q(2))
  qed
  have over: "member_list n ms = Inl Buffer_Overflow \<longleftrightarrow>
       ms \<noteq> [] \<and> n < length (list_header ms @ concat (map member_text (butlast ms)))"
  proof -
    have "member_list n ms = Inl Buffer_Overflow \<longleftrightarrow> print_members n ms ?p = Inl Buffer_Overflow"
      by (cases "print_members n ms ?p") (simp_all add: run)
    then show ?thesis by (simp add: print_members_overflow)
  qed
  show ?thesis by (intro conjI allI impI full cut over)
qed

theorem member_list_bounds_witness:
  "member_list 12 [''ab'', ''c'', ''d''] = Inl Buffer_Overflow \<and> (\<exists>r. member_list 30 [''ab''] = Inr r \<and> r_len r = 12)"
  using member_list_bounds [of 12 "[''ab'', ''c'', ''d'']"] member_list_bounds [of 30 "[''ab'']"]
  by (simp add: list_text_def list_header_def member_text_def show_nat.simps)

section \<open>A replica is read only\<close>

text \<open>What a reader may do to the contents: collect one expired key.\<close>

definition read_only :: "world \<Rightarrow> world \<Rightarrow> bool" where
  "read_only w w' \<longleftrightarrow>
     kv_view (st w') = kv_view (st w) \<or>
     (\<exists>k. live_entry (st w) (now_of w) k = None \<and> kv_view (st w') = (kv_view (st w))(k := None))"

lemma read_only_st: "st w' = st w \<Longrightarrow> read_only w w'"
  by (simp add: read_only_def)

lemma read_only_refl [simp]: "read_only w w"
  by (simp add: read_only_def)

lemma read_only_outcome: "lookup_outcome k w w' \<Longrightarrow> read_only w w'"
  by (auto simp: lookup_outcome_def read_only_def)

lemma read_only_readers:
  assumes "serving base w"
  shows "read_only w (snd (kv_get (Some k) w))" "read_only w (snd (kv_exists (Some k) w))"
    "read_only w (snd (kv_llen (Some k) w))" "read_only w (snd (kv_scard (Some k) w))"
    "read_only w (snd (snd (kv_smembers (Some k) w)))"
proof -
  note wf = servingD(1,2) [OF assms]
  show "read_only w (snd (kv_get (Some k) w))"
    using kv_get_spec [OF wf prod.collapse [symmetric], of k] by (auto simp: read_only_def)
  show "read_only w (snd (kv_exists (Some k) w))"
    using kv_exists_spec [OF wf prod.collapse [symmetric], of k] by (auto simp: read_only_def)
  show "read_only w (snd (kv_llen (Some k) w))" "read_only w (snd (kv_scard (Some k) w))"
    using kv_llen_spec [OF wf prod.collapse [symmetric], of k] kv_scard_spec [OF wf prod.collapse [symmetric], of k]
    by (blast intro: read_only_outcome)+
  show "read_only w (snd (snd (kv_smembers (Some k) w)))"
    using kv_smembers_spec [OF wf, of k] by (cases "kv_smembers (Some k) w") (auto intro: read_only_outcome)
qed

lemma read_only_ttl:
  assumes "serving base w"
  shows "keeps (read_only w) {Signed_Overflow} (kv_pttl (Some k) w)" "keeps (read_only w) {Signed_Overflow} (kv_ttl (Some k) w)"
proof -
  obtain w' where w': "kv_pttl (Some k) w = map_sum id (\<lambda>r. (r, w')) (remaining (live_entry (st w) (now_of w) k) (later_of w))"
    "wf_store base (st w')" "lookup_outcome k w w'"
    using kv_pttl_spec [OF servingD(1,2) [OF assms]] .
  have r: "remaining e t = Inl ub \<Longrightarrow> ub = Signed_Overflow" for e t ub
    by (auto simp: remaining_def split: option.splits if_splits)
  show "keeps (read_only w) {Signed_Overflow} (kv_pttl (Some k) w)"
    using read_only_outcome [OF w'(3)] r
    by (cases "remaining (live_entry (st w) (now_of w) k) (later_of w)") (auto simp: w'(1) keeps_def)
  then show "keeps (read_only w) {Signed_Overflow} (kv_ttl (Some k) w)"
    by (auto simp: kv_ttl_def keeps_def split: sum.splits prod.splits)
qed

lemma view_pid [simp]: "kv_view (s\<lparr>bgsave_pid := p\<rparr>) = kv_view s"
  by (simp add: kv_view_def lookup_def fun_eq_iff)

lemma view_bgsave: "kv_view (st (snd (kv_bgsave file_name pid w))) = kv_view (st w)"
  by (simp add: kv_bgsave_def Let_def frame)

lemma view_handle_sync: "kv_view (st (snd (replication_handle_sync pid exited fd w))) = kv_view (st w)"
proof -
  have s: "st (send_quietly fd d v) = st v" "st (snd (io_step v)) = st v"
    "st (send_snapshot fd d v) = st v" "st (replication_add_replica fd v) = st v" for d v
    by (auto simp: st_send st_send_fold io_step_def send_snapshot_def replication_add_replica_def Let_def split_beta frame)
  show ?thesis
    using view_bgsave by (simp add: replication_handle_sync_def Let_def split_beta s split: option.split)
qed

lemma read_only_handlers:
  assumes "serving base w" and "pred_option cstring args" and "\<not> is_write cmd" and "cmd \<noteq> ''RPOP''"
  shows "keeps (read_only w) (possible_ub w cmd) (run_command n pid cmd args w)"
proof -
  have [intro!]: "keeps (read_only w) {} (do_ping args w)" "keeps (read_only w) {} (do_quit args w)"
    "keeps (read_only w) {} (do_save args w)" "keeps (read_only w) {} (do_bgsave pid w)"
    "keeps (read_only w) {} (do_bgrewriteaof pid w)"
    unfolding do_ping_def do_quit_def do_save_def do_bgsave_def do_bgrewriteaof_def
    using same_but_logD(1) [OF same_but_log_sync]
    by (auto intro!: keeps_args simp: split_beta Let_def read_only_def view_bgsave kv_bgrewriteaof_def frame st_flush_log)
  have [intro!]: "keeps (read_only w) {} (do_get n args w)" "keeps (read_only w) {} (do_exists args w)"
    "keeps (read_only w) {} (do_llen n args w)" "keeps (read_only w) {} (do_scard n args w)"
    unfolding do_get_def do_exists_def do_llen_def do_scard_def
    using assms(2) read_only_readers [OF assms(1)] by (auto intro!: keeps_args simp: split_beta Let_def)
  have [intro!]: "keeps (read_only w) {Buffer_Overflow} (do_smembers n args w)"
    unfolding do_smembers_def
    using assms(2) read_only_readers [OF assms(1)]
    by (auto intro!: keeps_args keeps_member_list simp: split_beta Let_def split: option.split)
  have [intro!]: "keeps (read_only w) {Signed_Overflow} (do_ttl n args w)" "keeps (read_only w) {Signed_Overflow} (do_pttl n args w)"
    unfolding do_ttl_def do_pttl_def
    using assms(2) read_only_ttl [OF assms(1)] by (auto intro!: keeps_args keeps_map)
  show ?thesis using assms(3,4) by (auto simp: run_command_def possible_ub_def is_write_def)
qed

text \<open>C20. A replica is read only, except for \<^verbatim>\<open>RPOP\<close>: no other line changes what its store holds, apart
  from collecting a key that has expired.\<close>

theorem replica_is_read_only:
  assumes "serving base w" and "mode (repl w) = REPLICA_MODE_REPLICA" and "command_of line \<noteq> ''RPOP''"
  shows "case protocol_execute_command buf_size pid exited fd line w of
           Inl ub \<Rightarrow> ub \<in> possible_ub w (command_of line)
         | Inr (r, w') \<Rightarrow> read_only w w'"
proof -
  have "keeps (read_only w) (possible_ub w (command_of line)) (do_sync pid exited fd w)"
    by (simp add: do_sync_def split_beta Let_def read_only_def view_handle_sync)
  moreover have "is_write (command_of line) \<and> mode (repl w) = REPLICA_MODE_REPLICA \<or>
      keeps (read_only w) (possible_ub w (command_of line))
        (run_command buf_size pid (command_of line) (map_option snd (split_at (CHR '' '') (c_str line))) w)"
    using read_only_handlers [OF assms(1) cstring_args _ assms(3)] assms(2) by blast
  ultimately have "keeps (read_only w) (possible_ub w (command_of line)) (protocol_execute_command buf_size pid exited fd line w)"
    by (rule command_run [OF read_only_refl])
  then show ?thesis by (simp add: keeps_def)
qed

definition replica_world :: world where
  "replica_world = quiet_world 7 (singleton_store 0 (string_entry ''a'' ''1'' 0))
     \<lparr>repl := no_replication\<lparr>mode := REPLICA_MODE_REPLICA\<rparr>\<rparr>"

lemma replica_world_sel [simp]:
  "st replica_world = singleton_store 0 (string_entry ''a'' ''1'' 0)" "mode (repl replica_world) = REPLICA_MODE_REPLICA"
  by (simp_all add: replica_world_def)

theorem replica_is_read_only_witness:
  "\<exists>w'. protocol_execute_command 8320 0 True 5 ''SET a 2''
      replica_world
    = Inr (answer ''-ERR Server is running in read-only replica mode'', w') \<and>
    read_only replica_world w'"
proof -
  let ?w = replica_world
  have run: "protocol_execute_command 8320 0 True 5 ''SET a 2'' ?w =
      Inr (answer ''-ERR Server is running in read-only replica mode'', ?w)"
    by (simp add: protocol_execute_command_def split_at_def c_str_def is_write_def)
  have "serving 0 ?w" by (simp add: serving_def within_budget_def)
  from replica_is_read_only [OF this, where buf_size = 8320 and pid = 0 and exited = True and fd = 5 and line = "''SET a 2''"] run
  show ?thesis by (simp add: command_of_def c_str_def)
qed

lemma protocol_line:
  assumes "cstring cmd" and "CHR '' '' \<notin> set cmd" and "cstring a" and "cmd \<noteq> []" and "cmd \<noteq> ''SYNC''"
    and "\<not> (is_write cmd \<and> mode (repl w) = REPLICA_MODE_REPLICA)"
  shows "protocol_execute_command n pid exited fd (cmd @ CHR '' '' # a) w = run_command n pid cmd (Some a) w"
proof -
  have "c_str (cmd @ CHR '' '' # a) = cmd @ CHR '' '' # a"
    using cstring_c_str [of "cmd @ CHR '' '' # a"] assms(1,3) by (simp add: cstring_def)
  with split_at_field [OF assms(2)] assms(4-6) show ?thesis by (auto simp: protocol_execute_command_def)
qed

text \<open>\<^verbatim>\<open>RPOP\<close> is missing from the list of write commands: it runs in either mode.\<close>

lemma rpop_runs_on_a_replica:
  "cstring k \<Longrightarrow> protocol_execute_command n pid exited fd (''RPOP'' @ CHR '' '' # k) w = do_rpop n (Some k) w"
  by (subst protocol_line) (simp_all add: cstring_def is_write_def run_command_def)


lemma quiet_world_mode [simp]: "mode (repl (quiet_world t s)) = REPLICA_MODE_NONE"
  by (simp add: quiet_world_def no_replication_def)


end
