(* ===== verification/KV_Pool.thy ===== *)
theory KV_Pool
  imports KV_Types "HOL-Library.Multiset"
begin

text \<open>
  The thread pool (\<^verbatim>\<open>src/thread_pool.c\<close>): a ring buffer of tasks behind one mutex and one condition
  variable. What runs between \<^verbatim>\<open>pthread_mutex_lock\<close> and \<^verbatim>\<open>pthread_mutex_unlock\<close> is one step; the steps of the
  workers and of the callers of the pool interleave in any order. A wake-up is an event of its
  own, so a signal may wake more workers than one and a worker may wake without a signal, as
  POSIX allows.
\<close>

section \<open>State\<close>

record ('f, 'a) task_t =
  task_function :: "'f option"
  task_arg :: 'a

text \<open>Where a worker is: about to take the queue lock, asleep on the condition variable, running
  a task, or gone.\<close>

datatype ('f, 'a) worker = W_Ready | W_Waiting | W_Running "('f, 'a) task_t" | W_Exited

record ('f, 'a) thread_pool =
  workers :: "('f, 'a) worker list"
  num_threads :: nat
  queue :: "('f, 'a) task_t list"
  queue_capacity :: nat
  queue_head :: nat
  queue_tail :: nat
  queue_count :: nat
  shutdown :: bool

section \<open>The ring buffer\<close>

definition enqueue :: "('f, 'a) task_t \<Rightarrow> ('f, 'a) thread_pool \<Rightarrow> ('f, 'a) thread_pool" where
  "enqueue t p =
     p\<lparr>queue := (queue p)[queue_tail p := t], queue_tail := (queue_tail p + 1) mod queue_capacity p,
       queue_count := queue_count p + 1\<rparr>"

definition dequeue :: "('f, 'a) thread_pool \<Rightarrow> (('f, 'a) task_t \<times> ('f, 'a) thread_pool) option" where
  "dequeue p =
     (if queue_count p = 0 then None
      else Some (queue p ! queue_head p,
                 p\<lparr>queue_head := (queue_head p + 1) mod queue_capacity p, queue_count := queue_count p - 1\<rparr>))"

definition ring_ok :: "('f, 'a) thread_pool \<Rightarrow> bool" where
  "ring_ok p \<longleftrightarrow> length (queue p) = queue_capacity p \<and> queue_head p < queue_capacity p \<and>
     queue_count p \<le> queue_capacity p \<and> queue_tail p = (queue_head p + queue_count p) mod queue_capacity p"

definition pending :: "('f, 'a) thread_pool \<Rightarrow> ('f, 'a) task_t list" where
  "pending p = map (\<lambda>i. queue p ! ((queue_head p + i) mod queue_capacity p)) [0..<queue_count p]"

lemma length_pending [simp]: "length (pending p) = queue_count p"
  by (simp add: pending_def)

lemma mod_offset_inj:
  fixes h i j n :: nat
  assumes "i < n" and "j \<le> n" and "i < j" and "(h + i) mod n = (h + j) mod n"
  shows "i = 0 \<and> j = n"
proof -
  have "n dvd (h + j) - (h + i)" using assms(3,4) by (metis add_left_mono mod_eq_dvd_iff_nat nat_less_le)
  then have "n dvd j - i" by simp
  then have "n \<le> j - i" using assms(3) by (simp add: dvd_imp_le)
  with assms(1-3) show ?thesis by arith
qed

lemma enqueue_pending:
  assumes "ring_ok p" and "queue_count p < queue_capacity p"
  shows "ring_ok (enqueue t p)" "pending (enqueue t p) = pending p @ [t]"
proof -
  let ?n = "queue_capacity p" and ?h = "queue_head p" and ?c = "queue_count p"
  have r: "length (queue p) = ?n" "?h < ?n" "?c \<le> ?n" "queue_tail p = (?h + ?c) mod ?n"
    using assms(1) by (simp_all add: ring_ok_def)
  have tail: "queue_tail p < ?n" using r assms(2) by simp
  show "ring_ok (enqueue t p)"
    using r assms(2) tail by (simp add: ring_ok_def enqueue_def mod_Suc_eq)
  have old: "(queue p)[queue_tail p := t] ! ((?h + i) mod ?n) = queue p ! ((?h + i) mod ?n)" if "i < ?c" for i
  proof -
    have "(?h + i) mod ?n \<noteq> (?h + ?c) mod ?n"
      using mod_offset_inj [of i ?n ?c ?h] that assms(2) by auto
    then show ?thesis using r(4) by simp
  qed
  have new: "(queue p)[queue_tail p := t] ! ((?h + ?c) mod ?n) = t" using r tail by simp
  show "pending (enqueue t p) = pending p @ [t]"
    using old new by (simp add: pending_def enqueue_def)
qed

lemma dequeue_pending:
  assumes "ring_ok p" and "dequeue p = Some (t, p')"
  shows "ring_ok p'" "pending p = t # pending p'"
proof -
  let ?n = "queue_capacity p" and ?h = "queue_head p" and ?c = "queue_count p"
  have r: "length (queue p) = ?n" "?h < ?n" "?c \<le> ?n" "queue_tail p = (?h + ?c) mod ?n"
    using assms(1) by (simp_all add: ring_ok_def)
  obtain c where c: "?c = Suc c" using assms(2) by (cases ?c) (simp_all add: dequeue_def)
  have p': "t = queue p ! ?h" "p' = p\<lparr>queue_head := (?h + 1) mod ?n, queue_count := c\<rparr>"
    using assms(2) c by (simp_all add: dequeue_def)
  show "ring_ok p'" using r c by (simp add: ring_ok_def p' mod_simps)
  have "pending p = queue p ! (?h mod ?n) # map (\<lambda>i. queue p ! ((?h + Suc i) mod ?n)) [0..<c]"
    by (simp add: pending_def c upt_conv_Cons map_Suc_upt [symmetric] comp_def del: upt_Suc)
  then show "pending p = t # pending p'"
    using r by (simp add: p' pending_def mod_simps)
qed

interpretation ring: fifo "\<lambda>p :: ('f, 'a) thread_pool. ring_ok p" "\<lambda>p. queue_count p = queue_capacity p" pending enqueue dequeue
proof
  fix p :: "('f, 'a) thread_pool" and t p'
  assume ok: "ring_ok p"
  show "dequeue p = None \<longleftrightarrow> pending p = []" by (simp add: dequeue_def pending_def)
  show "dequeue p = Some (t, p') \<Longrightarrow> ring_ok p' \<and> pending p = t # pending p'" using dequeue_pending [OF ok] by blast
  assume "queue_count p \<noteq> queue_capacity p"
  then have "queue_count p < queue_capacity p" using ok by (simp add: ring_ok_def)
  then show "ring_ok (enqueue t p)" "pending (enqueue t p) = pending p @ [t]" using enqueue_pending [OF ok] by blast+
qed

section \<open>Operations\<close>

text \<open>Creation: the three allocations, the two synchronisation objects and every thread have to
  succeed; otherwise everything already made is taken down again.\<close>

definition thread_pool_create ::
  "nat \<Rightarrow> nat \<Rightarrow> (nat \<Rightarrow> bool) \<Rightarrow> bool \<Rightarrow> bool \<Rightarrow> (nat \<Rightarrow> bool) \<Rightarrow> 'a \<Rightarrow> ('f, 'a) thread_pool option" where
  "thread_pool_create n cap alloc_ok mutex_ok cond_ok spawn_ok null =
     (if n = 0 \<or> cap = 0 then None
      else if \<not> alloc_ok 0 then None
      else if \<not> alloc_ok 1 then None
      else if \<not> alloc_ok 2 then None
      else if \<not> mutex_ok then None
      else if \<not> cond_ok then None
      else if \<not> list_all spawn_ok [0..<n] then None
      else Some \<lparr>workers = replicate n W_Ready, num_threads = n,
        queue = replicate cap \<lparr>task_function = None, task_arg = null\<rparr>, queue_capacity = cap,
        queue_head = 0, queue_tail = 0, queue_count = 0, shutdown = False\<rparr>)"

text \<open>Waking the workers of \<open>js\<close> that are asleep. A signal wakes one at least, if one is asleep.\<close>

definition wake :: "nat list \<Rightarrow> ('f, 'a) worker list \<Rightarrow> ('f, 'a) worker list" where
  "wake js ws =
     map (\<lambda>i. if i \<in> set js \<and> ws ! i = W_Waiting then W_Ready else ws ! i) [0..<length ws]"

definition signal_ok :: "nat list \<Rightarrow> ('f, 'a) worker list \<Rightarrow> bool" where
  "signal_ok js ws \<longleftrightarrow>
     (\<exists>i\<in>set [0..<length ws]. ws ! i = W_Waiting) \<longrightarrow> (\<exists>i\<in>set js. i < length ws \<and> ws ! i = W_Waiting)"

definition thread_pool_submit ::
  "nat list \<Rightarrow> 'f option \<Rightarrow> 'a \<Rightarrow> ('f, 'a) thread_pool \<Rightarrow> int \<times> ('f, 'a) thread_pool" where
  "thread_pool_submit js function arg p =
     (if function = None then (KV_ERR_INVALID_PARAM, p)
      else if shutdown p then (KV_ERR_INTERNAL, p)
      else if queue_count p \<ge> queue_capacity p then (KV_ERR_AGAIN, p)
      else (KV_OK, (enqueue \<lparr>task_function = function, task_arg = arg\<rparr> p)\<lparr>workers := wake js (workers p)\<rparr>))"

text \<open>What a worker does while it holds the lock: it goes to sleep, leaves, or takes a task.\<close>

definition worker_section :: "('f, 'a) thread_pool \<Rightarrow> ('f, 'a) worker \<times> ('f, 'a) thread_pool" where
  "worker_section p =
     (if queue_count p = 0 \<and> \<not> shutdown p then (W_Waiting, p)
      else if shutdown p \<and> queue_count p = 0 then (W_Exited, p)
      else case dequeue p of None \<Rightarrow> (W_Ready, p) | Some (t, p') \<Rightarrow> (W_Running t, p'))"

definition set_worker :: "nat \<Rightarrow> ('f, 'a) worker \<Rightarrow> ('f, 'a) thread_pool \<Rightarrow> ('f, 'a) thread_pool" where
  "set_worker i x p = p\<lparr>workers := (workers p)[i := x]\<rparr>"

text \<open>The first half of \<^verbatim>\<open>thread_pool_destroy\<close>. The second joins every worker: it goes on when all
  of them are gone.\<close>

definition begin_shutdown :: "('f, 'a) thread_pool \<Rightarrow> ('f, 'a) thread_pool" where
  "begin_shutdown p = p\<lparr>shutdown := True, workers := wake [0..<length (workers p)] (workers p)\<rparr>"

definition joined :: "('f, 'a) thread_pool \<Rightarrow> bool" where
  "joined p \<longleftrightarrow> list_all (\<lambda>i. workers p ! i = W_Exited) [0..<num_threads p]"

section \<open>Interleaving\<close>

text \<open>The task a worker holds.\<close>

fun task_of :: "('f, 'a) worker \<Rightarrow> ('f, 'a) task_t list" where
  "task_of (W_Running t) = [t]"
| "task_of x = []"

text \<open>A run: the pool, the tasks accepted by \<^verbatim>\<open>thread_pool_submit\<close>, the tasks taken by a worker and
  those run to the end, each in order.\<close>

record ('f, 'a) pool_run =
  pool :: "('f, 'a) thread_pool"
  accepted :: "('f, 'a) task_t list"
  started :: "('f, 'a) task_t list"
  finished :: "('f, 'a) task_t list"

definition fresh_run :: "('f, 'a) thread_pool \<Rightarrow> ('f, 'a) pool_run" where
  "fresh_run p = \<lparr>pool = p, accepted = [], started = [], finished = []\<rparr>"

inductive worker_step :: "('f, 'a) pool_run \<Rightarrow> ('f, 'a) pool_run \<Rightarrow> bool" where
  locked: "i < num_threads (pool r) \<Longrightarrow> workers (pool r) ! i = W_Ready \<Longrightarrow> worker_section (pool r) = (x, p) \<Longrightarrow>
    worker_step r (r\<lparr>pool := set_worker i x p,
      started := started r @ task_of x\<rparr>)"
| woken: "i < num_threads (pool r) \<Longrightarrow> workers (pool r) ! i = W_Waiting \<Longrightarrow>
    worker_step r (r\<lparr>pool := set_worker i W_Ready (pool r)\<rparr>)"
| ran: "i < num_threads (pool r) \<Longrightarrow> workers (pool r) ! i = W_Running t \<Longrightarrow>
    worker_step r (r\<lparr>pool := set_worker i W_Ready (pool r), finished := finished r @ [t]\<rparr>)"

inductive pool_step :: "('f, 'a) pool_run \<Rightarrow> ('f, 'a) pool_run \<Rightarrow> bool" where
  work: "worker_step r r' \<Longrightarrow> pool_step r r'"
| submit: "signal_ok js (workers (pool r)) \<Longrightarrow> thread_pool_submit js f a (pool r) = (res, p) \<Longrightarrow>
    pool_step r (r\<lparr>pool := p,
      accepted := (if res = KV_OK then accepted r @ [\<lparr>task_function = f, task_arg = a\<rparr>] else accepted r)\<rparr>)"
| stop: "pool_step r (r\<lparr>pool := begin_shutdown (pool r)\<rparr>)"

inductive pool_reachable :: "nat \<Rightarrow> nat \<Rightarrow> ('f, 'a) pool_run \<Rightarrow> bool" where
  create: "thread_pool_create n cap alloc_ok mutex_ok cond_ok spawn_ok null = Some p \<Longrightarrow>
    pool_reachable n cap (fresh_run p)"
| step: "pool_reachable n cap r \<Longrightarrow> pool_step r r' \<Longrightarrow> pool_reachable n cap r'"

inductive_cases worker_stepE: "worker_step r r'"
inductive_cases pool_stepE: "pool_step r r'"

section \<open>The invariant\<close>

definition running :: "('f, 'a) worker list \<Rightarrow> ('f, 'a) task_t multiset" where
  "running ws = mset (concat (map task_of ws))"

definition awake :: "('f, 'a) worker list \<Rightarrow> bool" where
  "awake ws \<longleftrightarrow> (\<exists>x\<in>set ws. x \<noteq> W_Waiting)"

definition pool_inv :: "nat \<Rightarrow> nat \<Rightarrow> ('f, 'a) pool_run \<Rightarrow> bool" where
  "pool_inv n cap r \<longleftrightarrow>
     (let p = pool r in
      0 < n \<and> num_threads p = n \<and> length (workers p) = n \<and> queue_capacity p = cap \<and> ring_ok p \<and>
      accepted r = started r @ pending p \<and>
      mset (started r) = mset (finished r) + running (workers p) \<and>
      (shutdown p \<longrightarrow> W_Waiting \<notin> set (workers p)) \<and>
      (W_Exited \<in> set (workers p) \<longrightarrow> shutdown p \<and> queue_count p = 0) \<and>
      (queue_count p > 0 \<longrightarrow> awake (workers p)))"

lemma wake_sel [simp]: "length (wake js ws) = length ws"
  "i < length ws \<Longrightarrow> wake js ws ! i = (if i \<in> set js \<and> ws ! i = W_Waiting then W_Ready else ws ! i)"
  by (simp_all add: wake_def)

lemma running_append [simp]: "running (xs @ ys) = running xs + running ys"
  by (simp add: running_def)

lemma running_Cons [simp]: "running [] = {#}" "running (x # xs) = mset (task_of x) + running xs"
  by (simp_all add: running_def)

lemma running_update:
  assumes "i < length ws"
  shows "running (ws[i := x]) + mset (task_of (ws ! i)) = running ws + mset (task_of x)"
proof -
  have "running (take i ws @ ws ! i # drop (Suc i) ws) = running (take i ws) + (mset (task_of (ws ! i)) + running (drop (Suc i) ws))"
    by simp
  then have "running ws = running (take i ws) + (mset (task_of (ws ! i)) + running (drop (Suc i) ws))"
    by (simp only: id_take_nth_drop [OF assms, symmetric])
  moreover have "running (ws[i := x]) = running (take i ws) + (mset (task_of x) + running (drop (Suc i) ws))"
    by (simp add: upd_conv_take_nth_drop [OF assms])
  ultimately show ?thesis by simp
qed

lemma running_wake: "running (wake js ws) = running ws"
proof -
  have "map task_of (wake js ws) = map task_of ws" by (rule nth_equalityI) auto
  then show ?thesis by (simp add: running_def)
qed

lemma set_wake: "x \<in> set (wake js ws) \<Longrightarrow> x = W_Ready \<or> x \<in> set ws"
  by (auto simp: wake_def split: if_splits)

lemma wake_all: "W_Waiting \<notin> set (wake [0..<length ws] ws)"
  by (auto simp: wake_def split: if_splits)

lemma signal_wakes:
  assumes "signal_ok js ws" and "ws \<noteq> []"
  shows "awake (wake js ws)"
proof (cases "\<exists>i < length ws. ws ! i = W_Waiting")
  case True
  then obtain i where "i \<in> set js" "i < length ws" "ws ! i = W_Waiting"
    using assms(1) by (auto simp: signal_ok_def)
  then have "wake js ws ! i = W_Ready" "i < length (wake js ws)" by simp_all
  then show ?thesis unfolding awake_def by (metis nth_mem worker.distinct(1))
next
  case False
  then have "wake js ws ! 0 \<noteq> W_Waiting" "0 < length (wake js ws)" using assms(2) by auto
  then show ?thesis unfolding awake_def by (metis nth_mem)
qed

lemma pool_inv_create:
  assumes "thread_pool_create n cap alloc_ok mutex_ok cond_ok spawn_ok null = Some p"
  shows "pool_inv n cap (fresh_run p)"
proof -
  have "running (replicate n W_Ready) = {#}" by (induction n) simp_all
  then show ?thesis
    using assms by (auto simp: pool_inv_def fresh_run_def thread_pool_create_def ring_ok_def pending_def split: if_splits)
qed

lemma set_worker_sel [simp]:
  "num_threads (set_worker i x p) = num_threads p" "queue_count (set_worker i x p) = queue_count p"
  "queue_capacity (set_worker i x p) = queue_capacity p" "shutdown (set_worker i x p) = shutdown p"
  "workers (set_worker i x p) = (workers p)[i := x]" "pending (set_worker i x p) = pending p"
  "ring_ok (set_worker i x p) = ring_ok p"
  by (simp_all add: set_worker_def pending_def ring_ok_def)

text \<open>The three ways out of the locked section.\<close>

lemma worker_section_cases [consumes 1]:
  assumes "ring_ok p"
  obtains (sleep) "queue_count p = 0" "\<not> shutdown p" "worker_section p = (W_Waiting, p)"
  | (leave) "queue_count p = 0" "shutdown p" "worker_section p = (W_Exited, p)"
  | (take) t p' where "worker_section p = (W_Running t, p')" "ring_ok p'" "pending p = t # pending p'"
      "queue_count p = Suc (queue_count p')" "workers p' = workers p" "num_threads p' = num_threads p"
      "queue_capacity p' = queue_capacity p" "shutdown p' = shutdown p"
proof (cases "dequeue p")
  case None
  then have "queue_count p = 0" by (simp add: dequeue_def split: if_splits)
  then show ?thesis using sleep leave by (auto simp: worker_section_def)
next
  case (Some tp)
  then obtain t p' where d: "dequeue p = Some (t, p')" by (cases tp) auto
  note r = dequeue_pending [OF assms d]
  have "queue_count p \<noteq> 0" using d by (auto simp: dequeue_def split: if_splits)
  moreover have "workers p' = workers p" "num_threads p' = num_threads p" "queue_capacity p' = queue_capacity p"
    "shutdown p' = shutdown p" using d by (auto simp: dequeue_def split: if_splits)
  moreover have "queue_count p = Suc (queue_count p')" using arg_cong [OF r(2), of length] by simp
  ultimately show ?thesis using take [of t p'] d r by (simp add: worker_section_def)
qed

text \<open>Setting a worker that was awake: the awake ones stay, sleepers and leavers are checked.\<close>

lemma set_worker_set:
  "i < length ws \<Longrightarrow> x \<in> set (ws[i := y]) \<Longrightarrow> x = y \<or> x \<in> set ws"
  using set_update_subset_insert by fastforce

lemma awake_update [simp]: "i < length ws \<Longrightarrow> y \<noteq> W_Waiting \<Longrightarrow> awake (ws[i := y])"
  unfolding awake_def by (rule bexI [of _ y]) (simp_all add: set_update_memI)

lemma pool_inv_worker:
  assumes "pool_inv n cap r" and "worker_step r r'"
  shows "pool_inv n cap r'"
  using assms(2)
proof cases
  case (locked i x p)
  have inv: "0 < n" "num_threads (pool r) = n" "length (workers (pool r)) = n" "ring_ok (pool r)"
    using assms(1) by (simp_all add: pool_inv_def Let_def)
  note run = running_update [of i "workers (pool r)" x, unfolded locked(3)]
  from inv(4) show ?thesis
  proof (cases rule: worker_section_cases)
    case sleep
    then show ?thesis using assms(1) locked run by (auto simp: pool_inv_def Let_def dest!: set_worker_set [rotated])
  next
    case leave
    then show ?thesis using assms(1) locked run by (auto simp: pool_inv_def Let_def dest!: set_worker_set [rotated])
  next
    case (take t p')
    then have x: "x = W_Running t" "p = p'" using locked(4) by simp_all
    then show ?thesis
      using assms(1) locked run take by (auto simp: pool_inv_def Let_def dest!: set_worker_set [rotated])
  qed
next
  case (woken i)
  show ?thesis
    using assms(1) woken running_update [of i "workers (pool r)" W_Ready, unfolded woken(3)]
    by (auto simp: pool_inv_def Let_def dest!: set_worker_set [rotated])
next
  case (ran i t)
  show ?thesis
    using assms(1) ran running_update [of i "workers (pool r)" W_Ready, unfolded ran(3)]
    by (auto simp: pool_inv_def Let_def dest!: set_worker_set [rotated])
qed

lemma pool_inv_submit:
  assumes "pool_inv n cap r" and "signal_ok js (workers (pool r))"
    and "thread_pool_submit js f a (pool r) = (res, p)"
  shows "pool_inv n cap (r\<lparr>pool := p,
    accepted := (if res = KV_OK then accepted r @ [\<lparr>task_function = f, task_arg = a\<rparr>] else accepted r)\<rparr>)"
proof (cases "res = KV_OK")
  case False
  then have "p = pool r" using assms(3) by (auto simp: thread_pool_submit_def split: if_splits)
  then show ?thesis using assms(1) False by (simp add: pool_inv_def)
next
  case True
  let ?t = "\<lparr>task_function = f, task_arg = a\<rparr>"
  have p: "p = (enqueue ?t (pool r))\<lparr>workers := wake js (workers (pool r))\<rparr>" "\<not> shutdown (pool r)"
    "queue_count (pool r) < queue_capacity (pool r)"
    using assms(3) True by (auto simp: thread_pool_submit_def split: if_splits)
  have inv: "0 < n" "num_threads (pool r) = n" "length (workers (pool r)) = n" "queue_capacity (pool r) = cap"
    "ring_ok (pool r)" "W_Exited \<notin> set (workers (pool r))"
    using assms(1) p(2) by (auto simp: pool_inv_def Let_def)
  note e = enqueue_pending [OF inv(5) p(3), of ?t]
  have "ring_ok p" "pending p = pending (pool r) @ [?t]" "workers p = wake js (workers (pool r))"
    "shutdown p = shutdown (pool r)" "num_threads p = n" "queue_capacity p = cap"
    using e inv by (simp_all add: p(1) ring_ok_def pending_def) (simp_all add: enqueue_def)
  moreover have "awake (wake js (workers (pool r)))" using signal_wakes [OF assms(2)] inv by force
  moreover have "W_Exited \<notin> set (wake js (workers (pool r)))" using set_wake inv(6) by blast
  ultimately show ?thesis
    using assms(1) True p(2) by (auto simp: pool_inv_def Let_def running_wake)
qed

lemma pool_inv_stop:
  assumes "pool_inv n cap r"
  shows "pool_inv n cap (r\<lparr>pool := begin_shutdown (pool r)\<rparr>)"
proof -
  let ?ws = "wake [0..<length (workers (pool r))] (workers (pool r))"
  have p: "ring_ok (begin_shutdown (pool r)) = ring_ok (pool r)" "pending (begin_shutdown (pool r)) = pending (pool r)"
    "workers (begin_shutdown (pool r)) = ?ws" "shutdown (begin_shutdown (pool r))"
    "num_threads (begin_shutdown (pool r)) = num_threads (pool r)"
    "queue_count (begin_shutdown (pool r)) = queue_count (pool r)"
    "queue_capacity (begin_shutdown (pool r)) = queue_capacity (pool r)"
    by (simp_all add: begin_shutdown_def ring_ok_def pending_def)
  have "?ws \<noteq> []" using assms by (auto simp: pool_inv_def Let_def wake_def)
  then have "hd ?ws \<in> set ?ws" by simp
  then have "awake ?ws" unfolding awake_def using wake_all [of "workers (pool r)"] by metis
  moreover have "W_Exited \<in> set ?ws \<longrightarrow> W_Exited \<in> set (workers (pool r))" using set_wake [of W_Exited] by blast
  ultimately show ?thesis
    using assms wake_all [of "workers (pool r)"] by (simp add: pool_inv_def Let_def p running_wake)
qed

lemma pool_inv_reachable: "pool_reachable n cap r \<Longrightarrow> pool_inv n cap r"
proof (induction rule: pool_reachable.induct)
  case create
  then show ?case by (rule pool_inv_create)
next
  case (step n cap r r')
  from step.hyps(2) step.IH show ?case
    by cases (use pool_inv_worker pool_inv_submit pool_inv_stop in \<open>simp_all only:\<close>)
qed

text \<open>After the shutdown every step of a worker brings the end nearer.\<close>

fun effort :: "('f, 'a) worker \<Rightarrow> nat" where
  "effort W_Exited = 0"
| "effort W_Ready = 1"
| "effort W_Waiting = 2"
| "effort (W_Running t) = 2"

definition variant :: "('f, 'a) thread_pool \<Rightarrow> nat" where
  "variant p = 2 * queue_count p + sum_list (map effort (workers p))"

lemma sum_effort_update:
  "i < length ws \<Longrightarrow> sum_list (map effort (ws[i := x])) + effort (ws ! i) = sum_list (map effort ws) + effort x"
  by (induction ws arbitrary: i) (auto split: nat.split)

lemma shutdown_step_decreases:
  assumes "pool_inv n cap r" and "shutdown (pool r)" and "worker_step r r'"
  shows "shutdown (pool r') \<and> variant (pool r') < variant (pool r)"
  using assms(3)
proof cases
  case (locked i x p)
  have inv: "length (workers (pool r)) = num_threads (pool r)" "ring_ok (pool r)"
    using assms(1) by (simp_all add: pool_inv_def Let_def)
  note e = sum_effort_update [of i "workers (pool r)" x, unfolded locked(3)]
  from inv(2) show ?thesis
    by (cases rule: worker_section_cases) (use assms(2) locked e inv in \<open>auto simp: variant_def\<close>)
next
  case (woken i)
  then have "W_Waiting \<in> set (workers (pool r))" using assms(1) by (auto simp: pool_inv_def Let_def in_set_conv_nth)
  then show ?thesis using assms(1,2) by (simp add: pool_inv_def Let_def)
next
  case (ran i t)
  then show ?thesis
    using assms(1,2) sum_effort_update [of i "workers (pool r)" W_Ready, unfolded ran(3)]
    by (auto simp: pool_inv_def Let_def variant_def)
qed

lemma worker_can_move:
  assumes "ring_ok (pool r)" and "i < num_threads (pool r)" and "workers (pool r) ! i \<noteq> W_Exited"
  shows "\<exists>r'. worker_step r r'"
proof (cases "workers (pool r) ! i")
  case W_Ready
  then show ?thesis using assms(2) worker_step.locked [of i r] by (metis prod.collapse)
qed (use assms in \<open>auto intro: worker_step.intros\<close>)

section \<open>Properties\<close>

text \<open>C13. In every state the pool can reach, whatever the interleaving of its callers and workers,
  the tasks were taken in the order in which they were accepted, each of them once: what was
  accepted is what was started followed by what the ring buffer holds, what was started is
  finished or being run, and the buffer never holds more than its capacity.\<close>

theorem pool_runs_in_order:
  assumes "pool_reachable n cap r"
  shows "accepted r = started r @ pending (pool r) \<and>
    mset (started r) = mset (finished r) + running (workers (pool r)) \<and> length (pending (pool r)) \<le> cap"
  using pool_inv_reachable [OF assms] by (simp_all add: pool_inv_def Let_def ring_ok_def)

definition one_worker :: "(nat, nat) thread_pool" where
  "one_worker = \<lparr>workers = [W_Ready], num_threads = 1, queue = [\<lparr>task_function = None, task_arg = 0\<rparr>],
     queue_capacity = 1, queue_head = 0, queue_tail = 0, queue_count = 0, shutdown = False\<rparr>"

lemma one_worker_reachable: "pool_reachable 1 1 (fresh_run one_worker)"
  by (rule pool_reachable.create [where alloc_ok = "\<lambda>_. True" and mutex_ok = True and cond_ok = True
        and spawn_ok = "\<lambda>_. True" and null = 0])
    (simp add: thread_pool_create_def one_worker_def)

definition one_task :: "(nat, nat) pool_run" where
  "one_task = \<lparr>pool = (snd (thread_pool_submit [] (Some 5) 7 one_worker)),
     accepted = [\<lparr>task_function = Some 5, task_arg = 7\<rparr>], started = [], finished = []\<rparr>"

lemma one_task_reachable: "pool_reachable 1 1 one_task"
proof -
  have "pool_step (fresh_run one_worker) one_task"
    using pool_step.submit [of "[]" "fresh_run one_worker" "Some 5" 7 KV_OK "pool one_task"]
    by (simp add: fresh_run_def one_task_def one_worker_def signal_ok_def thread_pool_submit_def)
  with one_worker_reachable show ?thesis by (rule pool_reachable.step)
qed

theorem pool_runs_in_order_witness:
  "accepted one_task = started one_task @ pending (pool one_task) \<and> pending (pool one_task) = [\<lparr>task_function = Some 5, task_arg = 7\<rparr>]"
  using pool_runs_in_order [OF one_task_reachable] by (simp add: one_task_def)

text \<open>C14. No wake-up is lost: whenever the queue holds a task, some worker is awake, that is, about
  to look at the queue or running a task after which it will. The pool never sleeps on work.\<close>

theorem pool_never_sleeps_on_work:
  assumes "pool_reachable n cap r" and "queue_count (pool r) > 0"
  shows "\<exists>i<n. workers (pool r) ! i = W_Ready \<or> (\<exists>t. workers (pool r) ! i = W_Running t)"
proof -
  have inv: "awake (workers (pool r))" "W_Exited \<notin> set (workers (pool r))" "length (workers (pool r)) = n"
    using pool_inv_reachable [OF assms(1)] assms(2) by (auto simp: pool_inv_def Let_def)
  then obtain i where "i < n" "workers (pool r) ! i \<noteq> W_Waiting" "workers (pool r) ! i \<noteq> W_Exited"
    by (auto simp: awake_def in_set_conv_nth)
  then show ?thesis by (cases "workers (pool r) ! i") auto
qed

theorem pool_never_sleeps_on_work_witness:
  "queue_count (pool one_task) = 1 \<and>
   (\<exists>i<1. workers (pool one_task) ! i = W_Ready \<or> (\<exists>t. workers (pool one_task) ! i = W_Running t))"
proof -
  have "queue_count (pool one_task) = 1"
    by (simp add: one_task_def one_worker_def thread_pool_submit_def enqueue_def)
  with pool_never_sleeps_on_work [OF one_task_reachable] show ?thesis by simp
qed

text \<open>C15. \<^verbatim>\<open>thread_pool_destroy\<close> drains the queue and comes back, provided the tasks do: after it has
  set the flag, a worker can move as long as one is left, every move of a worker decreases a
  number, and when all workers are gone every task that was ever accepted has been run.\<close>

theorem pool_shutdown_drains:
  assumes "pool_reachable n cap r" and "shutdown (pool r)"
  shows "(\<not> joined (pool r) \<longrightarrow> (\<exists>r'. worker_step r r')) \<and>
    (\<forall>r'. worker_step r r' \<longrightarrow> shutdown (pool r') \<and> variant (pool r') < variant (pool r)) \<and>
    (joined (pool r) \<longrightarrow> started r = accepted r \<and> mset (finished r) = mset (accepted r))"
proof (intro conjI)
  note inv = pool_inv_reachable [OF assms(1)]
  show "\<not> joined (pool r) \<longrightarrow> (\<exists>r'. worker_step r r')"
    using inv worker_can_move [of r] by (auto simp: joined_def list_all_iff pool_inv_def Let_def)
  show "\<forall>r'. worker_step r r' \<longrightarrow> shutdown (pool r') \<and> variant (pool r') < variant (pool r)"
    using shutdown_step_decreases [OF inv assms(2)] by blast
  show "joined (pool r) \<longrightarrow> started r = accepted r \<and> mset (finished r) = mset (accepted r)"
  proof
    assume "joined (pool r)"
    then have all: "\<forall>x\<in>set (workers (pool r)). x = W_Exited" "workers (pool r) \<noteq> []"
      using inv by (auto simp: joined_def list_all_iff pool_inv_def Let_def in_set_conv_nth)
    then have "W_Exited \<in> set (workers (pool r))" by (metis list.set_sel(1))
    then have "queue_count (pool r) = 0" using inv by (simp add: pool_inv_def Let_def)
    then have "pending (pool r) = []" by (simp add: pending_def)
    moreover have "running (workers (pool r)) = {#}" using all(1) by (induction "workers (pool r)") (auto simp: running_def)
    ultimately show "started r = accepted r \<and> mset (finished r) = mset (accepted r)"
      using inv by (simp add: pool_inv_def Let_def)
  qed
qed

theorem pool_shutdown_drains_witness:
  "\<exists>r. shutdown (pool r) \<and> \<not> joined (pool r) \<and> (\<exists>r'. worker_step (r :: (nat, nat) pool_run) r')"
proof -
  let ?r = "one_task\<lparr>pool := begin_shutdown (pool one_task)\<rparr>"
  have "pool_reachable 1 1 ?r" using one_task_reachable pool_step.stop by (rule pool_reachable.step)
  moreover have s: "shutdown (pool ?r)" "\<not> joined (pool ?r)"
    by (simp_all add: one_task_def one_worker_def thread_pool_submit_def enqueue_def begin_shutdown_def joined_def wake_def)
  ultimately show ?thesis using pool_shutdown_drains by blast
qed

end
