(* ===== verification/KV_Server.thy ===== *)
theory KV_Server
  imports KV_Protocol KV_Pool
begin

text \<open>
  The network server (\<^verbatim>\<open>src/server.c\<close>): client records with reference counts, the event loop, and
  the worker threads that execute the commands of a client. What runs while a lock is held, or
  between two operations that another thread can observe, is one step; the steps of the loop
  and of the workers interleave in any order. The answers of the kernel (received bytes, accepted
  sockets, results of \<^verbatim>\<open>send\<close>, exit states of children) label the steps. A step that follows a pointer
  to a client that has been freed ends the run with the use of freed memory.
\<close>

abbreviation (input) SERVER_MAX_CLIENTS :: nat where "SERVER_MAX_CLIENTS \<equiv> 1024"
abbreviation (input) SERVER_MAX_LINE_LEN :: nat where "SERVER_MAX_LINE_LEN \<equiv> 8192"
abbreviation (input) SERVER_READ_BUF_SIZE :: nat where "SERVER_READ_BUF_SIZE \<equiv> 16384"
abbreviation (input) SERVER_DEFAULT_WORKERS :: nat where "SERVER_DEFAULT_WORKERS \<equiv> 4"
abbreviation (input) SERVER_DEFAULT_QUEUE_SIZE :: nat where "SERVER_DEFAULT_QUEUE_SIZE \<equiv> 1024"

section \<open>State\<close>

record server_client =
  c_fd :: int
  read_buf :: string
  c_closed :: bool
  cmd_queue :: "string list"
  task_in_flight :: bool
  ref_count :: int

text \<open>A job of the pool is a client's command queue or the sweep for expired keys.\<close>

datatype job = Client_task | Sweep_task

text \<open>Where the event loop is, and where a worker is inside its job.\<close>

datatype loop_pc = Waiting | Found nat | Framing nat

datatype thread =
    T_Idle | T_Loop nat | T_Exec nat string | T_Reply nat reply | T_Close nat | T_Release nat | T_Sweep | T_Done

text \<open>The server. Clients are numbered; \<open>heap\<close> holds those that are allocated. The last fields
  record what happened: the lines received and executed for each client, the clients whose job
  the pool refused, and the descriptors accepted, closed and handed to replication.\<close>

record server =
  listen_fd :: int
  epoll_fd :: int
  shutdown_fd :: int
  timer_fd :: int
  port :: nat
  sv_running :: bool
  clients :: "nat list"
  client_count :: nat
  sv_pool :: "(job, nat) pool_run"
  heap :: "nat \<Rightarrow> server_client option"
  next_client :: nat
  threads :: "thread list"
  loop :: loop_pc
  world_of :: world
  crashed :: "undefined_behaviour option"
  received :: "nat \<Rightarrow> string list"
  executed :: "nat \<Rightarrow> string list"
  refused :: "nat set"
  watched :: "int list"
  opened_sockets :: "int list"
  closed_sockets :: "int list"
  detached_sockets :: "int list"

definition put :: "nat \<Rightarrow> server_client \<Rightarrow> server \<Rightarrow> server" where
  "put c cl s = s\<lparr>heap := (heap s)(c := Some cl)\<rparr>"

definition with_client :: "nat \<Rightarrow> (server_client \<Rightarrow> server) \<Rightarrow> server \<Rightarrow> server" where
  "with_client c act s = (case heap s c of None \<Rightarrow> s\<lparr>crashed := Some Use_After_Free\<rparr> | Some cl \<Rightarrow> act cl)"

section \<open>Sending\<close>

text \<open>What \<^verbatim>\<open>send\<close> answers: a number of bytes, an interruption or a full socket, or an error.\<close>

datatype send_result = Sent nat | Send_again | Send_failed

text \<open>\<open>None\<close>: the answers listed so far do not let the loop end.\<close>

fun server_send_all :: "send_result list \<Rightarrow> string \<Rightarrow> (int \<times> string) option" where
  "server_send_all [] buf = (if buf = [] then Some (0, []) else None)"
| "server_send_all (r # rs) buf =
     (if buf = [] then Some (0, [])
      else
        (case r of
           Send_again \<Rightarrow> server_send_all rs buf
         | Send_failed \<Rightarrow> Some (-1, [])
         | Sent n \<Rightarrow> if n = 0 then Some (-1, [])
                    else map_option (apsnd (append (take n buf))) (server_send_all rs (drop n buf))))"

section \<open>Clients\<close>

definition drop_ref :: "nat \<Rightarrow> server_client \<Rightarrow> server \<Rightarrow> server" where
  "drop_ref c cl s =
     (let cl1 = cl\<lparr>ref_count := ref_count cl - 1\<rparr>
      in s\<lparr>heap := (heap s)(c := (if ref_count cl1 = 0 then None else Some cl1))\<rparr>)"

definition client_release_ref :: "nat \<Rightarrow> server \<Rightarrow> server" where
  "client_release_ref c s = with_client c (\<lambda>cl. drop_ref c cl s) s"

definition epoll_del :: "int \<Rightarrow> server \<Rightarrow> server" where
  "epoll_del fd s = (if epoll_fd s \<ge> 0 then s\<lparr>watched := remove1 fd (watched s)\<rparr> else s)"

definition close_socket :: "int \<Rightarrow> server \<Rightarrow> server" where
  "close_socket fd s = s\<lparr>closed_sockets := closed_sockets s @ [fd]\<rparr>"

definition unlink_client :: "nat \<Rightarrow> server \<Rightarrow> server" where
  "unlink_client c s =
     (if c \<in> set (clients s)
      then s\<lparr>clients := remove1 c (clients s),
             client_count := (if client_count s > 0 then client_count s - 1 else client_count s)\<rparr>
      else s)"

definition server_close_client :: "nat \<Rightarrow> server \<Rightarrow> server" where
  "server_close_client c s =
     with_client c (\<lambda>cl.
       if c_fd cl < 0 then s
       else drop_ref c (cl\<lparr>c_closed := True, c_fd := -1\<rparr>)
              (unlink_client c (close_socket (c_fd cl) (epoll_del (c_fd cl) s)))) s"

fun find_client :: "int \<Rightarrow> nat list \<Rightarrow> (nat \<Rightarrow> server_client option) \<Rightarrow> undefined_behaviour + nat option" where
  "find_client fd [] h = Inr None"
| "find_client fd (c # cs) h =
     (case h c of
        None \<Rightarrow> Inl Use_After_Free
      | Some cl \<Rightarrow> if c_fd cl = fd then Inr (Some c) else find_client fd cs h)"

definition server_find_client :: "int \<Rightarrow> server \<Rightarrow> undefined_behaviour + nat option" where
  "server_find_client fd s = find_client fd (clients s) (heap s)"

section \<open>Submitting work\<close>

text \<open>\<open>js\<close> are the sleeping workers the signal wakes.\<close>

definition submit_job :: "nat list \<Rightarrow> job \<Rightarrow> nat \<Rightarrow> server \<Rightarrow> int \<times> server" where
  "submit_job js f a s =
     (let (rc, p) = thread_pool_submit js (Some f) a (pool (sv_pool s))
      in (rc, s\<lparr>sv_pool := (sv_pool s)\<lparr>pool := p,
            accepted := (if rc = KV_OK then accepted (sv_pool s) @ [\<lparr>task_function = Some f, task_arg = a\<rparr>]
                         else accepted (sv_pool s))\<rparr>\<rparr>))"

section \<open>Reading\<close>

datatype recv_result = Received string | Would_block | Recv_failed

text \<open>\<^verbatim>\<open>recv\<close> takes no more than the buffer has room for and leaves the rest in the socket; an empty
  answer is the end of the stream. No further answer means that the socket is empty.\<close>

function recv_loop :: "recv_result list \<Rightarrow> string \<Rightarrow> int \<times> string" where
  "recv_loop rs buf =
     (if length buf \<ge> SERVER_READ_BUF_SIZE then (-1, buf)
      else
        (case rs of
           [] \<Rightarrow> (0, buf)
         | Would_block # _ \<Rightarrow> (0, buf)
         | Recv_failed # _ \<Rightarrow> (-1, buf)
         | Received bs # rs' \<Rightarrow>
             if bs = [] then (-1, buf)
             else
               (let avail = SERVER_READ_BUF_SIZE - length buf
                in recv_loop (if length bs > avail then Received (drop avail bs) # rs' else rs') (buf @ take avail bs))))"
  by pat_completeness auto
termination
  by (relation "measure (\<lambda>(rs, buf). SERVER_READ_BUF_SIZE - length buf)") (auto simp: neq_Nil_conv)

declare recv_loop.simps [simp del]

text \<open>The first line of the buffer, without its line ending.\<close>

datatype framed = No_line | Too_long | Line string string

definition next_line :: "string \<Rightarrow> framed" where
  "next_line buf =
     (case split_at nl buf of
        None \<Rightarrow> if length buf \<ge> SERVER_MAX_LINE_LEN then Too_long else No_line
      | Some (l, rest) \<Rightarrow>
          if length l > SERVER_MAX_LINE_LEN then Too_long
          else Line (if l \<noteq> [] \<and> last l = cr then butlast l else l) rest)"

text \<open>A received command joins the client's queue; the first one of an idle client also needs a
  job in the pool, which holds a reference of its own.\<close>

definition enqueue_cmd :: "nat list \<Rightarrow> nat \<Rightarrow> string \<Rightarrow> server_client \<Rightarrow> server \<Rightarrow> server" where
  "enqueue_cmd js c cmd cl s =
     (let cl1 = cl\<lparr>cmd_queue := cmd_queue cl @ [cmd]\<rparr>;
          s1 = s\<lparr>received := (received s)(c := received s c @ [cmd])\<rparr>
      in if \<not> task_in_flight cl1 \<and> \<not> c_closed cl1
         then
           (let (rc, s2) = submit_job js Client_task c s1
            in if rc \<noteq> KV_OK then put c cl1 (s2\<lparr>refused := insert c (refused s2)\<rparr>)
               else put c (cl1\<lparr>task_in_flight := True, ref_count := ref_count cl1 + 1\<rparr>)
                      (s2\<lparr>refused := refused s2 - {c}\<rparr>))
         else put c cl1 s1)"

definition read_client :: "recv_result list \<Rightarrow> nat \<Rightarrow> server \<Rightarrow> server" where
  "read_client rs c s =
     with_client c (\<lambda>cl.
       let (rc, buf) = recv_loop rs (read_buf cl);
           s1 = put c (cl\<lparr>read_buf := buf\<rparr>) s
       in if rc \<noteq> 0 then (server_close_client c s1)\<lparr>loop := Waiting\<rparr> else s1\<lparr>loop := Framing c\<rparr>) s"

definition frame_line :: "nat list \<Rightarrow> bool \<Rightarrow> nat \<Rightarrow> server \<Rightarrow> server" where
  "frame_line js alloc_ok c s =
     with_client c (\<lambda>cl.
       case next_line (read_buf cl) of
         No_line \<Rightarrow> s\<lparr>loop := Waiting\<rparr>
       | Too_long \<Rightarrow> (server_close_client c s)\<lparr>loop := Waiting\<rparr>
       | Line cmd rest \<Rightarrow>
           if \<not> alloc_ok then (server_close_client c s)\<lparr>loop := Waiting\<rparr>
           else enqueue_cmd js c cmd (cl\<lparr>read_buf := rest\<rparr>) s) s"

section \<open>Workers\<close>

text \<open>The locked section at the head of \<^verbatim>\<open>server_worker_client_task\<close>'s loop.\<close>

definition task_next :: "nat \<Rightarrow> server_client \<Rightarrow> server \<Rightarrow> thread \<times> server" where
  "task_next c cl s =
     (if c_closed cl \<or> cmd_queue cl = [] then (T_Release c, put c (cl\<lparr>task_in_flight := False\<rparr>) s)
      else (T_Exec c (hd (cmd_queue cl)), put c (cl\<lparr>cmd_queue := tl (cmd_queue cl)\<rparr>) s))"

text \<open>Executing a command. The response buffer has 128 bytes more than a line.\<close>

definition task_execute :: "int \<Rightarrow> bool \<Rightarrow> nat \<Rightarrow> string \<Rightarrow> server_client \<Rightarrow> server \<Rightarrow> thread \<times> server" where
  "task_execute pid exited c line cl s =
     (case protocol_execute_command (SERVER_MAX_LINE_LEN + 128) pid exited (c_fd cl) line (world_of s) of
        Inl ub \<Rightarrow> (T_Exec c line, s\<lparr>crashed := Some ub\<rparr>)
      | Inr (r, w) \<Rightarrow> (T_Reply c r, s\<lparr>world_of := w, executed := (executed s)(c := executed s c @ [line])\<rparr>))"

text \<open>The locked section that sends the reply and detaches a replica. A reply that claims more
  bytes than were written is read past its end. \<open>None\<close>: \<^verbatim>\<open>server_send_all\<close> has not returned.\<close>

definition task_reply :: "send_result list \<Rightarrow> nat \<Rightarrow> reply \<Rightarrow> server_client \<Rightarrow> server \<Rightarrow> (thread \<times> server) option" where
  "task_reply rs c r cl s =
     (let sends = (\<not> c_closed cl \<and> c_fd cl \<ge> 0 \<and> r_len r > 0)
      in if sends \<and> r_len r \<noteq> length (r_bytes r) then Some (T_Reply c r, s\<lparr>crashed := Some Buffer_Overflow\<rparr>)
         else
           (case (if sends then server_send_all rs (r_bytes r) else Some (0, [])) of
              None \<Rightarrow> None
            | Some (rc, out) \<Rightarrow>
                (let do_close = (rc \<noteq> 0 \<or> r_close r);
                     s1 = (if r_detach r \<and> c_fd cl \<ge> 0
                           then (epoll_del (c_fd cl) s)\<lparr>detached_sockets := detached_sockets s @ [c_fd cl]\<rparr> else s);
                     s2 = (if r_detach r then put c (cl\<lparr>c_fd := -1\<rparr>) s1 else s1)
                 in Some (if r_detach r \<or> do_close then T_Close c else T_Loop c, s2))))"

section \<open>The event loop\<close>

definition accept_client :: "int \<Rightarrow> bool \<Rightarrow> bool \<Rightarrow> server \<Rightarrow> server" where
  "accept_client fd alloc_ok epoll_ok s =
     (let s0 = s\<lparr>opened_sockets := opened_sockets s @ [fd]\<rparr>
      in if client_count s \<ge> SERVER_MAX_CLIENTS then close_socket fd s0
         else if \<not> alloc_ok then close_socket fd s0
         else
           (let c = next_client s;
                cl = \<lparr>c_fd = fd, read_buf = [], c_closed = False, cmd_queue = [], task_in_flight = False, ref_count = 1\<rparr>;
                s1 = put c cl (s0\<lparr>next_client := c + 1, clients := c # clients s, client_count := client_count s + 1\<rparr>)
            in if \<not> epoll_ok then server_close_client c s1 else s1\<lparr>watched := fd # watched s1\<rparr>))"

text \<open>A child that ended: \<open>code\<close> is its exit code, or nothing after a signal, and \<open>tmp\<close> what it wrote.\<close>

definition reap_child :: "int \<Rightarrow> int option \<Rightarrow> string \<Rightarrow> world \<Rightarrow> world" where
  "reap_child p code tmp w =
     (if p = bgsave_pid (st w) then w\<lparr>st := (st w)\<lparr>bgsave_pid := 0\<rparr>\<rparr>
      else if p = aof_rewrite_pid (aof w)
      then if code = Some 0 then snd (kv_merge_aof_rewrite p tmp w) else kv_discard_aof_rewrite w
      else w)"

text \<open>Entering the event loop, and the request to leave it.\<close>

definition run_begin :: "server \<Rightarrow> server" where
  "run_begin s = s\<lparr>sv_running := True\<rparr>"

definition server_stop :: "server \<Rightarrow> server" where
  "server_stop s = s\<lparr>sv_running := False\<rparr>"

section \<open>Shutting down\<close>

text \<open>\<^verbatim>\<open>server_destroy\<close> first stops the pool; when every worker is gone it frees the clients and closes
  the descriptors.\<close>

definition destroy_begin :: "server \<Rightarrow> server" where
  "destroy_begin s = s\<lparr>sv_running := False, sv_pool := (sv_pool s)\<lparr>pool := begin_shutdown (pool (sv_pool s))\<rparr>\<rparr>"

definition destroy_client :: "nat \<Rightarrow> server \<Rightarrow> server" where
  "destroy_client c s =
     with_client c (\<lambda>cl.
       let s1 = (if c_fd cl \<ge> 0 then close_socket (c_fd cl) (epoll_del (c_fd cl) s) else s)
       in s1\<lparr>heap := (heap s1)(c := None)\<rparr>) s"

definition close_descriptor :: "int \<Rightarrow> server \<Rightarrow> server" where
  "close_descriptor fd s = (if fd \<ge> 0 then close_socket fd (epoll_del fd s) else s)"

definition server_destroy :: "server \<Rightarrow> server" where
  "server_destroy s =
     (let s1 = (fold destroy_client (clients s) s)\<lparr>clients := [], client_count := 0\<rparr>;
          s2 = (close_descriptor (timer_fd s1) s1)\<lparr>timer_fd := -1\<rparr>;
          s3 = (close_descriptor (shutdown_fd s2) s2)\<lparr>shutdown_fd := -1\<rparr>;
          s4 = (close_descriptor (listen_fd s3) s3)\<lparr>listen_fd := -1\<rparr>
      in if epoll_fd s4 \<ge> 0 then (close_socket (epoll_fd s4) s4)\<lparr>epoll_fd := -1\<rparr> else s4)"

section \<open>Runs\<close>

text \<open>What a worker does with the task it took from the pool.\<close>

fun job_of :: "(job, nat) worker \<Rightarrow> thread" where
  "job_of (W_Running t) =
     (case task_function t of
        None \<Rightarrow> T_Done | Some Client_task \<Rightarrow> T_Loop (task_arg t) | Some Sweep_task \<Rightarrow> T_Sweep)"
| "job_of _ = T_Idle"

definition set_thread :: "nat \<Rightarrow> thread \<times> server \<Rightarrow> server" where
  "set_thread i ts = (snd ts)\<lparr>threads := (threads (snd ts))[i := fst ts]\<rparr>"

definition on_client :: "nat \<Rightarrow> nat \<Rightarrow> (server_client \<Rightarrow> server \<Rightarrow> thread \<times> server) \<Rightarrow> server \<Rightarrow> server" where
  "on_client i c act s = with_client c (\<lambda>cl. set_thread i (act cl s)) s"

text \<open>One step of worker \<open>i\<close>. The answers it may need: \<open>pid\<close> and \<open>exited\<close> for a command that forks,
  \<open>rs\<close> for \<^verbatim>\<open>send\<close>.\<close>

definition thread_step :: "nat \<Rightarrow> int \<Rightarrow> bool \<Rightarrow> send_result list \<Rightarrow> server \<Rightarrow> server option" where
  "thread_step i pid exited rs s =
     (case threads s ! i of
        T_Idle \<Rightarrow> None
      | T_Loop c \<Rightarrow> Some (on_client i c (task_next c) s)
      | T_Exec c line \<Rightarrow> Some (on_client i c (task_execute pid exited c line) s)
      | T_Reply c r \<Rightarrow>
          (case heap s c of
             None \<Rightarrow> Some (s\<lparr>crashed := Some Use_After_Free\<rparr>)
           | Some cl \<Rightarrow> map_option (set_thread i) (task_reply rs c r cl s))
      | T_Close c \<Rightarrow> Some (set_thread i (T_Release c, server_close_client c s))
      | T_Release c \<Rightarrow> Some (set_thread i (T_Done, client_release_ref c s))
      | T_Sweep \<Rightarrow> Some (set_thread i (T_Done, s\<lparr>world_of := eviction_sweep_task (world_of s)\<rparr>))
      | T_Done \<Rightarrow>
          (case workers (pool (sv_pool s)) ! i of
             W_Running t \<Rightarrow>
               Some (set_thread i (T_Idle, s\<lparr>sv_pool := (sv_pool s)\<lparr>pool := set_worker i W_Ready (pool (sv_pool s)),
                       finished := finished (sv_pool s) @ [t]\<rparr>\<rparr>))
           | _ \<Rightarrow> None))"

text \<open>An idle worker takes the pool's lock, or is woken.\<close>

definition pool_take :: "nat \<Rightarrow> server \<Rightarrow> server option" where
  "pool_take i s =
     (let p = pool (sv_pool s)
      in if workers p ! i = W_Ready \<and> threads s ! i = T_Idle
         then (let (x, p') = worker_section p
               in Some (set_thread i (job_of x, s\<lparr>sv_pool := (sv_pool s)\<lparr>pool := set_worker i x p',
                          started := started (sv_pool s) @ task_of x\<rparr>\<rparr>)))
         else None)"

definition pool_wake :: "nat \<Rightarrow> server \<Rightarrow> server option" where
  "pool_wake i s =
     (if workers (pool (sv_pool s)) ! i = W_Waiting
      then Some (s\<lparr>sv_pool := (sv_pool s)\<lparr>pool := set_worker i W_Ready (pool (sv_pool s))\<rparr>\<rparr>) else None)"

text \<open>The events of a run.\<close>

datatype event =
    Take nat | Wake nat | Thread nat int bool "send_result list"
  | Run | Shutdown_event | Stop | Timer "nat list" | Accept int bool bool | Client_event int
  | Hang_up | Readable "recv_result list" | Frame "nat list" bool | Reap int "int option" string
  | Destroy

definition loop_event :: "event \<Rightarrow> server \<Rightarrow> server option" where
  "loop_event e s =
     (case (loop s, e) of
        (Waiting, Shutdown_event) \<Rightarrow> Some (s\<lparr>sv_running := False\<rparr>)
      | (Waiting, Timer js) \<Rightarrow> Some (snd (submit_job js Sweep_task 0 s))
      | (Waiting, Accept fd alloc_ok epoll_ok) \<Rightarrow> if fd < 0 then None else Some (accept_client fd alloc_ok epoll_ok s)
      | (Waiting, Client_event fd) \<Rightarrow>
          (if fd < 0 then None
           else case server_find_client fd s of
                  Inl ub \<Rightarrow> Some (s\<lparr>crashed := Some ub\<rparr>)
                | Inr None \<Rightarrow> Some s
                | Inr (Some c) \<Rightarrow> Some (s\<lparr>loop := Found c\<rparr>))
      | (Waiting, Reap p code tmp) \<Rightarrow> if p > 0 then Some (s\<lparr>world_of := reap_child p code tmp (world_of s)\<rparr>) else None
      | (Found c, Hang_up) \<Rightarrow> Some ((server_close_client c s)\<lparr>loop := Waiting\<rparr>)
      | (Found c, Readable rs) \<Rightarrow> Some (read_client rs c s)
      | (Framing c, Frame js alloc_ok) \<Rightarrow> Some (frame_line js alloc_ok c s)
      | _ \<Rightarrow> None)"

text \<open>A signal wakes a sleeping worker if there is one.\<close>

fun wakes_someone :: "event \<Rightarrow> server \<Rightarrow> bool" where
  "wakes_someone (Timer js) s = signal_ok js (workers (pool (sv_pool s)))"
| "wakes_someone (Frame js alloc_ok) s = signal_ok js (workers (pool (sv_pool s)))"
| "wakes_someone e s = True"

text \<open>A request to stop is noticed between two batches of events, so the events of the batch being
  handled may follow it; no event follows the begin of \<^verbatim>\<open>server_destroy\<close>, which the program calls
  after the loop has ended.\<close>

definition server_event :: "event \<Rightarrow> server \<Rightarrow> server option" where
  "server_event e s =
     (if crashed s \<noteq> None \<or> \<not> wakes_someone e s then None
      else
        (case e of
           Take i \<Rightarrow> if i < length (threads s) then pool_take i s else None
         | Wake i \<Rightarrow> if i < length (threads s) then pool_wake i s else None
         | Thread i pid exited rs \<Rightarrow> if i < length (threads s) then thread_step i pid exited rs s else None
         | Run \<Rightarrow> if epoll_fd s < 0 \<or> loop s \<noteq> Waiting \<or> shutdown (pool (sv_pool s)) then None else Some (run_begin s)
         | Stop \<Rightarrow> Some (server_stop s)
         | Destroy \<Rightarrow> if sv_running s \<or> loop s \<noteq> Waiting then None else Some (destroy_begin s)
         | _ \<Rightarrow> if shutdown (pool (sv_pool s)) then None else loop_event e s))"

section \<open>Start-up\<close>

text \<open>The answers of the system calls \<^verbatim>\<open>server_init\<close> makes, in their order.\<close>

record init_answers =
  a_socket :: int
  a_setsockopt :: bool
  a_bind :: bool
  a_listen :: bool
  a_name :: "nat option"
  a_epoll :: int
  a_event :: int
  a_add_listen :: bool
  a_add_shutdown :: bool
  a_timer :: int
  a_settime :: bool
  a_add_timer :: bool
  a_pool :: "(nat \<Rightarrow> bool) \<times> bool \<times> bool \<times> (nat \<Rightarrow> bool)"
  a_mutex :: bool

text \<open>The timer is optional: what is left of it after its own failures, and the descriptor closed
  on the way.\<close>

definition init_timer :: "init_answers \<Rightarrow> int \<times> int list" where
  "init_timer a =
     (if a_timer a < 0 then (a_timer a, [])
      else if \<not> a_settime a then (-1, [a_timer a])
      else if \<not> a_add_timer a then (-1, [a_timer a])
      else (a_timer a, []))"

definition server_init :: "init_answers \<Rightarrow> world \<Rightarrow> server option \<times> int list \<times> int list \<times> world" where
  "server_init a w =
     (let w1 = w\<lparr>st := (st w)\<lparr>bgsave_pid := 0\<rparr>\<rparr>; sock = a_socket a; ep = a_epoll a; sh = a_event a
      in if sock < 0 then (None, [], [], w1)
         else if \<not> a_setsockopt a then (None, [sock], [sock], w1)
         else if \<not> a_bind a then (None, [sock], [sock], w1)
         else if \<not> a_listen a then (None, [sock], [sock], w1)
         else
           (case a_name a of
              None \<Rightarrow> (None, [sock], [sock], w1)
            | Some prt \<Rightarrow>
                if ep < 0 then (None, [sock], [sock], w1)
                else if sh < 0 then (None, [sock, ep], [ep, sock], w1)
                else if \<not> a_add_listen a then (None, [sock, ep, sh], [sh, ep, sock], w1)
                else if \<not> a_add_shutdown a then (None, [sock, ep, sh], [sh, ep, sock], w1)
                else
                  (let (tfd, tclosed) = init_timer a;
                       opened = [sock, ep, sh] @ (if a_timer a \<ge> 0 then [a_timer a] else []);
                       undo = tclosed @ (if tfd \<ge> 0 then [tfd] else []) @ [sh, ep, sock];
                       (alloc_ok, mutex_ok, cond_ok, spawn_ok) = a_pool a
                   in case thread_pool_create SERVER_DEFAULT_WORKERS SERVER_DEFAULT_QUEUE_SIZE alloc_ok mutex_ok cond_ok spawn_ok 0 of
                        None \<Rightarrow> (None, opened, undo, w1)
                      | Some p \<Rightarrow>
                          if \<not> a_mutex a then (None, opened, undo, w1)
                          else
                            (Some \<lparr>listen_fd = sock, epoll_fd = ep, shutdown_fd = sh, timer_fd = tfd, port = prt,
                               sv_running = False, clients = [], client_count = 0, sv_pool = fresh_run p,
                               heap = Map.empty, next_client = 0, threads = replicate SERVER_DEFAULT_WORKERS T_Idle,
                               loop = Waiting, world_of = w1, crashed = None, received = (\<lambda>_. []), executed = (\<lambda>_. []),
                               refused = {}, watched = (if tfd \<ge> 0 then [tfd] else []) @ [sh, sock],
                               opened_sockets = [], closed_sockets = [], detached_sockets = []\<rparr>,
                             opened, tclosed, w1))))"

text \<open>Every state a server can get into after it was started on the world \<open>w\<close>.\<close>

inductive server_reachable :: "world \<Rightarrow> server \<Rightarrow> bool" for w where
  start: "server_init a w = (Some s, opened, undone, w') \<Longrightarrow> server_reachable w s"
| step: "server_reachable w s \<Longrightarrow> server_event e s = Some s' \<Longrightarrow> server_reachable w s'"

section \<open>Sending delivers\<close>

text \<open>Sending a reply: whatever the kernel accepts at a time, \<^verbatim>\<open>server_send_all\<close> reports success exactly
  when the whole buffer was delivered, and otherwise a proper prefix was; and it does return
  success once the socket has accepted data as often as there are bytes and reported no error.\<close>

lemma server_send_all_delivers:
  "(server_send_all rs buf = Some (rc, out) \<longrightarrow>
      (if rc = 0 then out = buf else rc = -1 \<and> (\<exists>rest. rest \<noteq> [] \<and> buf = out @ rest))) \<and>
   (Send_failed \<notin> set rs \<and> Sent 0 \<notin> set rs \<and> length buf \<le> length (filter (\<lambda>r. r \<noteq> Send_again) rs) \<longrightarrow>
      server_send_all rs buf = Some (0, buf))"
proof (intro conjI impI)
  assume "server_send_all rs buf = Some (rc, out)"
  then show "if rc = 0 then out = buf else rc = -1 \<and> (\<exists>rest. rest \<noteq> [] \<and> buf = out @ rest)"
  proof (induction rs buf arbitrary: out rule: server_send_all.induct)
    case (2 r rs buf)
    show ?case
    proof (cases "buf = [] \<or> r = Send_again \<or> r = Send_failed \<or> r = Sent 0")
      case True
      then show ?thesis using 2 by (auto split: if_splits send_result.splits)
    next
      case False
      then obtain n where n: "r = Sent n" "n \<noteq> 0" "buf \<noteq> []" by (cases r) auto
      then obtain out' where o: "server_send_all rs (drop n buf) = Some (rc, out')" "out = take n buf @ out'"
        using 2(3) by auto
      have "if rc = 0 then out' = drop n buf else rc = -1 \<and> (\<exists>rest. rest \<noteq> [] \<and> drop n buf = out' @ rest)"
        by (rule 2(1)) (use n o in auto)
      then show ?thesis
      proof (cases "rc = 0")
        case False
        then obtain rest where "rc = -1" "rest \<noteq> []" "drop n buf = out' @ rest"
          using \<open>if rc = 0 then _ else _\<close> by auto
        moreover from this have "buf = out @ rest" using append_take_drop_id [of n buf] o(2) by simp
        ultimately show ?thesis using False by auto
      qed (simp add: o(2))
    qed
  qed (auto split: if_splits)
next
  assume "Send_failed \<notin> set rs \<and> Sent 0 \<notin> set rs \<and> length buf \<le> length (filter (\<lambda>r. r \<noteq> Send_again) rs)"
  then show "server_send_all rs buf = Some (0, buf)"
  proof (induction rs buf rule: server_send_all.induct)
    case (2 r rs buf)
    then show ?case by (cases r) auto
  qed simp
qed

lemma server_send_all_delivers_witness:
  "server_send_all [Sent 2, Send_again, Sent 1, Sent 7, Sent 1] ''PONG'' = Some (0, ''PONG'')"
  using server_send_all_delivers [of "[Sent 2, Send_again, Sent 1, Sent 7, Sent 1]" "''PONG''" 0 "''PONG''"]
  by (simp del: server_send_all.simps)

section \<open>Framing\<close>

text \<open>\<^verbatim>\<open>client_handle_read\<close> without interruption: one read, then every complete line.\<close>

primrec frame_lines :: "nat \<Rightarrow> (nat \<Rightarrow> nat list) \<Rightarrow> nat \<Rightarrow> server \<Rightarrow> server" where
  "frame_lines 0 js c s = s"
| "frame_lines (Suc n) js c s = (if loop s = Framing c then frame_lines n js c (frame_line (js n) True c s) else s)"

definition client_handle_read :: "recv_result list \<Rightarrow> (nat \<Rightarrow> nat list) \<Rightarrow> nat \<Rightarrow> server \<Rightarrow> server" where
  "client_handle_read rs js c s = frame_lines (SERVER_READ_BUF_SIZE + 1) js c (read_client rs c s)"

text \<open>The lines of a stream of bytes, and what is left after the last of them.\<close>

function stream_lines :: "string \<Rightarrow> string list \<times> string" where
  "stream_lines bs =
     (case split_at nl bs of
        None \<Rightarrow> ([], bs)
      | Some (l, rest) \<Rightarrow> apfst (Cons (if l \<noteq> [] \<and> last l = cr then butlast l else l)) (stream_lines rest))"
  by pat_completeness auto
termination
  by (relation "measure length") (auto dest: split_at_SomeD)

declare stream_lines.simps [simp del]

text \<open>No run of bytes without a line ending reaches the limit.\<close>

definition short_lines_in :: "string \<Rightarrow> bool" where
  "short_lines_in bs \<longleftrightarrow> (\<forall>xs ys zs. bs = xs @ ys @ zs \<and> nl \<notin> set ys \<longrightarrow> length ys < SERVER_MAX_LINE_LEN)"

lemma short_linesD: "short_lines_in (xs @ ys @ zs) \<Longrightarrow> nl \<notin> set ys \<Longrightarrow> length ys < SERVER_MAX_LINE_LEN"
  by (auto simp: short_lines_in_def)

lemma short_lines_suffix: "short_lines_in (xs @ ys) \<Longrightarrow> short_lines_in ys"
  unfolding short_lines_in_def by (metis append.assoc)

lemma short_lines_prefix: "short_lines_in (xs @ ys) \<Longrightarrow> short_lines_in xs"
  unfolding short_lines_in_def by (metis append.assoc)

lemma split_at_SomeE:
  assumes "split_at ch s = Some (a, b)"
  shows "s = a @ ch # b \<and> ch \<notin> set a"
  using assms by (auto simp: split_at_def dest: set_takeWhileD split: if_splits)
    (metis (mono_tags, lifting) dropWhile_eq_Nil_conv hd_dropWhile list.collapse takeWhile_dropWhile_id)

lemma next_line_short:
  assumes "short_lines_in bs"
  shows "next_line bs =
    (case split_at nl bs of
       None \<Rightarrow> No_line | Some (l, rest) \<Rightarrow> Line (if l \<noteq> [] \<and> last l = cr then butlast l else l) rest)"
proof (cases "split_at nl bs")
  case None
  then have "length bs < SERVER_MAX_LINE_LEN"
    using short_linesD [of "[]" bs "[]"] assms by (simp add: split_at_None)
  with None show ?thesis by (simp add: next_line_def)
next
  case (Some lr)
  then obtain l rest where lr: "split_at nl bs = Some (l, rest)" by (cases lr) auto
  from split_at_SomeE [OF lr] have "length l < SERVER_MAX_LINE_LEN"
    using short_linesD [of "[]" l "nl # rest"] assms by simp
  with lr show ?thesis by (simp add: next_line_def)
qed

lemma stream_lines_rest: "stream_lines bs = (ls, rest) \<Longrightarrow> nl \<notin> set rest \<and> (\<exists>pre. bs = pre @ rest)"
proof (induction bs arbitrary: ls rule: stream_lines.induct)
  case (1 bs)
  show ?case
  proof (cases "split_at nl bs")
    case None
    with 1(2) show ?thesis by (simp add: stream_lines.simps [of bs] split_at_None)
  next
    case (Some lr)
    then obtain l r where lr: "split_at nl bs = Some (l, r)" by (cases lr) auto
    then obtain ls' where "stream_lines r = (ls', rest)"
      using 1(2) by (cases "stream_lines r") (auto simp: stream_lines.simps [of bs])
    from 1(1) [OF lr refl this] split_at_SomeE [OF lr] show ?thesis by (metis append.assoc append_Cons)
  qed
qed

lemma stream_lines_append:
  "stream_lines bs = (ls, rest) \<Longrightarrow> stream_lines (bs @ ext) = apfst (append ls) (stream_lines (rest @ ext))"
proof (induction bs arbitrary: ls rule: stream_lines.induct)
  case (1 bs)
  show ?case
  proof (cases "split_at nl bs")
    case None
    with 1(2) show ?thesis by (simp add: stream_lines.simps [of bs] apfst_def map_prod_def split_beta)
  next
    case (Some lr)
    then obtain l r where lr: "split_at nl bs = Some (l, r)" by (cases lr) auto
    then obtain ls' where ls': "stream_lines r = (ls', rest)" "ls = (if l \<noteq> [] \<and> last l = cr then butlast l else l) # ls'"
      using 1(2) by (cases "stream_lines r") (auto simp: stream_lines.simps [of bs])
    have "split_at nl (bs @ ext) = Some (l, r @ ext)"
      using split_at_SomeE [OF lr] split_at_field [of nl l "r @ ext"] by simp
    then show ?thesis
      using 1(1) [OF lr refl ls'(1)] ls'(2)
      by (subst stream_lines.simps) (simp add: apfst_def map_prod_def split_beta)
  qed
qed

text \<open>A burst: pieces that were received one after the other before the socket was empty.\<close>

fun piece :: "recv_result \<Rightarrow> string" where
  "piece (Received bs) = bs"
| "piece _ = []"

definition burst_bytes :: "recv_result list \<Rightarrow> string" where
  "burst_bytes rs = concat (map piece rs)"

definition burst :: "recv_result list \<Rightarrow> bool" where
  "burst rs \<longleftrightarrow> list_all (\<lambda>r. piece r \<noteq> []) rs \<and> length (burst_bytes rs) \<le> SERVER_MAX_LINE_LEN"

lemma recv_loop_burst:
  "list_all (\<lambda>r. piece r \<noteq> []) rs \<Longrightarrow> length buf + length (burst_bytes rs) < SERVER_READ_BUF_SIZE \<Longrightarrow>
   recv_loop rs buf = (0, buf @ burst_bytes rs)"
proof (induction rs arbitrary: buf)
  case Nil
  then show ?case by (simp add: recv_loop.simps burst_bytes_def)
next
  case (Cons r rs)
  then obtain bs where r: "r = Received bs" "bs \<noteq> []" by (cases r) auto
  have len: "length buf + length bs + length (burst_bytes rs) < SERVER_READ_BUF_SIZE"
    using Cons.prems(2) r by (simp add: burst_bytes_def)
  then have "\<not> SERVER_READ_BUF_SIZE - length buf < length bs" "\<not> SERVER_READ_BUF_SIZE \<le> length buf" by arith+
  then have "recv_loop (r # rs) buf = recv_loop rs (buf @ bs)"
    using r by (subst recv_loop.simps) (simp add: Let_def)
  also have "\<dots> = (0, (buf @ bs) @ burst_bytes rs)" using Cons.IH [of "buf @ bs"] Cons.prems(1) len by simp
  finally show ?case using r by (simp add: burst_bytes_def)
qed

lemma enqueue_cmd_keeps:
  "received (enqueue_cmd js c cmd cl s) c = received s c @ [cmd]"
  "loop (enqueue_cmd js c cmd cl s) = loop s"
  "\<exists>cl'. heap (enqueue_cmd js c cmd cl s) c = Some cl' \<and> read_buf cl' = read_buf cl \<and> c_fd cl' = c_fd cl \<and> c_closed cl' = c_closed cl"
  by (simp_all add: enqueue_cmd_def submit_job_def put_def Let_def split_beta)

lemma frame_lines_complete:
  assumes "heap s c = Some cl" and "loop s = Framing c" and "short_lines_in (read_buf cl)"
    and "stream_lines (read_buf cl) = (ls, rest)" and "length (read_buf cl) < n"
  shows "received (frame_lines n js c s) c = received s c @ ls \<and> loop (frame_lines n js c s) = Waiting \<and>
    (\<exists>cl'. heap (frame_lines n js c s) c = Some cl' \<and> read_buf cl' = rest \<and> c_fd cl' = c_fd cl \<and> c_closed cl' = c_closed cl)"
  using assms
proof (induction n arbitrary: s cl ls)
  case (Suc n)
  show ?case
  proof (cases "split_at nl (read_buf cl)")
    case None
    then have "ls = []" "rest = read_buf cl" using Suc.prems(4) by (simp_all add: stream_lines.simps [of "read_buf cl"])
    moreover have "frame_line (js n) True c s = s\<lparr>loop := Waiting\<rparr>"
      using Suc.prems(1,3) None by (simp add: frame_line_def with_client_def next_line_short)
    moreover have "frame_lines n js c (s\<lparr>loop := Waiting\<rparr>) = s\<lparr>loop := Waiting\<rparr>" by (cases n) simp_all
    ultimately show ?thesis using Suc.prems(1,2) by simp
  next
    case (Some lr)
    then obtain l r where lr: "split_at nl (read_buf cl) = Some (l, r)" by (cases lr) auto
    let ?cmd = "if l \<noteq> [] \<and> last l = cr then butlast l else l"
    obtain ls' where ls': "stream_lines r = (ls', rest)" "ls = ?cmd # ls'"
      using Suc.prems(4) lr by (cases "stream_lines r") (auto simp: stream_lines.simps [of "read_buf cl"])
    let ?s = "enqueue_cmd (js n) c ?cmd (cl\<lparr>read_buf := r\<rparr>) s"
    have run: "frame_line (js n) True c s = ?s"
      using Suc.prems(1,3) lr by (simp add: frame_line_def with_client_def next_line_short)
    obtain cl' where cl': "heap ?s c = Some cl'" "read_buf cl' = r" "c_fd cl' = c_fd cl" "c_closed cl' = c_closed cl"
      using enqueue_cmd_keeps(3) [of "js n" c ?cmd "cl\<lparr>read_buf := r\<rparr>" s] by auto
    have b: "read_buf cl = (l @ [nl]) @ r" using split_at_SomeE [OF lr] by simp
    have "short_lines_in r" using Suc.prems(3) unfolding b by (rule short_lines_suffix)
    moreover have "length r < n" using Suc.prems(5) b by simp
    ultimately show ?thesis
      using Suc.IH [OF cl'(1), of ls'] ls' cl' run Suc.prems(2) enqueue_cmd_keeps(1,2) [of "js n" c ?cmd "cl\<lparr>read_buf := r\<rparr>" s]
      by simp
  qed
qed simp

lemma handle_read_burst:
  assumes "heap s c = Some cl" and "burst rs" and "short_lines_in (read_buf cl @ burst_bytes rs)"
    and "nl \<notin> set (read_buf cl)" and "stream_lines (read_buf cl @ burst_bytes rs) = (ls, rest)"
  shows "received (client_handle_read rs js c s) c = received s c @ ls \<and>
    (\<exists>cl'. heap (client_handle_read rs js c s) c = Some cl' \<and> read_buf cl' = rest \<and> c_fd cl' = c_fd cl \<and>
       c_closed cl' = c_closed cl)"
proof -
  have "length (read_buf cl) < SERVER_MAX_LINE_LEN" using short_linesD [of "[]" "read_buf cl"] assms(3,4) by simp
  with assms(2) have len: "length (read_buf cl) + length (burst_bytes rs) < SERVER_READ_BUF_SIZE"
    by (simp add: burst_def)
  let ?cl = "cl\<lparr>read_buf := read_buf cl @ burst_bytes rs\<rparr>"
  let ?s = "(put c ?cl s)\<lparr>loop := Framing c\<rparr>"
  have read: "read_client rs c s = ?s"
    using assms(1,2) recv_loop_burst [OF _ len] by (simp add: read_client_def with_client_def burst_def)
  have "heap ?s c = Some ?cl" "received ?s c = received s c" by (simp_all add: put_def)
  with frame_lines_complete [of ?s c ?cl ls rest "SERVER_READ_BUF_SIZE + 1" js] assms(3,5) len read
  show ?thesis unfolding client_handle_read_def by (simp del: frame_lines.simps)
qed


definition idle_server :: server where
  "idle_server = \<lparr>listen_fd = 3, epoll_fd = 4, shutdown_fd = 5, timer_fd = 6, port = 6379, sv_running = False,
     clients = [], client_count = 0,
     sv_pool = fresh_run \<lparr>workers = replicate SERVER_DEFAULT_WORKERS W_Ready, num_threads = SERVER_DEFAULT_WORKERS,
        queue = replicate SERVER_DEFAULT_QUEUE_SIZE \<lparr>task_function = None, task_arg = 0\<rparr>,
        queue_capacity = SERVER_DEFAULT_QUEUE_SIZE, queue_head = 0, queue_tail = 0, queue_count = 0, shutdown = False\<rparr>,
     heap = Map.empty, next_client = 0, threads = replicate SERVER_DEFAULT_WORKERS T_Idle, loop = Waiting,
     world_of = quiet_world 7 (fresh_store 8 0 0), crashed = None, received = (\<lambda>_. []), executed = (\<lambda>_. []),
     refused = {}, watched = [6, 5, 3], opened_sockets = [], closed_sockets = [], detached_sockets = []\<rparr>"


text \<open>At the limit itself the cut does matter: a line of exactly 8192 bytes is accepted when its
  line ending arrives together with it, and closes the connection when it arrives later.\<close>

lemma longest_line_depends_on_segmentation:
  assumes "length l = SERVER_MAX_LINE_LEN" and "nl \<notin> set l"
  shows "next_line l = Too_long" and "next_line (l @ [nl]) \<noteq> Too_long"
  using assms split_at_field [of nl l "[]"] by (simp_all add: next_line_def split_at_None [THEN iffD2])

section \<open>Start-up leaks nothing\<close>

definition descriptors :: "server \<Rightarrow> int list" where
  "descriptors s = filter (\<lambda>fd. 0 \<le> fd) [listen_fd s, epoll_fd s, shutdown_fd s, timer_fd s]"

lemma init_timer_sound:
  "init_timer a = (tfd, tclosed) \<Longrightarrow>
   mset (if a_timer a \<ge> 0 then [a_timer a] else []) = mset tclosed + mset (if tfd \<ge> 0 then [tfd] else [])"
  by (auto simp: init_timer_def split: if_splits)

text \<open>C38. A start that fails at any of its fourteen system calls has closed every descriptor it opened,
  each once; a start that succeeds holds exactly the descriptors it did not close, among them
  the listening socket, the event queue and the shutdown event.\<close>

theorem server_init_leaks_nothing:
  "case server_init a w of
     (None, opened, undone, w') \<Rightarrow> mset undone = mset opened
   | (Some s, opened, undone, w') \<Rightarrow>
       mset opened = mset undone + mset (descriptors s) \<and> listen_fd s \<ge> 0 \<and> epoll_fd s \<ge> 0 \<and> shutdown_fd s \<ge> 0"
proof -
  obtain tfd tclosed where timer: "init_timer a = (tfd, tclosed)" by fastforce
  obtain alloc_ok mutex_ok cond_ok spawn_ok where p: "a_pool a = (alloc_ok, mutex_ok, cond_ok, spawn_ok)"
    using prod_cases4 by blast
  note m = init_timer_sound [OF timer]
  show ?thesis
    using m
    by (cases "a_name a"; cases "thread_pool_create SERVER_DEFAULT_WORKERS SERVER_DEFAULT_QUEUE_SIZE alloc_ok mutex_ok cond_ok spawn_ok 0
          :: (job, nat) thread_pool option")
      (auto simp: server_init_def Let_def timer p descriptors_def ac_simps)
qed

end
