(* ===== verification/KV_Session.thy ===== *)
theory KV_Session
  imports KV_Server
begin

text \<open>
  Clients under concurrency: what holds in every state that the event loop and the four workers
  can reach together, whatever the interleaving. References are counted exactly, a client has
  at most one job at a time, and its commands run one after the other in the order received.
  The theory defines the invariant and shows that every event keeps it.
\<close>

section \<open>Who holds a client\<close>

fun client_of :: "thread \<Rightarrow> nat list" where
  "client_of (T_Loop c) = [c]"
| "client_of (T_Exec c l) = [c]"
| "client_of (T_Reply c r) = [c]"
| "client_of (T_Close c) = [c]"
| "client_of (T_Release c) = [c]"
| "client_of _ = []"

text \<open>Those who may still execute commands of the client, and the command being executed.\<close>

fun active_of :: "thread \<Rightarrow> nat list" where
  "active_of (T_Release c) = []"
| "active_of t = client_of t"

fun exec_of :: "nat \<Rightarrow> thread \<Rightarrow> string list" where
  "exec_of c (T_Exec d l) = (if d = c then [l] else [])"
| "exec_of c _ = []"

definition task_clients :: "(job, nat) task_t list \<Rightarrow> nat list" where
  "task_clients ts = concat (map (\<lambda>t. if task_function t = Some Client_task then [task_arg t] else []) ts)"

definition queued :: "server \<Rightarrow> nat \<Rightarrow> nat" where
  "queued s c = count_list (task_clients (pending (pool (sv_pool s)))) c"

definition spread :: "('t \<Rightarrow> 'b list) \<Rightarrow> 't list \<Rightarrow> 'b multiset" where
  "spread f ts = mset (concat (map f ts))"

definition holders :: "server \<Rightarrow> nat \<Rightarrow> nat" where
  "holders s c = count (spread client_of (threads s)) c"

definition actives :: "server \<Rightarrow> nat \<Rightarrow> nat" where
  "actives s c = count (spread active_of (threads s)) c"

definition executing :: "server \<Rightarrow> nat \<Rightarrow> string multiset" where
  "executing s c = spread (exec_of c) (threads s)"

lemma spread_update:
  assumes "i < length ts"
  shows "spread f (ts[i := x]) + mset (f (ts ! i)) = spread f ts + mset (f x)"
proof -
  have "spread f (take i ts @ ts ! i # drop (Suc i) ts) =
      spread f (take i ts) + (mset (f (ts ! i)) + spread f (drop (Suc i) ts))"
    by (simp add: spread_def)
  then have "spread f ts = spread f (take i ts) + (mset (f (ts ! i)) + spread f (drop (Suc i) ts))"
    by (simp only: id_take_nth_drop [OF assms, symmetric])
  moreover have "spread f (ts[i := x]) = spread f (take i ts) + (mset (f x) + spread f (drop (Suc i) ts))"
    by (simp add: upd_conv_take_nth_drop [OF assms] spread_def)
  ultimately show ?thesis by simp
qed

lemma count_spread_update:
  "i < length ts \<Longrightarrow> count (spread f (ts[i := x])) c + count_list (f (ts ! i)) c = count (spread f ts) c + count_list (f x) c"
  using arg_cong [OF spread_update, of i ts "\<lambda>m. count m c" f x] by (simp add: count_mset)

lemma spread_update_same: "i < length ts \<Longrightarrow> f x = f (ts ! i) \<Longrightarrow> spread f (ts[i := x]) = spread f ts"
  using spread_update [of i ts f x] by simp

lemma spread_member: "i < length ts \<Longrightarrow> x \<in> set (f (ts ! i)) \<Longrightarrow> x \<in># spread f ts"
  by (auto simp: spread_def intro: bexI [of _ "ts ! i"])

lemma exec_of_active: "exec_of c t = [] \<or> exec_of c t \<noteq> [] \<and> length (exec_of c t) = 1 \<and> active_of t = [c]"
  by (cases t) auto

lemma size_exec_le: "size (spread (exec_of c) ts) \<le> count (spread active_of ts) c"
proof (induction ts)
  case (Cons t ts)
  then show ?case using exec_of_active [of c t] by (auto simp: spread_def)
qed (simp add: spread_def)

lemma executing_le: "size (executing s c) \<le> actives s c"
  by (simp add: executing_def actives_def size_exec_le)

lemma executing_less:
  assumes "i < length (threads s)" and "active_of (threads s ! i) = [c]" and "exec_of c (threads s ! i) = []"
  shows "size (executing s c) < actives s c"
proof -
  let ?ts = "(threads s)[i := T_Idle]"
  have "count (spread active_of ?ts) c + 1 = actives s c" "spread (exec_of c) ?ts = executing s c"
    using count_spread_update [OF assms(1), of active_of T_Idle c] spread_update_same [OF assms(1), of "exec_of c" T_Idle] assms(2,3)
    by (simp_all add: actives_def executing_def)
  with size_exec_le [of c ?ts] show ?thesis by simp
qed

section \<open>The invariant\<close>

definition in_service :: "server_client \<Rightarrow> bool" where
  "in_service cl \<longleftrightarrow> \<not> c_closed cl \<and> c_fd cl \<ge> 0"

text \<open>A client that is allocated has one reference for the list and one for each job, queued or
  taken; it has one job at most as long as commands may be executed; if it is in service and a
  command waits, a job is there unless the pool refused it; and what was received is what was
  executed, what is being executed and what waits, in this order.\<close>

definition client_ok :: "server \<Rightarrow> nat \<Rightarrow> bool" where
  "client_ok s c \<longleftrightarrow>
     (case heap s c of
        None \<Rightarrow> c \<notin> set (clients s) \<and> queued s c = 0 \<and> holders s c = 0
      | Some cl \<Rightarrow>
          ref_count cl = of_bool (c \<in> set (clients s)) + int (queued s c + holders s c) \<and> 0 < ref_count cl \<and>
          queued s c + actives s c \<le> 1 \<and> (queued s c + actives s c = 1 \<longrightarrow> task_in_flight cl) \<and>
          (c_fd cl \<ge> 0 \<longrightarrow> c \<in> set (clients s)) \<and>
          (in_service cl \<longrightarrow> (task_in_flight cl \<longrightarrow> queued s c + actives s c = 1) \<and>
             (cmd_queue cl \<noteq> [] \<and> c \<notin> refused s \<longrightarrow> task_in_flight cl)) \<and>
          (\<exists>ls. mset ls = executing s c \<and> executed s c @ ls @ cmd_queue cl = received s c))"

definition server_ok :: "server \<Rightarrow> bool" where
  "server_ok s \<longleftrightarrow>
     length (threads s) = SERVER_DEFAULT_WORKERS \<and>
     (\<forall>i<SERVER_DEFAULT_WORKERS. threads s ! i \<noteq> T_Idle \<longrightarrow> (\<exists>t. workers (pool (sv_pool s)) ! i = W_Running t)) \<and>
     distinct (clients s) \<and> client_count s = length (clients s) \<and>
     (\<forall>c\<ge>next_client s. heap s c = None \<and> received s c = [] \<and> executed s c = []) \<and>
     (\<forall>c. client_ok s c)"

lemma server_okD:
  assumes "server_ok s"
  shows "length (threads s) = SERVER_DEFAULT_WORKERS"
    and "i < SERVER_DEFAULT_WORKERS \<Longrightarrow> threads s ! i \<noteq> T_Idle \<Longrightarrow> \<exists>t. workers (pool (sv_pool s)) ! i = W_Running t"
    and "distinct (clients s)" and "client_count s = length (clients s)"
    and "c \<ge> next_client s \<Longrightarrow> heap s c = None \<and> received s c = [] \<and> executed s c = []"
    and "client_ok s d"
  using assms by (simp_all add: server_ok_def)

text \<open>What the invariant reads of a server about one client.\<close>

definition same_client :: "server \<Rightarrow> server \<Rightarrow> nat \<Rightarrow> bool" where
  "same_client s s' d \<longleftrightarrow>
     heap s' d = heap s d \<and> (d \<in> set (clients s') \<longleftrightarrow> d \<in> set (clients s)) \<and> queued s' d = queued s d \<and>
     holders s' d = holders s d \<and> actives s' d = actives s d \<and> executing s' d = executing s d \<and>
     executed s' d = executed s d \<and> received s' d = received s d \<and> (d \<in> refused s' \<longleftrightarrow> d \<in> refused s)"

lemma same_client_ok: "same_client s s' d \<Longrightarrow> client_ok s' d = client_ok s d"
  by (simp add: same_client_def client_ok_def split: option.split)

lemma same_client_refl [simp]: "same_client s s d"
  by (simp add: same_client_def)

text \<open>A step that touches one client.\<close>

lemma server_ok_step:
  assumes "server_ok s" and "\<And>d. d \<noteq> c \<Longrightarrow> same_client s s' d" and "client_ok s' c"
    and "length (threads s') = SERVER_DEFAULT_WORKERS"
    and "\<And>i. i < SERVER_DEFAULT_WORKERS \<Longrightarrow> threads s' ! i \<noteq> T_Idle \<Longrightarrow> \<exists>t. workers (pool (sv_pool s')) ! i = W_Running t"
    and "distinct (clients s')" and "client_count s' = length (clients s')"
    and "\<And>d. d \<ge> next_client s' \<Longrightarrow> heap s' d = None \<and> received s' d = [] \<and> executed s' d = []"
  shows "server_ok s'"
  using assms same_client_ok server_okD(6) [OF assms(1)] unfolding server_ok_def by metis

text \<open>A thread that goes on with the same client.\<close>

lemma thread_counts:
  assumes "i < length (threads s)" and "threads s' = (threads s)[i := t]"
  shows "holders s' c + count_list (client_of (threads s ! i)) c = holders s c + count_list (client_of t) c"
    and "actives s' c + count_list (active_of (threads s ! i)) c = actives s c + count_list (active_of t) c"
    and "executing s' c + mset (exec_of c (threads s ! i)) = executing s c + mset (exec_of c t)"
  using assms count_spread_update spread_update by (simp_all add: holders_def actives_def executing_def)

lemma active_client: "d \<notin> set (client_of t) \<Longrightarrow> count_list (active_of t) d = 0 \<and> exec_of d t = []"
  by (cases t) auto

lemma thread_other:
  assumes "i < length (threads s)" and "threads s' = (threads s)[i := t]"
    and "d \<notin> set (client_of (threads s ! i))" and "d \<notin> set (client_of t)"
  shows "holders s' d = holders s d \<and> actives s' d = actives s d \<and> executing s' d = executing s d"
  using thread_counts [OF assms(1,2), of d] active_client [OF assms(3)] active_client [OF assms(4)] assms(3,4)
  by (simp add: count_list_0_iff)

lemma counts_cong:
  "sv_pool s' = sv_pool s \<Longrightarrow> queued s' = queued s"
  "threads s' = threads s \<Longrightarrow> holders s' = holders s \<and> actives s' = actives s \<and> executing s' = executing s"
  by (simp_all add: queued_def holders_def actives_def executing_def fun_eq_iff)

text \<open>Fields the invariant does not read.\<close>

lemma server_ok_cong:
  assumes "heap s' = heap s" "clients s' = clients s" "client_count s' = client_count s" "next_client s' = next_client s"
    "threads s' = threads s" "sv_pool s' = sv_pool s" "received s' = received s" "executed s' = executed s" "refused s' = refused s"
  shows "server_ok s' = server_ok s"
proof -
  have "client_ok s' c = client_ok s c" for c
    using assms counts_cong [of s' s] by (intro same_client_ok) (simp add: same_client_def)
  then show ?thesis using assms by (simp add: server_ok_def)
qed

lemma server_ok_upd [simp]:
  "server_ok (s\<lparr>crashed := x1\<rparr>) = server_ok s" "server_ok (s\<lparr>loop := x2\<rparr>) = server_ok s"
  "server_ok (s\<lparr>world_of := x3\<rparr>) = server_ok s" "server_ok (s\<lparr>sv_running := x4\<rparr>) = server_ok s"
  "server_ok (s\<lparr>opened_sockets := x5\<rparr>) = server_ok s" "server_ok (s\<lparr>watched := x6\<rparr>) = server_ok s"
  "server_ok (s\<lparr>detached_sockets := x7\<rparr>) = server_ok s" "server_ok (close_socket fd s) = server_ok s"
  "server_ok (epoll_del fd s) = server_ok s"
  by (rule server_ok_cong; simp add: close_socket_def epoll_del_def)+

text \<open>A change of one client's record, with no thread and no job involved.\<close>

lemma server_ok_client:
  assumes "server_ok s" and "heap s c \<noteq> None" and "threads s' = threads s" and "sv_pool s' = sv_pool s"
    and "next_client s' = next_client s" and "distinct (clients s')" and "client_count s' = length (clients s')"
    and "\<And>d. d \<noteq> c \<Longrightarrow> heap s' d = heap s d \<and> (d \<in> set (clients s') \<longleftrightarrow> d \<in> set (clients s)) \<and> received s' d = received s d \<and>
      executed s' d = executed s d \<and> (d \<in> refused s' \<longleftrightarrow> d \<in> refused s)"
    and "client_ok s' c"
  shows "server_ok s'"
proof -
  have c: "c < next_client s" using server_okD(5) [OF assms(1), of c] assms(2) by (meson not_le)
  show ?thesis
  proof (rule server_ok_step [OF assms(1), of c])
    show "same_client s s' d" if "d \<noteq> c" for d
      using assms(8) [OF that] counts_cong [of s' s] assms(3,4) by (simp add: same_client_def)
    show "heap s' d = None \<and> received s' d = [] \<and> executed s' d = []" if "d \<ge> next_client s'" for d
      using that c assms(5) assms(8) [of d] server_okD(5) [OF assms(1), of d] by auto
  qed (use assms server_okD(1,2) [OF assms(1)] in auto)
qed

text \<open>A step of a thread that is at work on client \<open>c\<close>.\<close>

lemma server_ok_thread:
  assumes "server_ok s" and "i < SERVER_DEFAULT_WORKERS" and "threads s ! i \<noteq> T_Idle" and "heap s c \<noteq> None"
    and "set (client_of (threads s ! i)) \<subseteq> {c}" and "set (client_of t) \<subseteq> {c}"
    and "threads s' = (threads s)[i := t]" and "sv_pool s' = sv_pool s" and "clients s' = clients s"
    and "client_count s' = client_count s" and "next_client s' = next_client s"
    and "\<And>d. d \<noteq> c \<Longrightarrow> heap s' d = heap s d \<and> received s' d = received s d \<and> executed s' d = executed s d \<and>
      (d \<in> refused s' \<longleftrightarrow> d \<in> refused s)"
    and "client_ok s' c"
  shows "server_ok s'"
proof -
  have c: "c < next_client s" using server_okD(5) [OF assms(1), of c] assms(4) by (meson not_le)
  have i: "i < length (threads s)" using assms(2) server_okD(1) [OF assms(1)] by simp
  show ?thesis
  proof (rule server_ok_step [OF assms(1), of c])
    fix d assume "d \<noteq> c"
    with assms(5,6) have "d \<notin> set (client_of (threads s ! i))" "d \<notin> set (client_of t)" by auto
    from thread_other [OF i assms(7) this] show "same_client s s' d"
      using assms(12) [OF \<open>d \<noteq> c\<close>] counts_cong(1) [OF assms(8)] assms(9) by (simp add: same_client_def)
  next
    fix d assume "d \<ge> next_client s'"
    then show "heap s' d = None \<and> received s' d = [] \<and> executed s' d = []"
      using c assms(11) assms(12) [of d] server_okD(5) [OF assms(1), of d] by auto
  next
    fix j assume "j < SERVER_DEFAULT_WORKERS" "threads s' ! j \<noteq> T_Idle"
    then show "\<exists>t. workers (pool (sv_pool s')) ! j = W_Running t"
      using server_okD(2) [OF assms(1)] assms(2,3,7,8) i by (cases "j = i") auto
  qed (use assms server_okD(1,3,4) [OF assms(1)] in auto)
qed

lemma client_okD:
  assumes "server_ok s" and "heap s c = Some cl"
  shows "ref_count cl = of_bool (c \<in> set (clients s)) + int (queued s c + holders s c)" "0 < ref_count cl"
    "queued s c + actives s c \<le> 1" "queued s c + actives s c = 1 \<Longrightarrow> task_in_flight cl"
    "c_fd cl \<ge> 0 \<Longrightarrow> c \<in> set (clients s)"
    "in_service cl \<Longrightarrow> task_in_flight cl \<Longrightarrow> queued s c + actives s c = 1"
    "in_service cl \<Longrightarrow> cmd_queue cl \<noteq> [] \<Longrightarrow> c \<notin> refused s \<Longrightarrow> task_in_flight cl"
    "\<exists>ls. mset ls = executing s c \<and> executed s c @ ls @ cmd_queue cl = received s c"
  using server_okD(6) [OF assms(1), of c] assms(2) by (simp_all add: client_ok_def)

lemma client_ok_None: "server_ok s \<Longrightarrow> heap s c = None \<Longrightarrow> c \<notin> set (clients s) \<and> queued s c = 0 \<and> holders s c = 0"
  using server_okD(6) [of s c] by (simp add: client_ok_def)

text \<open>A thread that works on a client holds a reference: the client is allocated.\<close>

lemma held_allocated:
  assumes "server_ok s" and "i < SERVER_DEFAULT_WORKERS" and "c \<in> set (client_of (threads s ! i))"
  shows "\<exists>cl. heap s c = Some cl"
proof (rule ccontr)
  assume "\<not> ?thesis"
  then have "holders s c = 0" using client_ok_None [OF assms(1), of c] by auto
  moreover have "c \<in># spread client_of (threads s)"
    using assms(2,3) server_okD(1) [OF assms(1)] by (intro spread_member) simp_all
  ultimately show False by (simp add: holders_def count_eq_zero_iff)
qed

text \<open>Closing.\<close>

lemma close_client_sel:
  assumes "heap s c = Some cl"
  shows "threads (server_close_client c s) = threads s" "sv_pool (server_close_client c s) = sv_pool s"
    "next_client (server_close_client c s) = next_client s" "received (server_close_client c s) = received s"
    "executed (server_close_client c s) = executed s" "refused (server_close_client c s) = refused s"
    "crashed (server_close_client c s) = crashed s" "world_of (server_close_client c s) = world_of s"
    "\<And>d. d \<noteq> c \<Longrightarrow> heap (server_close_client c s) d = heap s d"
  using assms by (simp_all add: server_close_client_def with_client_def drop_ref_def unlink_client_def close_socket_def epoll_del_def Let_def)

lemma close_client_ok:
  assumes "server_ok s" and "heap s c = Some cl"
  shows "server_ok (server_close_client c s)"
proof (cases "c_fd cl < 0")
  case True
  with assms show ?thesis by (simp add: server_close_client_def with_client_def)
next
  case False
  define s1 where "s1 = server_close_client c s"
  note k = client_okD [OF assms]
  have listed: "c \<in> set (clients s)" using k(5) False by simp
  have s1: "clients s1 = remove1 c (clients s)" "client_count s1 = client_count s - 1"
    "heap s1 c = (if ref_count cl = 1 then None
       else Some (cl\<lparr>c_closed := True, c_fd := -1, ref_count := ref_count cl - 1\<rparr>))"
    using False listed assms(2) server_okD(4) [OF assms(1)]
    by (simp_all add: s1_def server_close_client_def with_client_def drop_ref_def unlink_client_def close_socket_def epoll_del_def Let_def)
  note sel = close_client_sel [OF assms(2), folded s1_def]
  have c1: "queued s1 c = queued s c" "holders s1 c = holders s c" "actives s1 c = actives s c" "executing s1 c = executing s c"
    using counts_cong [of s1 s] sel by simp_all
  have ref: "ref_count cl = 1 + int (queued s c + holders s c)" using k(1) listed by simp
  have unl: "c \<notin> set (clients s1)" using s1(1) server_okD(3) [OF assms(1)] by simp
  have "client_ok s1 c"
  proof (cases "ref_count cl = 1")
    case True
    then show ?thesis using ref unl by (simp add: client_ok_def s1(3) c1)
  next
    case False
    then show ?thesis
      using ref unl k(3,4,8) sel(4-6) by (simp add: client_ok_def s1(3) c1 in_service_def)
  qed
  moreover have "d \<in> set (clients s1) \<longleftrightarrow> d \<in> set (clients s)" if "d \<noteq> c" for d using that s1(1) by simp
  ultimately have "server_ok s1"
    using assms(2) s1(1,2) sel server_okD(3,4) [OF assms(1)] listed
    by (intro server_ok_client [OF assms(1), of c]) (simp_all add: length_remove1)
  then show ?thesis by (simp add: s1_def)
qed

section \<open>Steps of the workers\<close>

text \<open>What the counts say about a client on which a thread is at work.\<close>

lemma thread_at_work:
  assumes "server_ok s" and "i < SERVER_DEFAULT_WORKERS" and "heap s c = Some cl" and "client_of (threads s ! i) = [c]"
  shows "threads s ! i \<noteq> T_Idle" and "holders s c > 0"
    and "active_of (threads s ! i) = [c] \<Longrightarrow> queued s c = 0 \<and> actives s c = 1 \<and> task_in_flight cl"
    and "active_of (threads s ! i) = [c] \<Longrightarrow> exec_of c (threads s ! i) = [] \<Longrightarrow> executing s c = {#}"
proof -
  have i: "i < length (threads s)" using assms(2) server_okD(1) [OF assms(1)] by simp
  note k = client_okD [OF assms(1,3)]
  show "threads s ! i \<noteq> T_Idle" using assms(4) by auto
  have "c \<in># spread client_of (threads s)" using spread_member [OF i, of c client_of] by (simp add: assms(4))
  then show "holders s c > 0" by (simp add: holders_def)
  assume a: "active_of (threads s ! i) = [c]"
  have "c \<in># spread active_of (threads s)" using spread_member [OF i, of c active_of] by (simp add: a)
  then have "actives s c > 0" by (simp add: actives_def)
  with k(3,4) show r: "queued s c = 0 \<and> actives s c = 1 \<and> task_in_flight cl" by simp
  assume "exec_of c (threads s ! i) = []"
  from executing_less [OF i a this] r show "executing s c = {#}" by simp
qed

lemma server_ok_next:
  assumes "server_ok s" and "i < SERVER_DEFAULT_WORKERS" and "threads s ! i = T_Loop c" and "heap s c = Some cl"
  shows "server_ok (set_thread i (task_next c cl s))"
proof -
  define s1 where "s1 = set_thread i (task_next c cl s)"
  define t where "t = fst (task_next c cl s)"
  have i: "i < length (threads s)" using assms(2) server_okD(1) [OF assms(1)] by simp
  have s1: "threads s1 = (threads s)[i := t]" "sv_pool s1 = sv_pool s" "clients s1 = clients s"
    "client_count s1 = client_count s" "next_client s1 = next_client s" "received s1 = received s"
    "executed s1 = executed s" "refused s1 = refused s" "\<And>d. d \<noteq> c \<Longrightarrow> heap s1 d = heap s d"
    by (simp_all add: s1_def t_def set_thread_def task_next_def put_def)
  note k = client_okD [OF assms(1,4)]
  have w: "queued s c = 0" "actives s c = 1" "task_in_flight cl" "executing s c = {#}" "threads s ! i \<noteq> T_Idle"
    using thread_at_work [OF assms(1,2,4)] assms(3) by simp_all
  note counts = thread_counts [OF i s1(1), of c]
  have q: "queued s1 c = queued s c" using counts_cong(1) [OF s1(2)] by simp
  have "client_ok s1 c"
  proof (cases "c_closed cl \<or> cmd_queue cl = []")
    case True
    then have t: "t = T_Release c" and h: "heap s1 c = Some (cl\<lparr>task_in_flight := False\<rparr>)"
      by (auto simp: t_def s1_def task_next_def set_thread_def put_def)
    show ?thesis
      using k(1,2,5,8) w counts True by (auto simp: client_ok_def h s1 q t assms(3) in_service_def)
  next
    case False
    then have t: "t = T_Exec c (hd (cmd_queue cl))" and h: "heap s1 c = Some (cl\<lparr>cmd_queue := tl (cmd_queue cl)\<rparr>)"
      by (auto simp: t_def s1_def task_next_def set_thread_def put_def)
    have e: "executing s1 c = {#hd (cmd_queue cl)#}" using counts(3) w(4) by (simp add: t assms(3))
    have "\<exists>ls. mset ls = executing s1 c \<and> executed s c @ ls @ tl (cmd_queue cl) = received s c"
      using k(8) w(4) False e by (intro exI [of _ "[hd (cmd_queue cl)]"]) simp
    then show ?thesis
      using k(1,2,5) w counts False by (simp add: client_ok_def h s1 q t assms(3) in_service_def)
  qed
  moreover have "set (client_of t) \<subseteq> {c}" by (simp add: t_def task_next_def)
  ultimately have "server_ok s1"
    using assms s1 w(5) by (intro server_ok_thread [OF assms(1,2), of c t]) simp_all
  then show ?thesis by (simp add: s1_def)
qed

lemma server_ok_execute:
  assumes "server_ok s" and "i < SERVER_DEFAULT_WORKERS" and "threads s ! i = T_Exec c line" and "heap s c = Some cl"
  shows "server_ok (set_thread i (task_execute pid exited c line cl s))"
proof (cases "protocol_execute_command (SERVER_MAX_LINE_LEN + 128) pid exited (c_fd cl) line (world_of s)")
  case (Inl ub)
  then have "set_thread i (task_execute pid exited c line cl s) = s\<lparr>crashed := Some ub\<rparr>"
    using assms(3) list_update_id [of "threads s" i] by (simp add: set_thread_def task_execute_def)
  with assms(1) show ?thesis by simp
next
  case (Inr rw)
  then obtain r w where rw: "protocol_execute_command (SERVER_MAX_LINE_LEN + 128) pid exited (c_fd cl) line (world_of s) = Inr (r, w)"
    by (cases rw) auto
  define s1 where "s1 = set_thread i (task_execute pid exited c line cl s)"
  have i: "i < length (threads s)" using assms(2) server_okD(1) [OF assms(1)] by simp
  have s1: "threads s1 = (threads s)[i := T_Reply c r]" "sv_pool s1 = sv_pool s" "clients s1 = clients s"
    "client_count s1 = client_count s" "next_client s1 = next_client s" "received s1 = received s"
    "executed s1 = (executed s)(c := executed s c @ [line])" "refused s1 = refused s" "heap s1 = heap s"
    using rw by (simp_all add: s1_def set_thread_def task_execute_def)
  note k = client_okD [OF assms(1,4)]
  have w: "queued s c = 0" "actives s c = 1" "task_in_flight cl" "threads s ! i \<noteq> T_Idle"
    using thread_at_work(1,3) [OF assms(1,2,4)] assms(3) by simp_all
  note counts = thread_counts [OF i s1(1), of c]
  have e: "executing s c = add_mset line (executing s1 c)" using counts(3) by (simp add: assms(3))
  moreover have "size (executing s c) \<le> 1" using executing_le [of s c] w(2) by simp
  ultimately have e1: "executing s1 c = {#}" "executing s c = {#line#}" by simp_all
  obtain ls where "mset ls = {#line#}" "executed s c @ ls @ cmd_queue cl = received s c" using k(8) e1(2) by auto
  then have "executed s c @ line # cmd_queue cl = received s c" by (simp add: mset_single_iff)
  then have "client_ok s1 c"
    using k(1-7) w counts e1(1) counts_cong(1) [OF s1(2)] by (simp add: client_ok_def s1 assms(3,4))
  then have "server_ok s1"
    using assms s1 w(4) by (intro server_ok_thread [OF assms(1,2), of c "T_Reply c r"]) simp_all
  then show ?thesis by (simp add: s1_def)
qed

text \<open>After a reply the thread goes on with the client, detached or not.\<close>

lemma task_reply_cases:
  assumes "task_reply rs c r cl s = Some (t, s1)" and "heap s c = Some cl"
  obtains (over) ub where "t = T_Reply c r" "s1 = s\<lparr>crashed := Some ub\<rparr>"
  | (sent) cl1 where "t = T_Close c \<and> (cl1 = cl \<or> c_fd cl1 < 0) \<or> t = T_Loop c \<and> cl1 = cl"
      "c_closed cl1 = c_closed cl" "task_in_flight cl1 = task_in_flight cl" "ref_count cl1 = ref_count cl"
      "cmd_queue cl1 = cmd_queue cl" "c_fd cl1 \<ge> 0 \<longrightarrow> cl1 = cl"
      "heap s1 = (heap s)(c := Some cl1)" "threads s1 = threads s" "sv_pool s1 = sv_pool s"
      "clients s1 = clients s" "client_count s1 = client_count s" "next_client s1 = next_client s" "received s1 = received s"
      "executed s1 = executed s" "refused s1 = refused s" "crashed s1 = crashed s" "world_of s1 = world_of s" "loop s1 = loop s"
proof (cases "(\<not> c_closed cl \<and> c_fd cl \<ge> 0 \<and> r_len r > 0) \<and> r_len r \<noteq> length (r_bytes r)")
  case True
  then show ?thesis using assms(1) over by (auto simp: task_reply_def Let_def)
next
  case False
  define send where "send = (if \<not> c_closed cl \<and> c_fd cl \<ge> 0 \<and> r_len r > 0 then server_send_all rs (r_bytes r) else Some (0, []))"
  from assms(1) False obtain rc out where send: "send = Some (rc, out)"
    by (cases send) (auto simp: task_reply_def Let_def send_def [symmetric] split: if_splits)
  define s0 where "s0 = (if r_detach r \<and> c_fd cl \<ge> 0
      then (epoll_del (c_fd cl) s)\<lparr>detached_sockets := detached_sockets s @ [c_fd cl]\<rparr> else s)"
  have s0: "heap s0 = heap s" "threads s0 = threads s" "sv_pool s0 = sv_pool s"
      "clients s0 = clients s" "client_count s0 = client_count s" "next_client s0 = next_client s" "received s0 = received s"
      "executed s0 = executed s" "refused s0 = refused s" "crashed s0 = crashed s" "world_of s0 = world_of s" "loop s0 = loop s"
    by (simp_all add: s0_def epoll_del_def)
  have res: "(t, s1) = (if r_detach r \<or> (rc \<noteq> 0 \<or> r_close r) then T_Close c else T_Loop c,
      if r_detach r then put c (cl\<lparr>c_fd := -1\<rparr>) s0 else s0)"
    using assms(1) False send unfolding task_reply_def Let_def send_def [symmetric] s0_def by auto
  show ?thesis
  proof (rule sent [of "if r_detach r then cl\<lparr>c_fd := -1\<rparr> else cl"])
  qed (use res s0 assms(2) in \<open>auto simp: put_def fun_upd_idem split: if_splits\<close>)
qed

lemma server_ok_reply:
  assumes "server_ok s" and "i < SERVER_DEFAULT_WORKERS" and "threads s ! i = T_Reply c r" and "heap s c = Some cl"
    and "task_reply rs c r cl s = Some ts"
  shows "server_ok (set_thread i ts)"
proof -
  obtain t s0 where ts: "ts = (t, s0)" by fastforce
  have i: "i < length (threads s)" using assms(2) server_okD(1) [OF assms(1)] by simp
  from assms(5) [unfolded ts] assms(4) show ?thesis
  proof (cases rule: task_reply_cases)
    case (over ub)
    then have "set_thread i ts = s\<lparr>crashed := Some ub\<rparr>"
      using assms(3) list_update_id [of "threads s" i] by (simp add: set_thread_def ts)
    with assms(1) show ?thesis by simp
  next
    case (sent cl1)
    define s1 where "s1 = set_thread i ts"
    have s1: "threads s1 = (threads s)[i := t]" "sv_pool s1 = sv_pool s" "clients s1 = clients s"
      "client_count s1 = client_count s" "next_client s1 = next_client s" "received s1 = received s"
      "executed s1 = executed s" "refused s1 = refused s" "heap s1 = (heap s)(c := Some cl1)"
      using sent by (simp_all add: s1_def set_thread_def ts)
    note k = client_okD [OF assms(1,4)]
    have w: "threads s ! i \<noteq> T_Idle" using assms(3) by simp
    have t: "client_of t = [c]" "active_of t = [c]" "exec_of c t = []" using sent(1) by auto
    have c1: "holders s1 c = holders s c" "actives s1 c = actives s c" "executing s1 c = executing s c" "queued s1 c = queued s c"
      using thread_counts [OF i s1(1), of c] counts_cong(1) [OF s1(2)] by (simp_all add: t assms(3))
    have fd: "c_fd cl1 \<ge> 0 \<longrightarrow> c \<in> set (clients s)" using sent(6) k(5) by blast
    have srv: "in_service cl1 \<longrightarrow> (task_in_flight cl \<longrightarrow> queued s c + actives s c = 1) \<and>
        (cmd_queue cl \<noteq> [] \<and> c \<notin> refused s \<longrightarrow> task_in_flight cl)"
      using k(6,7) sent(6) unfolding in_service_def by blast
    have "client_ok s1 c"
      using k(1-4,8) fd srv by (simp add: client_ok_def s1 c1 sent(2-5))
    then have "server_ok s1"
      using assms(3,4) s1 w t by (intro server_ok_thread [OF assms(1,2), of c t]) simp_all
    then show ?thesis by (simp add: s1_def)
  qed
qed

lemma server_ok_close:
  assumes "server_ok s" and "i < SERVER_DEFAULT_WORKERS" and "threads s ! i = T_Close c" and "heap s c = Some cl"
  shows "server_ok (set_thread i (T_Release c, server_close_client c s))"
proof -
  define s0 where "s0 = server_close_client c s"
  note sel = close_client_sel [OF assms(4), folded s0_def]
  have ok: "server_ok s0" using close_client_ok [OF assms(1,4)] by (simp add: s0_def)
  have i: "i < length (threads s0)" using assms(2) server_okD(1) [OF ok] by simp
  obtain cl0 where cl0: "heap s0 c = Some cl0"
    using held_allocated [OF ok assms(2), of c] assms(3) sel(1) by auto
  have fd: "c_fd cl0 < 0"
    using cl0 assms(4)
    by (auto simp: s0_def server_close_client_def with_client_def drop_ref_def unlink_client_def close_socket_def epoll_del_def
        Let_def split: if_splits)
  define s1 where "s1 = set_thread i (T_Release c, s0)"
  have s1: "threads s1 = (threads s0)[i := T_Release c]" "sv_pool s1 = sv_pool s0" "clients s1 = clients s0"
    "client_count s1 = client_count s0" "next_client s1 = next_client s0" "received s1 = received s0"
    "executed s1 = executed s0" "refused s1 = refused s0" "heap s1 = heap s0"
    by (simp_all add: s1_def set_thread_def)
  note k = client_okD [OF ok cl0]
  have w: "queued s0 c = 0" "actives s0 c = 1" "threads s0 ! i \<noteq> T_Idle"
    using thread_at_work [OF ok assms(2) cl0] assms(3) sel(1) by simp_all
  have c1: "holders s1 c = holders s0 c" "actives s1 c = 0" "executing s1 c = executing s0 c" "queued s1 c = 0"
    using thread_counts [OF i s1(1), of c] counts_cong(1) [OF s1(2)] w by (simp_all add: assms(3) sel(1))
  have "client_ok s1 c" using k(1,2,5,8) fd c1 w by (simp add: client_ok_def s1 cl0 in_service_def)
  then have "server_ok s1"
    using assms(3) cl0 s1 w sel(1) by (intro server_ok_thread [OF ok assms(2), of c "T_Release c"]) simp_all
  then show ?thesis by (simp add: s1_def s0_def)
qed

lemma server_ok_release:
  assumes "server_ok s" and "i < SERVER_DEFAULT_WORKERS" and "threads s ! i = T_Release c" and "heap s c = Some cl"
  shows "server_ok (set_thread i (T_Done, client_release_ref c s))"
proof -
  define s1 where "s1 = set_thread i (T_Done, client_release_ref c s)"
  have i: "i < length (threads s)" using assms(2) server_okD(1) [OF assms(1)] by simp
  have s1: "threads s1 = (threads s)[i := T_Done]" "sv_pool s1 = sv_pool s" "clients s1 = clients s"
    "client_count s1 = client_count s" "next_client s1 = next_client s" "received s1 = received s"
    "executed s1 = executed s" "refused s1 = refused s" "\<And>d. d \<noteq> c \<Longrightarrow> heap s1 d = heap s d"
    "heap s1 c = (if ref_count cl = 1 then None else Some (cl\<lparr>ref_count := ref_count cl - 1\<rparr>))"
    using assms(4) by (simp_all add: s1_def set_thread_def client_release_ref_def with_client_def drop_ref_def Let_def)
  note k = client_okD [OF assms(1,4)]
  have w: "threads s ! i \<noteq> T_Idle" "holders s c > 0" using thread_at_work(1,2) [OF assms(1,2,4)] assms(3) by simp_all
  have c1: "holders s1 c + 1 = holders s c" "actives s1 c = actives s c" "executing s1 c = executing s c" "queued s1 c = queued s c"
    using thread_counts [OF i s1(1), of c] counts_cong(1) [OF s1(2)] by (simp_all add: assms(3))
  have "client_ok s1 c"
  proof (cases "ref_count cl = 1")
    case True
    with k(1) w(2) c1(1) have "c \<notin> set (clients s)" "queued s c = 0" "holders s1 c = 0"
      by (auto simp: of_bool_def split: if_splits)
    then show ?thesis using True by (simp add: client_ok_def s1 c1)
  next
    case False
    moreover have "ref_count cl - 1 = of_bool (c \<in> set (clients s)) + int (queued s c + holders s1 c)"
      using k(1) c1(1) by simp
    ultimately show ?thesis
      using k(2-8) c1(2-4) by (simp add: client_ok_def s1 in_service_def)
  qed
  then have "server_ok s1"
    using assms(3,4) s1 w by (intro server_ok_thread [OF assms(1,2), of c T_Done]) simp_all
  then show ?thesis by (simp add: s1_def)
qed

section \<open>Steps of the pool\<close>

lemma server_ok_all:
  assumes "server_ok s" and "\<And>d. same_client s s' d" and "length (threads s') = SERVER_DEFAULT_WORKERS"
    and "\<And>i. i < SERVER_DEFAULT_WORKERS \<Longrightarrow> threads s' ! i \<noteq> T_Idle \<Longrightarrow> \<exists>t. workers (pool (sv_pool s')) ! i = W_Running t"
    and "clients s' = clients s" and "client_count s' = client_count s" and "next_client s' = next_client s"
  shows "server_ok s'"
proof (rule server_ok_step [OF assms(1,2) _ assms(3,4)])
  show "client_ok s' undefined" using same_client_ok [OF assms(2)] server_okD(6) [OF assms(1)] by simp
  show "heap s' d = None \<and> received s' d = [] \<and> executed s' d = []" if "d \<ge> next_client s'" for d
    using assms(2) [of d] that assms(7) server_okD(5) [OF assms(1), of d] by (simp add: same_client_def)
qed (use assms server_okD(3,4) [OF assms(1)] in simp_all)

lemma server_ok_sweep:
  assumes "server_ok s" and "i < SERVER_DEFAULT_WORKERS" and "threads s ! i = T_Sweep"
  shows "server_ok (set_thread i (T_Done, s\<lparr>world_of := w\<rparr>))"
proof -
  define s1 where "s1 = set_thread i (T_Done, s\<lparr>world_of := w\<rparr>)"
  have i: "i < length (threads s)" using assms(2) server_okD(1) [OF assms(1)] by simp
  have s1: "threads s1 = (threads s)[i := T_Done]" "sv_pool s1 = sv_pool s" "clients s1 = clients s"
    "client_count s1 = client_count s" "next_client s1 = next_client s" "received s1 = received s"
    "executed s1 = executed s" "refused s1 = refused s" "heap s1 = heap s"
    by (simp_all add: s1_def set_thread_def)
  have "same_client s s1 d" for d
    using thread_other [OF i s1(1), of d] counts_cong(1) [OF s1(2)] by (simp add: same_client_def s1 assms(3))
  moreover have "\<exists>t. workers (pool (sv_pool s1)) ! j = W_Running t"
    if "j < SERVER_DEFAULT_WORKERS" "threads s1 ! j \<noteq> T_Idle" for j
    using that server_okD(2) [OF assms(1)] assms(2,3) i by (cases "j = i") (auto simp: s1)
  ultimately have "server_ok s1"
    using assms s1 server_okD(1) [OF assms(1)] by (intro server_ok_all [OF assms(1)]) simp_all
  then show ?thesis by (simp add: s1_def)
qed

lemma server_ok_done:
  assumes "server_ok s" and "i < SERVER_DEFAULT_WORKERS" and "threads s ! i = T_Done"
  shows "server_ok (set_thread i (T_Idle, s\<lparr>sv_pool := (sv_pool s)\<lparr>pool := set_worker i W_Ready (pool (sv_pool s)), finished := f\<rparr>\<rparr>))"
    (is "server_ok ?s1")
proof -
  have i: "i < length (threads s)" using assms(2) server_okD(1) [OF assms(1)] by simp
  define s1 where "s1 = ?s1"
  have s1: "threads s1 = (threads s)[i := T_Idle]" "queued s1 = queued s" "clients s1 = clients s"
    "client_count s1 = client_count s" "next_client s1 = next_client s" "received s1 = received s"
    "executed s1 = executed s" "refused s1 = refused s" "heap s1 = heap s"
    "workers (pool (sv_pool s1)) = (workers (pool (sv_pool s)))[i := W_Ready]"
    by (simp_all add: s1_def set_thread_def queued_def fun_eq_iff)
  have "same_client s s1 d" for d
    using thread_other [OF i s1(1), of d] by (simp add: same_client_def s1 assms(3))
  moreover have "\<exists>t. workers (pool (sv_pool s1)) ! j = W_Running t"
    if "j < SERVER_DEFAULT_WORKERS" "threads s1 ! j \<noteq> T_Idle" for j
    using that server_okD(2) [OF assms(1)] i by (cases "j = i") (auto simp: s1)
  ultimately have "server_ok s1"
    using s1 server_okD(1) [OF assms(1)] by (intro server_ok_all [OF assms(1)]) simp_all
  then show ?thesis by (simp add: s1_def)
qed

lemma task_clients_simps [simp]:
  "task_clients [] = []"
  "task_clients (t # ts) = (if task_function t = Some Client_task then task_arg t # task_clients ts else task_clients ts)"
  "task_clients (xs @ ys) = task_clients xs @ task_clients ys"
  by (simp_all add: task_clients_def)

lemma server_ok_take:
  assumes "server_ok s" and "i < SERVER_DEFAULT_WORKERS" and "threads s ! i = T_Idle" and "ring_ok (pool (sv_pool s))"
    and "worker_section (pool (sv_pool s)) = (x, p)" and "length (workers (pool (sv_pool s))) = SERVER_DEFAULT_WORKERS"
  shows "server_ok (set_thread i (job_of x, s\<lparr>sv_pool := (sv_pool s)\<lparr>pool := set_worker i x p, started := f\<rparr>\<rparr>))"
    (is "server_ok ?s1")
proof -
  have i: "i < length (threads s)" using assms(2) server_okD(1) [OF assms(1)] by simp
  define s1 where "s1 = ?s1"
  have s1: "threads s1 = (threads s)[i := job_of x]" "clients s1 = clients s"
    "client_count s1 = client_count s" "next_client s1 = next_client s" "received s1 = received s"
    "executed s1 = executed s" "refused s1 = refused s" "heap s1 = heap s"
    "workers (pool (sv_pool s1)) = (workers p)[i := x]" "pending (pool (sv_pool s1)) = pending p"
    by (simp_all add: s1_def set_thread_def)
  have wp: "workers p = workers (pool (sv_pool s))"
    using assms(4) by (cases rule: worker_section_cases) (use assms(5) in auto)
  have run: "\<exists>t. workers (pool (sv_pool s1)) ! j = W_Running t"
    if "j < SERVER_DEFAULT_WORKERS" "threads s1 ! j \<noteq> T_Idle" for j
    using that server_okD(2) [OF assms(1)] i assms(6) by (cases "j = i"; cases x) (auto simp: s1 wp)
  note counts = thread_counts [OF i s1(1)]
  have same: "same_client s s1 d" if "pending p = pending (pool (sv_pool s))" "client_of (job_of x) = []" for d
    using that thread_other [OF i s1(1), of d] by (simp add: same_client_def s1 assms(3) queued_def)
  have stay: "server_ok s1" if "pending p = pending (pool (sv_pool s))" "client_of (job_of x) = []"
    using s1 run same [OF that] server_okD(1) [OF assms(1)] by (intro server_ok_all [OF assms(1)]) simp_all
  from assms(4) have "server_ok s1"
  proof (cases rule: worker_section_cases)
    case sleep
    then show ?thesis using assms(5) by (intro stay) auto
  next
    case leave
    then show ?thesis using assms(5) by (intro stay) auto
  next
    case (take t p')
    then have xp: "x = W_Running t" "p = p'" using assms(5) by simp_all
    show ?thesis
    proof (cases "task_function t = Some Client_task")
      case True
      let ?c = "task_arg t"
      have q: "queued s d = queued s1 d + of_bool (d = ?c)" for d
        using take(3) True by (simp add: queued_def s1 xp)
      have h: "holders s1 d = holders s d + of_bool (d = ?c)" "actives s1 d = actives s d + of_bool (d = ?c)"
        "executing s1 d = executing s d" for d
        using counts [of d] by (simp_all add: assms(3) xp True)
      have "client_ok s1 d" for d
      proof (cases "heap s d")
        case None
        with client_ok_None [OF assms(1) None] q [of d] h [of d] show ?thesis
          by (simp add: client_ok_def s1 split: if_splits)
      next
        case (Some cl)
        have sums: "queued s1 d + holders s1 d = queued s d + holders s d" "queued s1 d + actives s1 d = queued s d + actives s d"
          using q [of d] h(1,2) [of d] by simp_all
        show ?thesis using server_okD(6) [OF assms(1), of d] by (simp add: client_ok_def s1 Some sums h(3) del: of_nat_add)
      qed
      then show ?thesis
        using assms(1) s1 run by (simp add: server_ok_def)
    next
      case False
      have "client_of (job_of x) = []" using False by (simp add: xp split: option.split job.split)
      moreover have "queued s1 = queued s" using take(3) False by (simp add: queued_def s1 xp fun_eq_iff)
      ultimately have "same_client s s1 d" for d
        using thread_other [OF i s1(1), of d] by (simp add: same_client_def s1 assms(3))
      then show ?thesis
        using s1 run server_okD(1) [OF assms(1)] by (intro server_ok_all [OF assms(1)]) simp_all
    qed
  qed
  then show ?thesis by (simp add: s1_def)
qed

text \<open>A change of the pool that neither adds nor takes a client's job.\<close>

lemma server_ok_pool:
  assumes "server_ok s" and "task_clients (pending (pool r)) = task_clients (pending (pool (sv_pool s)))"
    and "\<And>i t. i < SERVER_DEFAULT_WORKERS \<Longrightarrow> workers (pool (sv_pool s)) ! i = W_Running t \<Longrightarrow> workers (pool r) ! i = W_Running t"
  shows "server_ok (s\<lparr>sv_pool := r\<rparr>)"
proof (rule server_ok_all [OF assms(1)])
  show "same_client s (s\<lparr>sv_pool := r\<rparr>) d" for d
    using assms(2) by (simp add: same_client_def queued_def holders_def actives_def executing_def)
  show "\<exists>t. workers (pool (sv_pool (s\<lparr>sv_pool := r\<rparr>))) ! i = W_Running t"
    if "i < SERVER_DEFAULT_WORKERS" "threads (s\<lparr>sv_pool := r\<rparr>) ! i \<noteq> T_Idle" for i
    using server_okD(2) [OF assms(1) that(1)] that assms(3) [OF that(1)] by auto
qed (use server_okD(1) [OF assms(1)] in simp_all)

text \<open>Submitting.\<close>

lemma submit_job_cases:
  assumes "submit_job js f a s = (rc, s1)" and "ring_ok (pool (sv_pool s))"
    and "length (workers (pool (sv_pool s))) = SERVER_DEFAULT_WORKERS"
  obtains r where "s1 = s\<lparr>sv_pool := r\<rparr>" "ring_ok (pool r)"
    "pending (pool r) = pending (pool (sv_pool s)) @ (if rc = KV_OK then [\<lparr>task_function = Some f, task_arg = a\<rparr>] else [])"
    "\<And>i t. i < SERVER_DEFAULT_WORKERS \<Longrightarrow> workers (pool (sv_pool s)) ! i = W_Running t \<Longrightarrow> workers (pool r) ! i = W_Running t"
proof -
  obtain p where sub: "thread_pool_submit js (Some f) a (pool (sv_pool s)) = (rc, p)"
    using assms(1) by (cases "thread_pool_submit js (Some f) a (pool (sv_pool s))") (auto simp: submit_job_def)
  let ?r = "(sv_pool s)\<lparr>pool := p, accepted := (if rc = KV_OK then accepted (sv_pool s) @ [\<lparr>task_function = Some f, task_arg = a\<rparr>]
      else accepted (sv_pool s))\<rparr>"
  have s1: "s1 = s\<lparr>sv_pool := ?r\<rparr>" using assms(1) sub by (simp add: submit_job_def)
  show thesis
  proof (cases "rc = KV_OK")
    case False
    then have "p = pool (sv_pool s)" using sub by (auto simp: thread_pool_submit_def split: if_splits)
    then show thesis using that [OF s1] assms(2) False by simp
  next
    case True
    let ?t = "\<lparr>task_function = Some f, task_arg = a\<rparr>"
    have p: "p = (enqueue ?t (pool (sv_pool s)))\<lparr>workers := wake js (workers (pool (sv_pool s)))\<rparr>"
      "queue_count (pool (sv_pool s)) < queue_capacity (pool (sv_pool s))"
      using sub True by (auto simp: thread_pool_submit_def split: if_splits)
    note e = enqueue_pending [OF assms(2) p(2), of ?t]
    show thesis
    proof (rule that [OF s1])
      show "ring_ok (pool ?r)" using e(1) by (simp add: p(1) ring_ok_def)
      show "pending (pool ?r) = pending (pool (sv_pool s)) @ (if rc = KV_OK then [?t] else [])"
        using e(2) True by (simp add: p(1) pending_def)
      show "workers (pool ?r) ! i = W_Running t" if "i < SERVER_DEFAULT_WORKERS" "workers (pool (sv_pool s)) ! i = W_Running t" for i t
        using that assms(3) by (simp add: p(1))
    qed
  qed
qed

lemma server_ok_enqueue:
  assumes "server_ok s" and "heap s c = Some cl0" and "cl = cl0\<lparr>read_buf := b\<rparr>" and "ring_ok (pool (sv_pool s))"
    and "length (workers (pool (sv_pool s))) = SERVER_DEFAULT_WORKERS"
  shows "server_ok (enqueue_cmd js c cmd cl s)"
proof -
  note k = client_okD [OF assms(1,2)]
  have c: "c < next_client s" using server_okD(5) [OF assms(1), of c] assms(2) by (cases "next_client s \<le> c") auto
  define s0 where "s0 = s\<lparr>received := (received s)(c := received s c @ [cmd])\<rparr>"
  define cl1 where "cl1 = cl\<lparr>cmd_queue := cmd_queue cl @ [cmd]\<rparr>"
  have cl1: "ref_count cl1 = ref_count cl0" "task_in_flight cl1 = task_in_flight cl0" "c_fd cl1 = c_fd cl0"
    "in_service cl1 = in_service cl0" "cmd_queue cl1 = cmd_queue cl0 @ [cmd]" "c_closed cl1 = c_closed cl0"
    by (simp_all add: cl1_def assms(3) in_service_def)
  have rcv: "\<exists>ls. mset ls = executing s c \<and> executed s c @ ls @ cmd_queue cl0 @ [cmd] = received s c @ [cmd]"
    using k(8) by auto
  show ?thesis
  proof (cases "task_in_flight cl0 \<or> c_closed cl0")
    case True
    then have run: "enqueue_cmd js c cmd cl s = put c cl1 s0"
      by (auto simp: enqueue_cmd_def Let_def s0_def cl1_def [symmetric] cl1)
    have srv: "in_service cl0 \<longrightarrow> task_in_flight cl0" using True by (auto simp: in_service_def)
    define s1 where "s1 = put c cl1 s0"
    have s1: "heap s1 = (heap s)(c := Some cl1)" "threads s1 = threads s" "sv_pool s1 = sv_pool s" "clients s1 = clients s"
      "client_count s1 = client_count s" "next_client s1 = next_client s" "refused s1 = refused s" "executed s1 = executed s"
      "received s1 = (received s)(c := received s c @ [cmd])"
      by (simp_all add: s1_def put_def s0_def)
    have "client_ok s1 c"
      using k(1-6) srv rcv counts_cong [of s1 s] by (simp add: client_ok_def s1 cl1)
    then have "server_ok s1"
      using assms(2) server_okD(3,4) [OF assms(1)] s1 by (intro server_ok_client [OF assms(1), of c]) simp_all
    then show ?thesis by (simp add: run s1_def)
  next
    case False
    obtain rc s2 where sub: "submit_job js Client_task c s0 = (rc, s2)" by fastforce
    from submit_job_cases [OF sub] assms(4,5) obtain r where r: "s2 = s0\<lparr>sv_pool := r\<rparr>"
      "pending (pool r) = pending (pool (sv_pool s)) @ (if rc = KV_OK then [\<lparr>task_function = Some Client_task, task_arg = c\<rparr>] else [])"
      "\<And>i t. i < SERVER_DEFAULT_WORKERS \<Longrightarrow> workers (pool (sv_pool s)) ! i = W_Running t \<Longrightarrow> workers (pool r) ! i = W_Running t"
      by (auto simp: s0_def)
    have "queued s c + actives s c \<noteq> 1" using k(4) False by blast
    then have idle: "queued s c = 0" "actives s c = 0" using k(3) by linarith+
    define cl2 where "cl2 = (if rc = KV_OK then cl1\<lparr>task_in_flight := True, ref_count := ref_count cl1 + 1\<rparr> else cl1)"
    define s3 where "s3 = enqueue_cmd js c cmd cl s"
    have s3: "heap s3 = (heap s)(c := Some cl2)" "threads s3 = threads s" "clients s3 = clients s" "client_count s3 = client_count s"
      "next_client s3 = next_client s" "received s3 = (received s)(c := received s c @ [cmd])" "executed s3 = executed s"
      "refused s3 = (if rc = KV_OK then refused s - {c} else insert c (refused s))" "sv_pool s3 = r"
      using False sub r(1)
      by (simp_all add: s3_def enqueue_cmd_def Let_def s0_def [symmetric] cl1_def [symmetric] cl1)
        (simp_all add: put_def cl2_def s0_def cl1(1))
    have q: "queued s3 d = queued s d + of_bool (d = c \<and> rc = KV_OK)" for d
      using r(2) by (simp add: queued_def s3)
    have h: "holders s3 = holders s" "actives s3 = actives s" "executing s3 = executing s"
      using counts_cong(2) [OF s3(2)] by simp_all
    have cl2: "cmd_queue cl2 = cmd_queue cl0 @ [cmd]" "c_fd cl2 = c_fd cl0" "in_service cl2 = in_service cl0"
      "task_in_flight cl2 = (rc = KV_OK)" "ref_count cl2 = ref_count cl0 + of_bool (rc = KV_OK)"
      using cl1 False by (simp_all add: cl2_def in_service_def)
    have "client_ok s3 c"
      using k(1,2,5) idle rcv by (simp add: client_ok_def s3 q h cl2)
    moreover have "same_client s s3 d" if "d \<noteq> c" for d using that by (simp add: same_client_def s3 q h)
    ultimately have "server_ok s3"
    proof (intro server_ok_step [OF assms(1), of c])
      show "\<exists>t. workers (pool (sv_pool s3)) ! i = W_Running t"
        if "i < SERVER_DEFAULT_WORKERS" "threads s3 ! i \<noteq> T_Idle" for i
        using server_okD(2) [OF assms(1) that(1)] that r(3) [OF that(1)] by (auto simp: s3)
      show "heap s3 d = None \<and> received s3 d = [] \<and> executed s3 d = []" if "d \<ge> next_client s3" for d
        using that c server_okD(5) [OF assms(1), of d] by (auto simp: s3)
    qed (use s3 server_okD(1,3,4) [OF assms(1)] in simp_all)
    then show ?thesis by (simp add: s3_def)
  qed
qed

section \<open>Steps of the event loop\<close>

lemma server_ok_accept:
  assumes "server_ok s"
  shows "server_ok (accept_client fd alloc_ok epoll_ok s)"
proof (cases "client_count s \<ge> SERVER_MAX_CLIENTS \<or> \<not> alloc_ok")
  case True
  then show ?thesis using assms by (auto simp: accept_client_def Let_def)
next
  case False
  define c where "c = next_client s"
  define cl where "cl = \<lparr>c_fd = fd, read_buf = [], c_closed = False, cmd_queue = [], task_in_flight = False, ref_count = 1\<rparr>"
  define s1 where "s1 = put c cl (s\<lparr>opened_sockets := opened_sockets s @ [fd], next_client := c + 1, clients := c # clients s,
      client_count := client_count s + 1\<rparr>)"
  have s1: "heap s1 = (heap s)(c := Some cl)" "threads s1 = threads s" "sv_pool s1 = sv_pool s" "clients s1 = c # clients s"
    "client_count s1 = client_count s + 1" "next_client s1 = c + 1" "refused s1 = refused s" "executed s1 = executed s"
    "received s1 = received s"
    by (simp_all add: s1_def put_def)
  have fresh: "heap s c = None" "received s c = []" "executed s c = []" using server_okD(5) [OF assms, of c] by (simp_all add: c_def)
  note none = client_ok_None [OF assms fresh(1)]
  have zero: "actives s c = 0" "executing s c = {#}"
  proof -
    have "c \<notin># spread client_of (threads s)" using none by (simp add: holders_def count_eq_zero_iff)
    then have "c \<notin># spread active_of (threads s)"
      unfolding spread_def using active_client [of c] by (auto simp: count_list_0_iff)
    then show "actives s c = 0" by (simp add: actives_def count_eq_zero_iff)
    with executing_le [of s c] show "executing s c = {#}" by simp
  qed
  have "client_ok s1 c"
    using none fresh zero counts_cong [of s1 s] by (simp add: client_ok_def s1 cl_def in_service_def)
  moreover have "same_client s s1 d" if "d \<noteq> c" for d
    using that counts_cong [of s1 s] s1 by (simp add: same_client_def)
  ultimately have ok: "server_ok s1"
  proof (intro server_ok_step [OF assms, of c])
    show "heap s1 d = None \<and> received s1 d = [] \<and> executed s1 d = []" if "d \<ge> next_client s1" for d
      using that server_okD(5) [OF assms, of d] by (simp add: s1 c_def)
  qed (use s1 none server_okD(1-4) [OF assms] in simp_all)
  have "accept_client fd alloc_ok epoll_ok s = (if \<not> epoll_ok then server_close_client c s1 else s1\<lparr>watched := fd # watched s1\<rparr>)"
    using False by (simp add: accept_client_def Let_def s1_def c_def cl_def)
  with ok close_client_ok [OF ok] s1(1) show ?thesis by simp
qed

lemma server_ok_put_buf:
  assumes "server_ok s" and "heap s c = Some cl"
  shows "server_ok (put c (cl\<lparr>read_buf := b\<rparr>) s)"
proof -
  define s1 where "s1 = put c (cl\<lparr>read_buf := b\<rparr>) s"
  have s1: "heap s1 = (heap s)(c := Some (cl\<lparr>read_buf := b\<rparr>))" "threads s1 = threads s" "sv_pool s1 = sv_pool s"
    "clients s1 = clients s" "client_count s1 = client_count s" "next_client s1 = next_client s" "refused s1 = refused s"
    "executed s1 = executed s" "received s1 = received s"
    by (simp_all add: s1_def put_def)
  have "client_ok s1 c"
    using server_okD(6) [OF assms(1), of c] assms(2) counts_cong [of s1 s] by (simp add: client_ok_def s1 in_service_def)
  then have "server_ok s1"
    using assms(2) server_okD(3,4) [OF assms(1)] s1 by (intro server_ok_client [OF assms(1), of c]) simp_all
  then show ?thesis by (simp add: s1_def)
qed

lemma server_ok_read: "server_ok s \<Longrightarrow> server_ok (read_client rs c s)"
proof (cases "heap s c")
  case (Some cl)
  assume ok: "server_ok s"
  obtain rc b where b: "recv_loop rs (read_buf cl) = (rc, b)" by fastforce
  note ok1 = server_ok_put_buf [OF ok Some, of b]
  have "server_ok (server_close_client c (put c (cl\<lparr>read_buf := b\<rparr>) s))"
    by (rule close_client_ok [OF ok1, of c "cl\<lparr>read_buf := b\<rparr>"]) (simp add: put_def)
  with ok1 show ?thesis by (simp add: read_client_def with_client_def Some b Let_def)
qed (simp add: read_client_def with_client_def)

lemma server_ok_frame:
  assumes "server_ok s" and "ring_ok (pool (sv_pool s))" and "length (workers (pool (sv_pool s))) = SERVER_DEFAULT_WORKERS"
  shows "server_ok (frame_line js alloc_ok c s)"
proof (cases "heap s c")
  case (Some cl)
  from close_client_ok [OF assms(1) Some] server_ok_enqueue [OF assms(1) Some refl assms(2,3)] assms(1) show ?thesis
    by (simp add: frame_line_def with_client_def Some split: framed.split)
qed (use assms in \<open>simp add: frame_line_def with_client_def\<close>)

text \<open>What the event loop and the pool do to the pool is what the pool allows.\<close>

lemma pool_reachable_submit:
  assumes "pool_reachable n cap (sv_pool s)" and "signal_ok js (workers (pool (sv_pool s)))"
  shows "pool_reachable n cap (sv_pool (snd (submit_job js f a s)))"
proof -
  obtain rc p where sub: "thread_pool_submit js (Some f) a (pool (sv_pool s)) = (rc, p)" by fastforce
  from pool_reachable.step [OF assms(1) pool_step.submit [OF assms(2) sub]] show ?thesis
    by (simp add: submit_job_def sub)
qed

lemma pool_facts:
  assumes "pool_reachable SERVER_DEFAULT_WORKERS SERVER_DEFAULT_QUEUE_SIZE r"
  shows "ring_ok (pool r)" "length (workers (pool r)) = SERVER_DEFAULT_WORKERS" "num_threads (pool r) = SERVER_DEFAULT_WORKERS"
  using pool_inv_reachable [OF assms] by (simp_all add: pool_inv_def Let_def)

section \<open>Every step keeps the invariant\<close>

definition server_inv :: "server \<Rightarrow> bool" where
  "server_inv s \<longleftrightarrow> server_ok s \<and> pool_reachable SERVER_DEFAULT_WORKERS SERVER_DEFAULT_QUEUE_SIZE (sv_pool s)"

lemma pool_unchanged:
  "sv_pool (server_close_client c s) = sv_pool s" "sv_pool (client_release_ref c s) = sv_pool s"
  "sv_pool (read_client rs c s) = sv_pool s" "sv_pool (accept_client fd alloc_ok epoll_ok s) = sv_pool s"
  "sv_pool (snd (task_next c cl s)) = sv_pool s" "sv_pool (snd (task_execute pid exited c line cl s)) = sv_pool s"
  "sv_pool (put c cl s) = sv_pool s"
proof -
  show cl: "sv_pool (server_close_client c s) = sv_pool s" for c s
    by (cases "heap s c")
      (simp_all add: server_close_client_def with_client_def drop_ref_def unlink_client_def close_socket_def epoll_del_def Let_def)
  show "sv_pool (put c cl s) = sv_pool s" by (simp add: put_def)
  then show "sv_pool (read_client rs c s) = sv_pool s"
    by (cases "heap s c") (simp_all add: read_client_def with_client_def split_beta Let_def cl put_def)
  show "sv_pool (client_release_ref c s) = sv_pool s"
    by (cases "heap s c") (simp_all add: client_release_ref_def with_client_def drop_ref_def Let_def)
  show "sv_pool (accept_client fd alloc_ok epoll_ok s) = sv_pool s"
    by (simp add: accept_client_def Let_def cl put_def close_socket_def)
  show "sv_pool (snd (task_next c cl s)) = sv_pool s" by (simp add: task_next_def put_def)
  show "sv_pool (snd (task_execute pid exited c line cl s)) = sv_pool s" by (simp add: task_execute_def split: sum.split)
qed

lemma pool_enqueue: "sv_pool (enqueue_cmd js c cmd cl s) = sv_pool s \<or>
    sv_pool (enqueue_cmd js c cmd cl s) = sv_pool (snd (submit_job js Client_task c s))"
  by (auto simp: enqueue_cmd_def Let_def split_beta put_def submit_job_def)

lemma pool_frame:
  assumes "pool_reachable n cap (sv_pool s)" and "signal_ok js (workers (pool (sv_pool s)))"
  shows "pool_reachable n cap (sv_pool (frame_line js alloc_ok c s))"
proof (cases "heap s c")
  case (Some cl)
  have "pool_reachable n cap (sv_pool (enqueue_cmd js c cmd cl' s))" for cmd cl'
    using pool_enqueue [of js c cmd cl' s] pool_reachable_submit [OF assms] assms(1) by auto
  with assms(1) show ?thesis
    by (simp add: frame_line_def with_client_def Some pool_unchanged split: framed.split)
qed (use assms(1) in \<open>simp add: frame_line_def with_client_def\<close>)

lemma find_client_no_dangling: "\<forall>c\<in>set cs. h c \<noteq> None \<Longrightarrow> \<exists>r. find_client fd cs h = Inr r"
  by (induction cs) auto

lemma loop_event_inv:
  assumes "server_inv s" and "loop_event e s = Some s'" and "wakes_someone e s"
  shows "server_inv s'"
proof -
  have ok: "server_ok s" and pool: "pool_reachable SERVER_DEFAULT_WORKERS SERVER_DEFAULT_QUEUE_SIZE (sv_pool s)"
    using assms(1) by (simp_all add: server_inv_def)
  note pf = pool_facts [OF pool]
  show ?thesis
  proof (cases "loop s")
    case Waiting
    show ?thesis
    proof (cases e)
      case (Timer js)
      obtain rc s1 where sub: "submit_job js Sweep_task 0 s = (rc, s1)" by fastforce
      from submit_job_cases [OF sub pf(1,2)] obtain r where r: "s1 = s\<lparr>sv_pool := r\<rparr>"
        "pending (pool r) = pending (pool (sv_pool s)) @ (if rc = KV_OK then [\<lparr>task_function = Some Sweep_task, task_arg = 0\<rparr>] else [])"
        "\<And>i t. i < SERVER_DEFAULT_WORKERS \<Longrightarrow> workers (pool (sv_pool s)) ! i = W_Running t \<Longrightarrow> workers (pool r) ! i = W_Running t"
        by blast
      have "server_ok s1" unfolding r(1) using r(2,3) by (intro server_ok_pool [OF ok]) simp_all
      moreover have "pool_reachable SERVER_DEFAULT_WORKERS SERVER_DEFAULT_QUEUE_SIZE (sv_pool s1)"
        using pool_reachable_submit [OF pool, of js Sweep_task 0] assms(3) sub by (simp add: Timer)
      moreover have "s' = s1" using assms(2) sub by (simp add: loop_event_def Waiting Timer)
      ultimately show ?thesis by (simp add: server_inv_def)
    next
      case (Client_event fd)
      then have "\<exists>x y. s' = s\<lparr>crashed := x\<rparr> \<or> s' = s \<or> s' = s\<lparr>loop := y\<rparr>"
        using assms(2) by (auto simp: loop_event_def Waiting split: if_splits sum.splits option.splits)
      with assms(1) show ?thesis by (auto simp: server_inv_def)
    qed (use assms(1,2) in \<open>auto simp: loop_event_def Waiting server_inv_def server_ok_accept pool_unchanged split: if_splits\<close>)
  next
    case (Found c)
    have "server_ok (server_close_client c s)"
      using close_client_ok [OF ok] ok by (cases "heap s c") (simp_all add: server_close_client_def with_client_def)
    then show ?thesis
      using assms(2) ok pool by (cases e) (auto simp: loop_event_def Found server_inv_def server_ok_read pool_unchanged)
  next
    case (Framing c)
    then show ?thesis
      using assms(2,3) ok pool server_ok_frame [OF ok pf(1,2)] pool_frame [OF pool]
      by (cases e) (auto simp: loop_event_def server_inv_def)
  qed
qed

lemma pool_set_thread [simp]: "sv_pool (set_thread i ts) = sv_pool (snd ts)"
  by (simp add: set_thread_def)

lemma on_client_Some: "heap s c = Some cl \<Longrightarrow> on_client i c act s = set_thread i (act cl s)"
  by (simp add: on_client_def with_client_def)

lemma thread_step_inv:
  assumes "server_inv s" and "i < SERVER_DEFAULT_WORKERS" and "thread_step i pid exited rs s = Some s'"
  shows "server_inv s'"
proof -
  have ok: "server_ok s" and pool: "pool_reachable SERVER_DEFAULT_WORKERS SERVER_DEFAULT_QUEUE_SIZE (sv_pool s)"
    using assms(1) by (simp_all add: server_inv_def)
  have alive: "\<exists>cl. heap s c = Some cl" if "c \<in> set (client_of (threads s ! i))" for c
    using held_allocated [OF ok assms(2) that] .
  show ?thesis
  proof (cases "threads s ! i")
    case T_Idle
    with assms(3) show ?thesis by (simp add: thread_step_def)
  next
    case (T_Loop c)
    then obtain cl where "heap s c = Some cl" using alive by auto
    with server_ok_next [OF ok assms(2) T_Loop this] pool assms(3) show ?thesis
      by (auto simp: thread_step_def T_Loop on_client_Some server_inv_def pool_unchanged)
  next
    case (T_Exec c line)
    then obtain cl where "heap s c = Some cl" using alive by auto
    with server_ok_execute [OF ok assms(2) T_Exec this] pool assms(3) show ?thesis
      by (auto simp: thread_step_def T_Exec on_client_Some server_inv_def pool_unchanged)
  next
    case (T_Reply c r)
    then obtain cl where cl: "heap s c = Some cl" using alive by auto
    then obtain t s1 where run: "task_reply rs c r cl s = Some (t, s1)" "s' = set_thread i (t, s1)"
      using assms(3) by (auto simp: thread_step_def T_Reply)
    have "sv_pool s1 = sv_pool s"
      using run(1) cl by (cases rule: task_reply_cases) auto
    with server_ok_reply [OF ok assms(2) T_Reply cl run(1)] run(2) pool show ?thesis by (simp add: server_inv_def)
  next
    case (T_Close c)
    then obtain cl where "heap s c = Some cl" using alive by auto
    with server_ok_close [OF ok assms(2) T_Close this] pool assms(3) show ?thesis
      by (auto simp: thread_step_def T_Close server_inv_def pool_unchanged)
  next
    case (T_Release c)
    then obtain cl where "heap s c = Some cl" using alive by auto
    with server_ok_release [OF ok assms(2) T_Release this] pool assms(3) show ?thesis
      by (auto simp: thread_step_def T_Release server_inv_def pool_unchanged)
  next
    case T_Sweep
    with server_ok_sweep [OF ok assms(2) T_Sweep] pool assms(3) show ?thesis
      by (auto simp: thread_step_def server_inv_def)
  next
    case T_Done
    from assms(3) obtain t where t: "workers (pool (sv_pool s)) ! i = W_Running t"
      by (auto simp: thread_step_def T_Done split: worker.splits)
    have "worker_step (sv_pool s) ((sv_pool s)\<lparr>pool := set_worker i W_Ready (pool (sv_pool s)), finished := finished (sv_pool s) @ [t]\<rparr>)"
      using assms(2) pool_facts(3) [OF pool] t by (intro worker_step.ran) simp_all
    from pool_reachable.step [OF pool pool_step.work [OF this]] server_ok_done [OF ok assms(2) T_Done] assms(3) t
    show ?thesis by (auto simp: thread_step_def T_Done server_inv_def)
  qed
qed

lemma pool_take_inv:
  assumes "server_inv s" and "i < SERVER_DEFAULT_WORKERS" and "pool_take i s = Some s'"
  shows "server_inv s'"
proof -
  have ok: "server_ok s" and pool: "pool_reachable SERVER_DEFAULT_WORKERS SERVER_DEFAULT_QUEUE_SIZE (sv_pool s)"
    using assms(1) by (simp_all add: server_inv_def)
  obtain x p where w: "worker_section (pool (sv_pool s)) = (x, p)" by fastforce
  have st: "workers (pool (sv_pool s)) ! i = W_Ready" "threads s ! i = T_Idle"
    "s' = set_thread i (job_of x, s\<lparr>sv_pool := (sv_pool s)\<lparr>pool := set_worker i x p, started := started (sv_pool s) @ task_of x\<rparr>\<rparr>)"
    using assms(3) w by (auto simp: pool_take_def Let_def split: if_splits)
  have "worker_step (sv_pool s) ((sv_pool s)\<lparr>pool := set_worker i x p, started := started (sv_pool s) @ task_of x\<rparr>)"
    using assms(2) pool_facts(3) [OF pool] st(1) w by (intro worker_step.locked) simp_all
  from pool_reachable.step [OF pool pool_step.work [OF this]]
    server_ok_take [OF ok assms(2) st(2) pool_facts(1) [OF pool] w pool_facts(2) [OF pool]]
  show ?thesis by (simp add: st(3) server_inv_def)
qed

lemma pool_wake_inv:
  assumes "server_inv s" and "i < SERVER_DEFAULT_WORKERS" and "pool_wake i s = Some s'"
  shows "server_inv s'"
proof -
  have ok: "server_ok s" and pool: "pool_reachable SERVER_DEFAULT_WORKERS SERVER_DEFAULT_QUEUE_SIZE (sv_pool s)"
    using assms(1) by (simp_all add: server_inv_def)
  let ?r = "(sv_pool s)\<lparr>pool := set_worker i W_Ready (pool (sv_pool s))\<rparr>"
  have st: "workers (pool (sv_pool s)) ! i = W_Waiting" "s' = s\<lparr>sv_pool := ?r\<rparr>"
    using assms(3) by (auto simp: pool_wake_def split: if_splits)
  have "worker_step (sv_pool s) ?r" using assms(2) pool_facts(3) [OF pool] st(1) by (intro worker_step.woken) simp_all
  moreover have "workers (pool ?r) ! j = W_Running t" if "workers (pool (sv_pool s)) ! j = W_Running t" for j t
    using that st(1) by (cases "j = i") auto
  ultimately show ?thesis
    using pool_reachable.step [OF pool pool_step.work] server_ok_pool [OF ok, of ?r] by (simp add: st(2) server_inv_def)
qed

lemma destroy_begin_inv:
  assumes "server_inv s"
  shows "server_inv (destroy_begin s)"
proof -
  have ok: "server_ok s" and pool: "pool_reachable SERVER_DEFAULT_WORKERS SERVER_DEFAULT_QUEUE_SIZE (sv_pool s)"
    using assms by (simp_all add: server_inv_def)
  let ?r = "(sv_pool s)\<lparr>pool := begin_shutdown (pool (sv_pool s))\<rparr>"
  have "workers (pool ?r) ! j = W_Running t" if "j < SERVER_DEFAULT_WORKERS" "workers (pool (sv_pool s)) ! j = W_Running t" for j t
    using that pool_facts(2) [OF pool] by (simp add: begin_shutdown_def)
  moreover have "pending (pool ?r) = pending (pool (sv_pool s))" by (simp add: begin_shutdown_def pending_def)
  ultimately have "server_ok (s\<lparr>sv_pool := ?r\<rparr>)" by (intro server_ok_pool [OF ok]) simp_all
  then have "server_ok (destroy_begin s)"
    by (subst server_ok_cong [of _ "s\<lparr>sv_pool := ?r\<rparr>"]) (simp_all add: destroy_begin_def)
  with pool_reachable.step [OF pool pool_step.stop] show ?thesis by (simp add: server_inv_def destroy_begin_def)
qed

lemma server_inv_init:
  assumes "server_init a w = (Some s, opened, undone, w')"
  shows "server_inv s"
proof -
  obtain p alloc_ok mutex_ok cond_ok spawn_ok where p:
    "thread_pool_create SERVER_DEFAULT_WORKERS SERVER_DEFAULT_QUEUE_SIZE alloc_ok mutex_ok cond_ok spawn_ok 0 = Some p"
    "sv_pool s = fresh_run p" and s: "clients s = []" "client_count s = 0" "heap s = Map.empty"
    "threads s = replicate SERVER_DEFAULT_WORKERS T_Idle" "received s = (\<lambda>_. [])" "executed s = (\<lambda>_. [])"
    using assms by (auto simp: server_init_def Let_def split: if_splits option.splits prod.splits)
  have "pending p = []" using p(1) by (auto simp: thread_pool_create_def pending_def split: if_splits)
  then have "client_ok s c" for c
    by (simp add: client_ok_def s queued_def holders_def p(2) fresh_run_def spread_def)
  then have "server_ok s" by (simp add: server_ok_def s)
  with pool_reachable.create [OF p(1)] show ?thesis by (simp add: server_inv_def p(2))
qed

lemma server_inv_step:
  assumes "server_inv s" and "server_event e s = Some s'"
  shows "server_inv s'"
proof -
  have len: "length (threads s) = SERVER_DEFAULT_WORKERS" using assms(1) server_okD(1) by (simp add: server_inv_def)
  show ?thesis
  proof (cases e)
    case (Take i)
    with assms len pool_take_inv show ?thesis by (auto simp: server_event_def split: if_splits)
  next
    case (Wake i)
    with assms len pool_wake_inv show ?thesis by (auto simp: server_event_def split: if_splits)
  next
    case (Thread i pid exited rs)
    with assms len thread_step_inv show ?thesis by (auto simp: server_event_def split: if_splits)
  next
    case Run
    with assms show ?thesis by (auto simp: server_event_def run_begin_def server_inv_def split: if_splits)
  next
    case Stop
    with assms show ?thesis by (auto simp: server_event_def server_stop_def server_inv_def split: if_splits)
  next
    case Destroy
    with assms destroy_begin_inv show ?thesis by (auto simp: server_event_def split: if_splits)
  qed (use assms loop_event_inv in \<open>auto simp: server_event_def split: if_splits\<close>)
qed

lemma server_reachable_inv: "server_reachable w s \<Longrightarrow> server_inv s"
  by (induction rule: server_reachable.induct) (auto intro: server_inv_init server_inv_step)

section \<open>An example run\<close>

fun run_events :: "event list \<Rightarrow> server \<Rightarrow> server option" where
  "run_events [] s = Some s"
| "run_events (e # es) s = (case server_event e s of None \<Rightarrow> None | Some s' \<Rightarrow> run_events es s')"

lemma run_events_reachable: "server_reachable w s \<Longrightarrow> run_events es s = Some s' \<Longrightarrow> server_reachable w s'"
  by (induction es arbitrary: s) (auto split: option.splits intro: server_reachable.step)

lemma replicate_4: "replicate 4 x = [x, x, x, x]"
  by (simp add: eval_nat_numeral)

text \<open>A server that has just been started is reachable.\<close>

lemma idle_reachable: "server_reachable (quiet_world 7 (fresh_store 8 0 0)) idle_server"
proof (rule server_reachable.start)
  let ?a = "\<lparr>a_socket = 3, a_setsockopt = True, a_bind = True, a_listen = True, a_name = Some 6379, a_epoll = 4, a_event = 5,
    a_add_listen = True, a_add_shutdown = True, a_timer = 6, a_settime = True, a_add_timer = True,
    a_pool = (\<lambda>_. True, True, True, \<lambda>_. True), a_mutex = True\<rparr>"
  show "server_init ?a (quiet_world 7 (fresh_store 8 0 0)) = (Some idle_server, [3, 4, 5, 6], [], quiet_world 7 (fresh_store 8 0 0))"
    by (simp add: server_init_def init_timer_def thread_pool_create_def idle_server_def quiet_world_def fresh_store_def Let_def
        list_all_iff)
qed

text \<open>A client connects and sends \<^verbatim>\<open>QUIT\<close>; the loop has just found it again for a further event when a
  worker executes the command, closes the client and drops the last reference.\<close>

definition quit_run :: "event list" where
  "quit_run = [Run, Accept 7 True True, Client_event 7, Readable [Received (''QUIT'' @ [nl])], Frame [] True, Frame [] True,
     Client_event 7, Take 0, Thread 0 0 True [], Thread 0 0 True [], Thread 0 0 True [Sent 5], Thread 0 0 True [],
     Thread 0 0 True [], Hang_up]"

lemma quit_framing:
  "recv_loop [Received (''QUIT'' @ [nl])] [] = (0, ''QUIT'' @ [nl])"
  "next_line (''QUIT'' @ [nl]) = Line ''QUIT'' []" "next_line [] = No_line"
  by (simp_all add: recv_loop.simps next_line_def split_at_def)

lemma quit_line: "protocol_execute_command 8320 0 True 7 ''QUIT'' w = Inr ((answer ''BYE'')\<lparr>r_close := True\<rparr>, w)"
  by (simp add: protocol_execute_command_def c_str_def split_at_def is_write_def run_command_def do_quit_def no_arg_def)

lemmas event_defs =
  server_event_def loop_event_def accept_client_def server_find_client_def read_client_def frame_line_def with_client_def
  enqueue_cmd_def submit_job_def thread_pool_submit_def enqueue_def wake_def signal_ok_def put_def Let_def
  pool_take_def worker_section_def dequeue_def set_worker_def set_thread_def thread_step_def on_client_def task_next_def
  task_execute_def task_reply_def server_close_client_def drop_ref_def unlink_client_def close_socket_def epoll_del_def
  client_release_ref_def server_stop_def run_begin_def destroy_begin_def begin_shutdown_def

lemmas quit_run_defs =
  quit_run_def event_defs idle_server_def fresh_run_def replicate_4 upt_conv_Cons quit_framing [simplified] quit_line
  answer_def no_reply_def

lemma quit_received:
  "\<exists>s. run_events (take 5 quit_run) idle_server = Some s \<and> crashed s = None \<and>
     heap s 0 = Some \<lparr>c_fd = 7, read_buf = [], c_closed = False, cmd_queue = [''QUIT''], task_in_flight = True, ref_count = 2\<rparr> \<and>
     clients s = [0] \<and> refused s = {} \<and> received s 0 = [''QUIT''] \<and> executed s 0 = []"
  by (simp add: quit_run_defs)

end
