(* ===== verification/KV_Service.thy ===== *)
theory KV_Service
  imports KV_Session
begin

text \<open>
  What the server guarantees its clients and its store, derived from the invariant of every
  interleaving: exact reference counts, ordered execution, no forgotten command and a sound store.
\<close>

section \<open>Clients\<close>

text \<open>C5. Reference counts are exact in every state the event loop and the workers can reach: a client
  that is allocated has one reference for being listed and one for each of its jobs, queued or
  held by a worker, and at least one in all; a client that was freed is not listed, has no job in
  the queue, and no worker holds a pointer to it.\<close>

theorem references_are_exact:
  assumes "server_reachable w s"
  shows "case heap s c of
      None \<Rightarrow> c \<notin> set (clients s) \<and> queued s c = 0 \<and> (\<forall>t\<in>set (threads s). c \<notin> set (client_of t))
    | Some cl \<Rightarrow> ref_count cl = of_bool (c \<in> set (clients s)) + int (queued s c + holders s c) \<and> 0 < ref_count cl"
proof -
  have ok: "server_ok s" using server_reachable_inv [OF assms] by (simp add: server_inv_def)
  have "\<forall>t\<in>set (threads s). c \<notin> set (client_of t)" if "holders s c = 0"
    using that by (auto simp: holders_def count_eq_zero_iff spread_def)
  with client_okD(1,2) [OF ok, of c] client_ok_None [OF ok, of c] show ?thesis
    by (cases "heap s c") (simp_all del: of_nat_add)
qed

theorem references_are_exact_witness:
  "\<exists>s cl. server_reachable (quiet_world 7 (fresh_store 8 0 0)) s \<and> heap s 0 = Some cl \<and> clients s = [0] \<and>
     2 = 1 + int (queued s 0 + holders s 0)"
proof -
  obtain s where s: "run_events (take 5 quit_run) idle_server = Some s" "clients s = [0]"
    "heap s 0 = Some \<lparr>c_fd = 7, read_buf = [], c_closed = False, cmd_queue = [''QUIT''], task_in_flight = True, ref_count = 2\<rparr>"
    using quit_received by blast
  have "server_reachable (quiet_world 7 (fresh_store 8 0 0)) s" using run_events_reachable [OF idle_reachable s(1)] .
  with references_are_exact [OF this, of 0] s(2,3) show ?thesis by auto
qed

text \<open>C4. The commands of a client run one at a time and in the order received, whatever the
  interleaving: at most one job of the client is queued or under way, and what was received is
  what was executed, then the command under way, if any, then what waits in the client's queue.\<close>

theorem commands_run_in_order:
  assumes "server_reachable w s" and "heap s c = Some cl"
  shows "queued s c + actives s c \<le> 1 \<and>
    (\<exists>now. length now \<le> 1 \<and> received s c = executed s c @ now @ cmd_queue cl)"
proof -
  have ok: "server_ok s" using server_reachable_inv [OF assms(1)] by (simp add: server_inv_def)
  note k = client_okD(3,8) [OF ok assms(2)]
  then obtain ls where ls: "mset ls = executing s c" "executed s c @ ls @ cmd_queue cl = received s c" by auto
  have "length ls = size (executing s c)" by (simp flip: ls(1))
  then have "length ls \<le> 1" using executing_le [of s c] k(1) by simp
  with k(1) ls(2) show ?thesis by auto
qed

theorem commands_run_in_order_witness:
  "\<exists>s cl now. server_reachable (quiet_world 7 (fresh_store 8 0 0)) s \<and> heap s 0 = Some cl \<and> cmd_queue cl = [''QUIT''] \<and>
     length now \<le> 1 \<and> received s 0 = executed s 0 @ now @ cmd_queue cl"
proof -
  obtain s cl where s: "run_events (take 5 quit_run) idle_server = Some s" "heap s 0 = Some cl" "cmd_queue cl = [''QUIT'']"
    using quit_received by fastforce
  have "server_reachable (quiet_world 7 (fresh_store 8 0 0)) s" using run_events_reachable [OF idle_reachable s(1)] .
  with commands_run_in_order [OF this s(2)] s(2,3) show ?thesis by blast
qed

text \<open>C16. No received command is forgotten: a client in service with a command waiting has a job,
  in the queue of the pool or in the hands of a worker, unless the pool has refused it.\<close>

theorem no_command_is_forgotten:
  assumes "server_reachable w s" and "heap s c = Some cl" and "c_fd cl \<ge> 0" and "\<not> c_closed cl"
    and "cmd_queue cl \<noteq> []" and "c \<notin> refused s"
  shows "queued s c = 1 \<or> (\<exists>t\<in>set (threads s). active_of t = [c])"
proof -
  have ok: "server_ok s" using server_reachable_inv [OF assms(1)] by (simp add: server_inv_def)
  have "in_service cl" using assms(3,4) by (simp add: in_service_def)
  with client_okD(6,7) [OF ok assms(2)] assms(5,6) have "queued s c + actives s c = 1" by blast
  moreover have "\<exists>t\<in>set (threads s). active_of t = [c]" if "actives s c > 0"
  proof -
    from that have "c \<in># spread active_of (threads s)" by (simp add: actives_def)
    then obtain t where t: "t \<in> set (threads s)" "c \<in> set (active_of t)" by (auto simp: spread_def)
    from t(2) have "active_of t = [c]" by (cases t) auto
    with t(1) show ?thesis by blast
  qed
  ultimately show ?thesis by (cases "actives s c") auto
qed

theorem no_command_is_forgotten_witness:
  "\<exists>s. server_reachable (quiet_world 7 (fresh_store 8 0 0)) s \<and> received s 0 = [''QUIT''] \<and>
     (queued s 0 = 1 \<or> (\<exists>t\<in>set (threads s). active_of t = [0]))"
proof -
  obtain s where s: "run_events (take 5 quit_run) idle_server = Some s" "refused s = {}" "received s 0 = [''QUIT'']"
    "heap s 0 = Some \<lparr>c_fd = 7, read_buf = [], c_closed = False, cmd_queue = [''QUIT''], task_in_flight = True, ref_count = 2\<rparr>"
    using quit_received by blast
  have r: "server_reachable (quiet_world 7 (fresh_store 8 0 0)) s" using run_events_reachable [OF idle_reachable s(1)] .
  from no_command_is_forgotten [OF r s(4)] s(2) have "queued s 0 = 1 \<or> (\<exists>t\<in>set (threads s). active_of t = [0])" by simp
  with r s(3) show ?thesis by blast
qed

section \<open>The store under the server\<close>

lemma st_merge: "st (snd (kv_merge_aof_rewrite p tmp w)) = st w"
  by (simp add: kv_merge_aof_rewrite_def merge_install_def forget_rewrite_def io_step_def Let_def split_beta frame st_flush_log)

lemma serving_reap: "serving base w \<Longrightarrow> serving base (reap_child p code tmp w)"
proof -
  assume s: "serving base w"
  have "serving base (w\<lparr>st := (st w)\<lparr>bgsave_pid := 0\<rparr>\<rparr>)" using s by (auto simp: serving_def wf_store_def within_budget_def)
  moreover have "serving base (snd (kv_merge_aof_rewrite q tmp w))" for q using st_merge s by (rule serving_st)
  moreover have "serving base (kv_discard_aof_rewrite w)"
    by (rule serving_st [OF _ s]) (simp add: kv_discard_aof_rewrite_def frame)
  ultimately show ?thesis using s by (simp add: reap_child_def)
qed

lemma serving_sweep:
  assumes "serving base w"
  shows "serving base (eviction_sweep_task w)"
proof -
  obtain d w' where run: "kv_expire_sample_sweep 20 10 w = (d, w')" by fastforce
  from sweep_spec [OF servingD(1,2) [OF assms] run] have "wf_store base (st w')" "shrunk (st w) (st w')"
    by (simp_all add: swept_def)
  with serving_settings [OF assms] shrunk_settings shrunk_within_budget run show ?thesis
    by (simp add: eviction_sweep_task_def)
qed

lemma world_unchanged:
  "world_of (server_close_client c s) = world_of s" "world_of (client_release_ref c s) = world_of s"
  "world_of (read_client rs c s) = world_of s" "world_of (accept_client fd alloc_ok epoll_ok s) = world_of s"
  "world_of (snd (task_next c cl s)) = world_of s" "world_of (set_thread i ts) = world_of (snd ts)"
  "world_of (frame_line js alloc_ok c s) = world_of s" "world_of (snd (submit_job js f a s)) = world_of s"
  "world_of (destroy_begin s) = world_of s"
proof -
  show cl: "world_of (server_close_client c s) = world_of s" for c s
    by (cases "heap s c")
      (simp_all add: server_close_client_def with_client_def drop_ref_def unlink_client_def close_socket_def epoll_del_def Let_def)
  show "world_of (read_client rs c s) = world_of s"
    by (cases "heap s c") (simp_all add: read_client_def with_client_def split_beta Let_def cl put_def)
  show "world_of (client_release_ref c s) = world_of s"
    by (cases "heap s c") (simp_all add: client_release_ref_def with_client_def drop_ref_def Let_def)
  show "world_of (accept_client fd alloc_ok epoll_ok s) = world_of s"
    by (simp add: accept_client_def Let_def cl put_def close_socket_def)
  show sub: "world_of (snd (submit_job js f a s)) = world_of s" for js f a s
    by (simp add: submit_job_def split_beta Let_def)
  have "world_of (enqueue_cmd js c cmd cl s) = world_of s" for js c cmd cl s
    by (simp add: enqueue_cmd_def Let_def split_beta put_def sub)
  then show "world_of (frame_line js alloc_ok c s) = world_of s"
    by (cases "heap s c") (simp_all add: frame_line_def with_client_def cl split: framed.split)
qed (simp_all add: task_next_def put_def set_thread_def destroy_begin_def)

lemma serving_thread:
  assumes "serving base (world_of s)" and "thread_step i pid exited rs s = Some s'"
  shows "serving base (world_of s')"
proof (cases "threads s ! i")
  case (T_Exec c line)
  show ?thesis
  proof (cases "heap s c")
    case None
    with assms T_Exec show ?thesis by (auto simp: thread_step_def on_client_def with_client_def)
  next
    case (Some cl)
    from keeps_line [OF assms(1), of line "SERVER_MAX_LINE_LEN + 128" pid exited "c_fd cl"] assms
    show ?thesis
      by (auto simp: thread_step_def T_Exec on_client_Some [OF Some] world_unchanged task_execute_def keeps_def split: sum.splits)
  qed
next
  case (T_Reply c r)
  then show ?thesis
  proof (cases "heap s c")
    case (Some cl)
    then obtain t s1 where run: "task_reply rs c r cl s = Some (t, s1)" "s' = set_thread i (t, s1)"
      using assms(2) by (auto simp: thread_step_def T_Reply)
    from run(1) Some have "world_of s1 = world_of s" by (cases rule: task_reply_cases) auto
    with assms(1) run(2) show ?thesis by (simp add: world_unchanged)
  qed (use assms T_Reply in \<open>auto simp: thread_step_def\<close>)
next
  case (T_Loop c)
  then show ?thesis
    using assms by (cases "heap s c") (auto simp: thread_step_def on_client_def with_client_def world_unchanged)
qed (use assms serving_sweep in \<open>auto simp: thread_step_def world_unchanged split: worker.splits\<close>)

lemma serving_event:
  assumes "serving base (world_of s)" and "server_event e s = Some s'"
  shows "serving base (world_of s')"
proof (cases e)
  case (Thread i pid exited rs)
  with assms serving_thread show ?thesis by (auto simp: server_event_def split: if_splits)
qed (use assms serving_reap in \<open>auto simp: server_event_def loop_event_def pool_take_def pool_wake_def server_stop_def run_begin_def
      world_unchanged Let_def split_beta split: if_splits loop_pc.splits sum.splits option.splits\<close>)

lemma serving_reachable:
  assumes "serving base w" and "server_reachable w s"
  shows "serving base (world_of s)"
  using assms(2)
proof (induction rule: server_reachable.induct)
  case (start a s opened undone w')
  then have "world_of s = w\<lparr>st := (st w)\<lparr>bgsave_pid := 0\<rparr>\<rparr>"
    by (auto simp: server_init_def Let_def split: if_splits option.splits prod.splits)
  moreover have "serving base (w\<lparr>st := (st w)\<lparr>bgsave_pid := 0\<rparr>\<rparr>)"
    using assms(1) by (auto simp: serving_def wf_store_def within_budget_def)
  ultimately show ?case by simp
next
  case (step s e s')
  then show ?case by (blast intro: serving_event)
qed



end
