(* ===== verification/KV_Shutdown.thy ===== *)
theory KV_Shutdown
  imports KV_Service
begin

text \<open>
  The resources of the server: every accepted socket is accounted for in every state, and
  \<^verbatim>\<open>server_destroy\<close> frees every client and closes every descriptor once. The last section shows the
  one thing the reference counts do not protect: the event loop's own pointer to a client.
\<close>

section \<open>Sockets\<close>

definition fd_list :: "server_client option \<Rightarrow> int list" where
  "fd_list co = (case co of None \<Rightarrow> [] | Some cl \<Rightarrow> if c_fd cl \<ge> 0 then [c_fd cl] else [])"

definition open_sockets :: "server \<Rightarrow> int multiset" where
  "open_sockets s = spread (\<lambda>c. fd_list (heap s c)) (clients s)"

text \<open>Every accepted socket is closed, handed over to replication, or open and listed.\<close>

definition sockets_ok :: "server \<Rightarrow> bool" where
  "sockets_ok s \<longleftrightarrow> mset (opened_sockets s) = mset (closed_sockets s) + mset (detached_sockets s) + open_sockets s"

lemma spread_cong: "(\<And>x. x \<in> set ts \<Longrightarrow> f x = g x) \<Longrightarrow> spread f ts = spread g ts"
  by (simp add: spread_def cong: map_cong)

lemma spread_remove1: "c \<in> set cs \<Longrightarrow> spread f cs = mset (f c) + spread f (remove1 c cs)"
  by (induction cs) (auto simp: spread_def)

lemma spread_point:
  assumes "c \<in> set cs" and "distinct cs" and "\<And>d. d \<noteq> c \<Longrightarrow> f d = g d"
  shows "spread f cs + mset (g c) = spread g cs + mset (f c)"
proof -
  have "spread f (remove1 c cs) = spread g (remove1 c cs)"
    by (rule spread_cong) (use assms in \<open>auto simp: set_remove1_eq\<close>)
  then show ?thesis using spread_remove1 [OF assms(1), of f] spread_remove1 [OF assms(1), of g] by (simp add: ac_simps)
qed

lemma sockets_same:
  assumes "sockets_ok s" and "opened_sockets s' = opened_sockets s" and "closed_sockets s' = closed_sockets s"
    and "detached_sockets s' = detached_sockets s" and "clients s' = clients s"
    and "\<And>c. c \<in> set (clients s) \<Longrightarrow> fd_list (heap s' c) = fd_list (heap s c)"
  shows "sockets_ok s'"
proof -
  have "open_sockets s' = open_sockets s" unfolding open_sockets_def assms(5) by (rule spread_cong) (rule assms(6))
  with assms show ?thesis by (simp add: sockets_ok_def)
qed

lemma sockets_close:
  assumes "server_ok s" and "sockets_ok s"
  shows "sockets_ok (server_close_client c s)"
proof (cases "heap s c")
  case None
  then show ?thesis using assms(2) by (intro sockets_same [OF assms(2)]) (simp_all add: server_close_client_def with_client_def)
next
  case (Some cl)
  show ?thesis
  proof (cases "c_fd cl < 0")
    case True
    then show ?thesis using assms(2) Some by (simp add: server_close_client_def with_client_def)
  next
    case False
    define s1 where "s1 = server_close_client c s"
    have listed: "c \<in> set (clients s)" using client_okD(5) [OF assms(1) Some] False by simp
    have s1: "opened_sockets s1 = opened_sockets s" "closed_sockets s1 = closed_sockets s @ [c_fd cl]"
      "detached_sockets s1 = detached_sockets s" "clients s1 = remove1 c (clients s)" "\<And>d. d \<noteq> c \<Longrightarrow> heap s1 d = heap s d"
      using False listed Some
      by (simp_all add: s1_def server_close_client_def with_client_def drop_ref_def unlink_client_def close_socket_def epoll_del_def Let_def)
    have "spread (\<lambda>c. fd_list (heap s1 c)) (remove1 c (clients s)) = spread (\<lambda>c. fd_list (heap s c)) (remove1 c (clients s))"
      by (rule spread_cong) (use s1(5) server_okD(3) [OF assms(1)] in \<open>auto simp: set_remove1_eq\<close>)
    then have "open_sockets s = {#c_fd cl#} + open_sockets s1"
      using spread_remove1 [OF listed, of "\<lambda>c. fd_list (heap s c)"] False Some by (simp add: open_sockets_def s1 fd_list_def)
    then have "sockets_ok s1" using assms(2) by (simp add: sockets_ok_def s1)
    then show ?thesis by (simp add: s1_def)
  qed
qed

lemma sockets_accept:
  assumes "server_ok s" and "sockets_ok s" and "fd \<ge> 0"
  shows "sockets_ok (accept_client fd alloc_ok epoll_ok s)"
proof (cases "client_count s \<ge> SERVER_MAX_CLIENTS \<or> \<not> alloc_ok")
  case True
  then show ?thesis using assms(2) by (auto simp: accept_client_def Let_def sockets_ok_def close_socket_def open_sockets_def)
next
  case False
  have fresh: "next_client s \<notin> set (clients s)"
    using client_ok_None [OF assms(1)] server_okD(5) [OF assms(1), of "next_client s"] by simp
  define s1 where "s1 = accept_client fd alloc_ok True s"
  have s1: "opened_sockets s1 = opened_sockets s @ [fd]" "closed_sockets s1 = closed_sockets s"
    "detached_sockets s1 = detached_sockets s" "clients s1 = next_client s # clients s"
    "fd_list (heap s1 (next_client s)) = [fd]" "\<And>d. d \<noteq> next_client s \<Longrightarrow> heap s1 d = heap s d"
    using False assms(3) by (simp_all add: s1_def accept_client_def Let_def put_def fd_list_def)
  have "spread (\<lambda>c. fd_list (heap s1 c)) (clients s) = spread (\<lambda>c. fd_list (heap s c)) (clients s)"
    by (rule spread_cong) (metis fresh s1(6))
  then have "open_sockets s1 = {#fd#} + open_sockets s" by (simp add: open_sockets_def s1 spread_def)
  then have ok: "sockets_ok s1" using assms(2) by (simp add: sockets_ok_def s1)
  have "accept_client fd alloc_ok epoll_ok s =
      (if epoll_ok then s1 else server_close_client (next_client s) (s1\<lparr>watched := watched s\<rparr>))"
    using False by (simp add: s1_def accept_client_def Let_def put_def)
  moreover have "server_ok (s1\<lparr>watched := watched s\<rparr>)" using server_ok_accept [OF assms(1)] by (simp add: s1_def)
  moreover have "sockets_ok (s1\<lparr>watched := watched s\<rparr>)" using ok by (simp add: sockets_ok_def open_sockets_def)
  ultimately show ?thesis using ok sockets_close by simp
qed

lemma sockets_upd [simp]:
  "sockets_ok (s\<lparr>crashed := x1\<rparr>) = sockets_ok s" "sockets_ok (s\<lparr>loop := x2\<rparr>) = sockets_ok s"
  "sockets_ok (s\<lparr>world_of := x3\<rparr>) = sockets_ok s" "sockets_ok (s\<lparr>sv_running := x4\<rparr>) = sockets_ok s"
  "sockets_ok (s\<lparr>sv_pool := x5\<rparr>) = sockets_ok s" "sockets_ok (s\<lparr>watched := x6\<rparr>) = sockets_ok s"
  "sockets_ok (set_thread i ts) = sockets_ok (snd ts)" "sockets_ok (snd (submit_job js f a s)) = sockets_ok s"
  by (simp_all add: sockets_ok_def open_sockets_def set_thread_def submit_job_def split_beta Let_def)

lemma sockets_put: "sockets_ok s \<Longrightarrow> heap s c = Some cl \<Longrightarrow> c_fd cl' = c_fd cl \<Longrightarrow> sockets_ok (put c cl' s)"
  by (rule sockets_same) (auto simp: put_def fd_list_def)

lemma sockets_enqueue:
  assumes "sockets_ok s" and "heap s c = Some cl0" and "c_fd cl = c_fd cl0"
  shows "sockets_ok (enqueue_cmd js c cmd cl s)"
  by (rule sockets_same [OF assms(1)])
    (use assms(2,3) in \<open>auto simp: enqueue_cmd_def Let_def split_beta put_def submit_job_def fd_list_def\<close>)

lemma sockets_frame:
  assumes "server_ok s" and "sockets_ok s"
  shows "sockets_ok (frame_line js alloc_ok c s)"
proof (cases "heap s c")
  case (Some cl)
  with assms sockets_close [OF assms] sockets_enqueue [OF assms(2) Some] show ?thesis
    by (simp add: frame_line_def with_client_def split: framed.split)
qed (use assms(2) in \<open>simp add: frame_line_def with_client_def\<close>)

lemma sockets_read:
  assumes "server_ok s" and "sockets_ok s"
  shows "sockets_ok (read_client rs c s)"
proof (cases "heap s c")
  case (Some cl)
  obtain rc b where b: "recv_loop rs (read_buf cl) = (rc, b)" by fastforce
  have "sockets_ok (put c (cl\<lparr>read_buf := b\<rparr>) s)" by (rule sockets_put [OF assms(2) Some]) simp
  with sockets_close [OF server_ok_put_buf [OF assms(1) Some] this] show ?thesis
    by (simp add: read_client_def with_client_def Some b Let_def)
qed (use assms(2) in \<open>simp add: read_client_def with_client_def\<close>)

lemma sockets_detach:
  assumes "server_ok s" and "sockets_ok s" and "heap s c = Some cl"
  shows "sockets_ok (put c (cl\<lparr>c_fd := -1\<rparr>)
    (if c_fd cl \<ge> 0 then (epoll_del (c_fd cl) s)\<lparr>detached_sockets := detached_sockets s @ [c_fd cl]\<rparr> else s))"
proof (cases "c_fd cl \<ge> 0")
  case False
  then show ?thesis using assms(2,3) by (intro sockets_same [OF assms(2)]) (auto simp: put_def fd_list_def)
next
  case True
  define s1 where "s1 = put c (cl\<lparr>c_fd := -1\<rparr>) ((epoll_del (c_fd cl) s)\<lparr>detached_sockets := detached_sockets s @ [c_fd cl]\<rparr>)"
  have s1: "opened_sockets s1 = opened_sockets s" "closed_sockets s1 = closed_sockets s"
    "detached_sockets s1 = detached_sockets s @ [c_fd cl]" "clients s1 = clients s" "heap s1 = (heap s)(c \<mapsto> cl\<lparr>c_fd := -1\<rparr>)"
    by (simp_all add: s1_def put_def epoll_del_def)
  have "c \<in> set (clients s)" using client_okD(5) [OF assms(1,3)] True .
  from spread_point [OF this server_okD(3) [OF assms(1)], of "\<lambda>d. fd_list (heap s1 d)" "\<lambda>d. fd_list (heap s d)"] assms(3) True
  have "open_sockets s1 + {#c_fd cl#} = open_sockets s" by (simp add: open_sockets_def s1 fd_list_def)
  then have "sockets_ok s1" using assms(2) by (simp add: sockets_ok_def s1 ac_simps)
  then show ?thesis using True by (simp add: s1_def)
qed

lemma task_reply_world:
  assumes "task_reply rs c r cl s = Some ts"
  shows "snd ts = s\<lparr>crashed := Some Buffer_Overflow\<rparr> \<or> snd ts = s \<or> snd ts = put c (cl\<lparr>c_fd := -1\<rparr>)
    (if c_fd cl \<ge> 0 then (epoll_del (c_fd cl) s)\<lparr>detached_sockets := detached_sockets s @ [c_fd cl]\<rparr> else s)"
proof (cases "(\<not> c_closed cl \<and> c_fd cl \<ge> 0 \<and> r_len r > 0) \<and> r_len r \<noteq> length (r_bytes r)")
  case True
  then show ?thesis using assms by (auto simp: task_reply_def Let_def)
next
  case False
  define send where "send = (if \<not> c_closed cl \<and> c_fd cl \<ge> 0 \<and> r_len r > 0 then server_send_all rs (r_bytes r) else Some (0, []))"
  obtain rc out where send: "send = Some (rc, out)"
    using assms False by (cases send) (auto simp: task_reply_def Let_def send_def [symmetric] split: if_splits)
  show ?thesis
    using assms False send unfolding task_reply_def Let_def send_def [symmetric] by (cases "r_detach r") auto
qed

lemma sockets_thread:
  assumes "server_inv s" and "sockets_ok s" and "i < SERVER_DEFAULT_WORKERS" and "thread_step i pid exited rs s = Some s'"
  shows "sockets_ok s'"
proof -
  have ok: "server_ok s" using assms(1) by (simp add: server_inv_def)
  have ok': "server_ok s'" using thread_step_inv [OF assms(1,3,4)] by (simp add: server_inv_def)
  have alive: "\<exists>cl. heap s c = Some cl" if "c \<in> set (client_of (threads s ! i))" for c
    using held_allocated [OF ok assms(3) that] .
  show ?thesis
  proof (cases "threads s ! i")
    case (T_Loop c)
    then obtain cl where cl: "heap s c = Some cl" using alive by auto
    have "s' = set_thread i (task_next c cl s)" using assms(4) by (simp add: thread_step_def T_Loop on_client_Some [OF cl])
    then show ?thesis using sockets_put [OF assms(2) cl] by (simp add: task_next_def)
  next
    case (T_Exec c line)
    then obtain cl where cl: "heap s c = Some cl" using alive by auto
    have "s' = set_thread i (task_execute pid exited c line cl s)"
      using assms(4) by (simp add: thread_step_def T_Exec on_client_Some [OF cl])
    moreover have "sockets_ok (snd (task_execute pid exited c line cl s))"
      by (rule sockets_same [OF assms(2)]) (simp_all add: task_execute_def split: sum.split)
    ultimately show ?thesis by simp
  next
    case (T_Reply c r)
    then obtain cl where cl: "heap s c = Some cl" using alive by auto
    then obtain ts where ts: "task_reply rs c r cl s = Some ts" "s' = set_thread i ts"
      using assms(4) by (auto simp: thread_step_def T_Reply)
    from task_reply_world [OF ts(1)] sockets_detach [OF ok assms(2) cl] assms(2) ts(2) show ?thesis by (elim disjE) simp_all
  next
    case (T_Close c)
    with assms(4) sockets_close [OF ok assms(2)] show ?thesis by (auto simp: thread_step_def)
  next
    case (T_Release c)
    then obtain cl where cl: "heap s c = Some cl" using alive by auto
    have s': "s' = set_thread i (T_Done, client_release_ref c s)" using assms(4) by (simp add: thread_step_def T_Release)
    have sel: "opened_sockets s' = opened_sockets s" "closed_sockets s' = closed_sockets s" "detached_sockets s' = detached_sockets s"
      "clients s' = clients s" "heap s' = (heap s)(c := (if ref_count cl = 1 then None else Some (cl\<lparr>ref_count := ref_count cl - 1\<rparr>)))"
      using cl by (simp_all add: s' set_thread_def client_release_ref_def with_client_def drop_ref_def Let_def)
    have "c \<notin> set (clients s)" if "ref_count cl = 1" using client_ok_None [OF ok', of c] that by (simp add: sel)
    then show ?thesis using cl by (intro sockets_same [OF assms(2) sel(1-4)]) (auto simp: sel(5) fd_list_def)
  qed (use assms in \<open>auto simp: thread_step_def split: worker.splits\<close>)
qed

lemma sockets_event:
  assumes "server_inv s" and "sockets_ok s" and "server_event e s = Some s'"
  shows "sockets_ok s'"
proof -
  have ok: "server_ok s" using assms(1) by (simp add: server_inv_def)
  have len: "length (threads s) = SERVER_DEFAULT_WORKERS" using server_okD(1) [OF ok] .
  show ?thesis
  proof (cases e)
    case (Thread i pid exited rs)
    with assms(3) len sockets_thread [OF assms(1,2)] show ?thesis by (auto simp: server_event_def split: if_splits)
  next
    case (Accept fd alloc_ok epoll_ok)
    with assms(3) sockets_accept [OF ok assms(2)] show ?thesis
      by (auto simp: server_event_def loop_event_def split: if_splits loop_pc.splits)
  next
    case (Client_event fd)
    then show ?thesis
      using assms(2,3) by (auto simp: server_event_def loop_event_def split: if_splits loop_pc.splits sum.splits option.splits)
  next
    case (Timer js)
    then show ?thesis using assms(2,3) by (auto simp: server_event_def loop_event_def split: if_splits loop_pc.splits)
  next
    case Hang_up
    then show ?thesis
      using assms(3) sockets_close [OF ok assms(2)] by (auto simp: server_event_def loop_event_def split: if_splits loop_pc.splits)
  next
    case (Readable rs)
    then show ?thesis
      using assms(3) sockets_read [OF ok assms(2)] by (auto simp: server_event_def loop_event_def split: if_splits loop_pc.splits)
  next
    case (Frame js alloc_ok)
    then show ?thesis
      using assms(3) sockets_frame [OF ok assms(2)] by (auto simp: server_event_def loop_event_def split: if_splits loop_pc.splits)
  next
    case (Take i)
    then show ?thesis using assms(2,3) by (auto simp: server_event_def pool_take_def Let_def split_beta split: if_splits)
  next
    case Destroy
    then show ?thesis using assms(2,3)
      by (auto simp: server_event_def destroy_begin_def sockets_ok_def open_sockets_def split: if_splits)
  qed (use assms(2,3) in \<open>auto simp: server_event_def loop_event_def pool_wake_def server_stop_def run_begin_def split: if_splits loop_pc.splits\<close>)
qed

lemma sockets_reachable:
  assumes "server_reachable w s"
  shows "sockets_ok s"
  using assms
proof (induction rule: server_reachable.induct)
  case (start a s opened undone w')
  then show ?case
    by (auto simp: server_init_def Let_def sockets_ok_def open_sockets_def spread_def split: if_splits option.splits prod.splits)
next
  case (step s e s')
  then show ?case by (blast intro: sockets_event server_reachable_inv)
qed

section \<open>Shutdown\<close>

text \<open>When the workers have been joined nobody holds a client any more.\<close>

lemma joined_idle:
  assumes "server_inv s" and "joined (pool (sv_pool s))"
  shows "queued s c = 0" and "holders s c = 0"
proof -
  have ok: "server_ok s" and pool: "pool_reachable SERVER_DEFAULT_WORKERS SERVER_DEFAULT_QUEUE_SIZE (sv_pool s)"
    using assms(1) by (simp_all add: server_inv_def)
  note pf = pool_facts [OF pool]
  have ex: "workers (pool (sv_pool s)) ! i = W_Exited" if "i < SERVER_DEFAULT_WORKERS" for i
    using assms(2) that pf(3) by (auto simp: joined_def list_all_iff)
  have "W_Exited \<in> set (workers (pool (sv_pool s)))"
    using ex [of 0] nth_mem [of 0 "workers (pool (sv_pool s))"] pf(2) by simp
  with pool_inv_reachable [OF pool] have "queue_count (pool (sv_pool s)) = 0" by (simp add: pool_inv_def Let_def)
  then show "queued s c = 0" by (simp add: queued_def pending_def)
  have "threads s ! i = T_Idle" if "i < SERVER_DEFAULT_WORKERS" for i
    using server_okD(2) [OF ok that] ex [OF that] by auto
  then have idle: "t = T_Idle" if "t \<in> set (threads s)" for t
    using that server_okD(1) [OF ok] by (auto simp: in_set_conv_nth)
  have "c \<notin># spread client_of (threads s)" unfolding spread_def by (auto dest!: idle)
  then show "holders s c = 0" by (simp add: holders_def count_eq_zero_iff)
qed

lemma destroy_clients:
  assumes "distinct cs" and "\<And>c. c \<in> set cs \<Longrightarrow> heap s c \<noteq> None"
  shows "heap (fold destroy_client cs s) = (\<lambda>c. if c \<in> set cs then None else heap s c) \<and>
    mset (closed_sockets (fold destroy_client cs s)) = mset (closed_sockets s) + spread (\<lambda>c. fd_list (heap s c)) cs \<and>
    descriptors (fold destroy_client cs s) = descriptors s \<and> crashed (fold destroy_client cs s) = crashed s \<and>
    detached_sockets (fold destroy_client cs s) = detached_sockets s \<and>
    opened_sockets (fold destroy_client cs s) = opened_sockets s"
  using assms
proof (induction cs arbitrary: s)
  case (Cons c cs)
  obtain cl where cl: "heap s c = Some cl" using Cons.prems(2) [of c] by auto
  define s1 where "s1 = destroy_client c s"
  have s1: "heap s1 = (heap s)(c := None)" "mset (closed_sockets s1) = mset (closed_sockets s) + mset (fd_list (heap s c))"
    "descriptors s1 = descriptors s" "crashed s1 = crashed s" "detached_sockets s1 = detached_sockets s"
    "opened_sockets s1 = opened_sockets s"
    using cl by (simp_all add: s1_def destroy_client_def with_client_def close_socket_def epoll_del_def fd_list_def descriptors_def Let_def)
  have "spread (\<lambda>c. fd_list (heap s1 c)) cs = spread (\<lambda>c. fd_list (heap s c)) cs"
    by (rule spread_cong) (use Cons.prems(1) s1(1) in auto)
  moreover have "heap s1 d \<noteq> None" if "d \<in> set cs" for d using Cons.prems that s1(1) by auto
  note IH = Cons.IH [OF _ this]
  ultimately show ?case
    using IH Cons.prems(1) s1 by (auto simp: s1_def [symmetric] spread_def fun_eq_iff)
qed (simp add: spread_def)

text \<open>C11. Shutting down releases everything: once the workers have been joined, \<^verbatim>\<open>server_destroy\<close> frees every
  client that is still allocated, without touching a freed one, and every descriptor the server
  owned has been closed exactly once: the sockets it accepted, except those handed over to
  replication, the listening socket, the event queue, the shutdown event and the timer.\<close>

theorem shutdown_releases_everything:
  assumes "server_reachable w s" and "joined (pool (sv_pool s))"
  shows "heap (server_destroy s) = Map.empty \<and> crashed (server_destroy s) = crashed s \<and>
    mset (closed_sockets (server_destroy s)) + mset (detached_sockets s) = mset (opened_sockets s) + mset (descriptors s)"
proof -
  have inv: "server_inv s" using server_reachable_inv [OF assms(1)] .
  then have ok: "server_ok s" by (simp add: server_inv_def)
  have listed: "heap s c \<noteq> None \<longleftrightarrow> c \<in> set (clients s)" for c
    using client_okD(1,2) [OF ok, of c] client_ok_None [OF ok, of c] joined_idle [OF inv assms(2), of c]
    by (cases "heap s c") (auto split: if_splits)
  note d = destroy_clients [OF server_okD(3) [OF ok], of s]
  define s1 where "s1 = fold destroy_client (clients s) s"
  have d1: "heap s1 = Map.empty" "mset (closed_sockets s1) = mset (closed_sockets s) + open_sockets s"
    "descriptors s1 = descriptors s" "crashed s1 = crashed s" "detached_sockets s1 = detached_sockets s"
  proof -
    have "heap s c = None" if "c \<notin> set (clients s)" for c using listed [of c] that by auto
    then show "heap s1 = Map.empty" using d listed by (auto simp: s1_def)
  qed (use d listed in \<open>simp_all add: s1_def open_sockets_def\<close>)
  have fin: "heap (server_destroy s) = heap s1" "crashed (server_destroy s) = crashed s1"
    "mset (closed_sockets (server_destroy s)) = mset (closed_sockets s1) + mset (descriptors s1)"
    by (simp_all add: server_destroy_def s1_def [symmetric] Let_def close_descriptor_def close_socket_def epoll_del_def
        descriptors_def ac_simps)
  from sockets_reachable [OF assms(1)] have
    "mset (opened_sockets s) = mset (closed_sockets s) + mset (detached_sockets s) + open_sockets s" by (simp add: sockets_ok_def)
  with d1 fin show ?thesis by (simp add: ac_simps)
qed

lemma update_4:
  "[a, b, c, d][1 := x] = [a, x, c, d]" "[a, b, c, d][2 := x] = [a, b, x, d]" "[a, b, c, d][3 := x] = [a, b, c, x]"
  by (simp_all add: eval_nat_numeral)

lemma stopped_run:
  "\<exists>s. run_events [Run, Stop, Destroy, Take 0, Take 1, Take 2, Take 3] idle_server = Some s \<and> joined (pool (sv_pool s)) \<and>
     opened_sockets s = [] \<and> detached_sockets s = [] \<and> descriptors s = [3, 4, 5, 6]"
  by (simp add: event_defs idle_server_def fresh_run_def replicate_4 upt_conv_Cons joined_def descriptors_def update_4 [simplified])

theorem shutdown_releases_everything_witness:
  "\<exists>s. server_reachable (quiet_world 7 (fresh_store 8 0 0)) s \<and> heap (server_destroy s) = Map.empty \<and>
     mset (closed_sockets (server_destroy s)) = {#3, 4, 5, 6#}"
proof -
  obtain s where s: "run_events [Run, Stop, Destroy, Take 0, Take 1, Take 2, Take 3] idle_server = Some s"
    "joined (pool (sv_pool s))" "opened_sockets s = []" "detached_sockets s = []" "descriptors s = [3, 4, 5, 6]"
    using stopped_run by blast
  have r: "server_reachable (quiet_world 7 (fresh_store 8 0 0)) s" using run_events_reachable [OF idle_reachable s(1)] .
  from shutdown_releases_everything [OF r s(2)] s(3-5) r show ?thesis by auto
qed

section \<open>The event loop holds no reference\<close>

text \<open>C39. The event loop keeps a pointer to the client it is handling without holding a reference: a
  server can reach a state in which a worker has closed and freed that client, so that the
  loop's next step uses freed memory.\<close>

theorem event_loop_can_use_a_freed_client:
  "\<exists>s. server_reachable (quiet_world 7 (fresh_store 8 0 0)) s \<and> loop s = Found 0 \<and> heap s 0 = None \<and>
     (\<exists>s'. server_event Hang_up s = Some s' \<and> crashed s' = Some Use_After_Free)"
proof -
  have "\<exists>s. run_events (take 13 quit_run) idle_server = Some s \<and> crashed s = None \<and> loop s = Found 0 \<and> heap s 0 = None \<and>
      shutdown (pool (sv_pool s)) = False"
    by (simp add: quit_run_defs)
  then obtain s where s: "run_events (take 13 quit_run) idle_server = Some s" "crashed s = None" "loop s = Found 0"
    "heap s 0 = None" "shutdown (pool (sv_pool s)) = False" by blast
  from s(2-5) have "server_event Hang_up s = Some (s\<lparr>crashed := Some Use_After_Free, loop := Waiting\<rparr>)"
    by (simp add: server_event_def loop_event_def server_close_client_def with_client_def)
  with s(3,4) run_events_reachable [OF idle_reachable s(1)] show ?thesis by (intro exI [of _ s]) simp
qed

text \<open>After \<^verbatim>\<open>SYNC\<close> the client's socket belongs to replication and its descriptor is marked as closed, so
  that \<^verbatim>\<open>server_close_client\<close> returns early: the client stays listed and counted.\<close>

lemma detached_client_stays_listed:
  "heap s c = Some cl \<Longrightarrow> c_fd cl < 0 \<Longrightarrow> server_close_client c s = s"
  by (simp add: server_close_client_def with_client_def)

end
