(* ===== verification/KV_Main.thy ===== *)
theory KV_Main
  imports KV_Durable KV_Shutdown
begin

text \<open>
  The program (\<^verbatim>\<open>src/main.c\<close>): its options, the command line client, and the order in which it
  creates the store, replication and the server and takes them down again.
\<close>

section \<open>Options\<close>

record options =
  opt_port :: nat
  opt_data :: cstr
  opt_cli :: bool
  opt_host :: cstr
  opt_replica_port :: nat

definition default_options :: options where
  "default_options = \<lparr>opt_port = 6379, opt_data = None, opt_cli = False, opt_host = None, opt_replica_port = 0\<rparr>"

text \<open>\<open>None\<close>: the program ends with an error. An option without enough arguments after it is skipped
  like any other word. The port of the master is cut down to 16 bits.\<close>

function parse_args :: "string list \<Rightarrow> options \<Rightarrow> options option" where
  "parse_args [] opts = Some opts"
| "parse_args (a # rest) opts =
     (if a = ''--port'' \<and> rest \<noteq> []
      then (let p = fst (strtoll (hd rest))
            in if 0 < p \<and> p \<le> 65535 then parse_args (tl rest) (opts\<lparr>opt_port := nat p\<rparr>) else None)
      else if a = ''--data'' \<and> rest \<noteq> [] then parse_args (tl rest) (opts\<lparr>opt_data := Some (hd rest)\<rparr>)
      else if a = ''--replicaof'' \<and> length rest \<ge> 2
      then parse_args (drop 2 rest)
             (opts\<lparr>opt_host := Some (rest ! 0), opt_replica_port := nat (fst (strtoll (rest ! 1)) mod 65536)\<rparr>)
      else if a = ''--cli'' then parse_args rest (opts\<lparr>opt_cli := True\<rparr>)
      else parse_args rest opts)"
  by pat_completeness auto
termination
  by (relation "measure (length \<circ> fst)") auto

section \<open>The command line client\<close>

text \<open>\<^verbatim>\<open>sscanf\<close> with \<^verbatim>\<open>%ns\<close>: blanks are skipped, then at most \<open>n\<close> other characters are taken.\<close>

definition scan_word :: "nat \<Rightarrow> string \<Rightarrow> string \<times> string" where
  "scan_word n s =
     (let s1 = dropWhile isspace s; word = take n (takeWhile (\<lambda>c. \<not> isspace c) s1)
      in (word, drop (length word) s1))"

text \<open>The fields that \<^verbatim>\<open>sscanf\<close> fills, in order; it stops at the first that is empty.\<close>

definition cli_fields :: "string \<Rightarrow> string list" where
  "cli_fields line =
     (let (command, r1) = scan_word 15 line;
          (key, r2) = scan_word 256 r1;
          val = take 4096 (takeWhile (\<lambda>c. c \<noteq> nl) (dropWhile isspace r2))
      in takeWhile (\<lambda>f. f \<noteq> []) [command, key, val])"

text \<open>One command: what is printed (\<open>None\<close> ends the loop) and the world after it.\<close>

definition cli_command :: "string \<Rightarrow> world \<Rightarrow> cstr \<times> world" where
  "cli_command line w =
     (case cli_fields line of
        [] \<Rightarrow> (Some ''ERR empty_command'', w)
      | command # args \<Rightarrow>
          if command = ''SET'' \<and> length args = 2
          then (let (res, w1) = kv_set (Some (args ! 0)) (Some (args ! 1)) w
                in (Some (if res = 0 then ''OK'' else ''ERR internal''), w1))
          else if command = ''GET'' \<and> length args = 1
          then (let (val, w1) = kv_get (Some (args ! 0)) w
                in (Some (case val of None \<Rightarrow> ''NOT_FOUND'' | Some v \<Rightarrow> ''VALUE '' @ v), w1))
          else if command = ''DELETE'' \<and> length args = 1
          then (let (res, w1) = kv_delete (Some (args ! 0)) w
                in (Some (if res = 0 then ''DELETED'' else if res = 1 then ''NOT_FOUND'' else ''ERR internal''), w1))
          else if command = ''EXISTS'' \<and> length args = 1
          then (let (found, w1) = kv_exists (Some (args ! 0)) w
                in (Some (if found then ''EXISTS'' else ''NOT_FOUND''), w1))
          else if command = ''QUIT'' then (None, w)
          else (Some ''ERR invalid_arguments'', w))"

text \<open>The loop over what \<^verbatim>\<open>fgets\<close> reads into a buffer of 4096 bytes, with what it prints.\<close>

fun cli_loop :: "string list \<Rightarrow> world \<Rightarrow> string list \<times> world" where
  "cli_loop [] w = ([], w)"
| "cli_loop (chunk # chunks) w =
     (case cli_command (takeWhile (\<lambda>c. c \<noteq> nl) (c_str chunk)) w of
        (None, w1) \<Rightarrow> ([], w1)
      | (Some out, w1) \<Rightarrow> (case cli_loop chunks w1 of (outs, w2) \<Rightarrow> (out # outs, w2)))"

definition run_cli :: "string \<Rightarrow> world \<Rightarrow> string list \<times> world" where
  "run_cli input w = cli_loop (fgets_all 4094 input) w"

section \<open>Start and end\<close>

text \<open>What runs before the event loop. \<open>contents\<close> is the file named by \<^verbatim>\<open>--data\<close>, if it exists, and
  \<open>input\<close> the standard input of the command line client. The result is the exit code of a program
  that has ended or the server that is about to run.\<close>

definition main_setup :: "options \<Rightarrow> string option \<Rightarrow> string \<Rightarrow> init_answers \<Rightarrow> world \<Rightarrow> (int + server) result" where
  "main_setup opts contents input a w =
     (case (if opt_data opts \<noteq> None then kv_init_with_aof 64 (opt_data opts) contents w else kv_init 64 w) of
        Inl ub \<Rightarrow> Inl ub
      | Inr (res, w1) \<Rightarrow>
          if res \<noteq> KV_OK then Inr (Inl 1, w1)
          else if opt_cli opts then Inr (Inl 0, kv_destroy (snd (run_cli input w1)))
          else
            (case server_init a (replication_start (replication_init (opt_host opts) (opt_replica_port opts) w1)) of
               (None, opened, undone, w2) \<Rightarrow> Inr (Inl 1, kv_destroy (replication_stop w2))
             | (Some s, opened, undone, w2) \<Rightarrow> Inr (Inr s, w2)))"

text \<open>\<^verbatim>\<open>SIGINT\<close> and \<^verbatim>\<open>SIGTERM\<close> stop the server.\<close>

definition handle_signal :: "server \<Rightarrow> server" where
  "handle_signal s = server_stop s"

definition server_get_port :: "server \<Rightarrow> nat" where
  "server_get_port s = port s"

text \<open>What runs after it, once the workers have been joined.\<close>

definition main_teardown :: "server \<Rightarrow> world" where
  "main_teardown s = kv_destroy (replication_stop (world_of (server_destroy s)))"

section \<open>The client agrees with the server\<close>

lemma scan_word_exact:
  assumes "word \<noteq> []" and "length word \<le> n" and "list_all (\<lambda>c. \<not> isspace c) word" and "rest = [] \<or> isspace (hd rest)"
  shows "scan_word n (word @ rest) = (word, rest)"
proof -
  have "dropWhile isspace (word @ rest) = word @ rest" using assms(1,3) by (cases word) simp_all
  moreover have "takeWhile (\<lambda>c. \<not> isspace c) (word @ rest) = word"
    using assms(3,4) by (cases rest) (auto simp: takeWhile_append2 list_all_iff)
  ultimately show ?thesis using assms(2) by (simp add: scan_word_def)
qed

lemma cli_fields_key:
  assumes "cmd \<noteq> []" and "length cmd \<le> 15" and "list_all (\<lambda>c. \<not> isspace c) cmd" and "valid_key k"
  shows "cli_fields (cmd @ CHR '' '' # k) = [cmd, k]"
proof -
  have k: "k \<noteq> []" "length k \<le> 256" "list_all (\<lambda>c. \<not> isspace c) k" using assms(4) by (simp_all add: valid_key_def)
  have "scan_word 15 (cmd @ CHR '' '' # k) = (cmd, CHR '' '' # k)"
    by (rule scan_word_exact) (use assms in \<open>simp_all add: isspace_def\<close>)
  moreover have "scan_word 256 (CHR '' '' # k) = (k, [])"
    using scan_word_exact [OF k, of "[]"] by (simp add: scan_word_def isspace_def)
  ultimately show ?thesis using assms(1) k(1) by (simp add: cli_fields_def)
qed

text \<open>For the commands that take a key, the command line client prints what the server replies.\<close>

lemma cli_agrees_with_protocol:
  assumes "valid_key k" and "cstring k" and "mode (repl w) \<noteq> REPLICA_MODE_REPLICA"
    and "cmd = ''GET'' \<or> cmd = ''EXISTS'' \<or> cmd = ''DELETE''"
    and "cli_command (cmd @ CHR '' '' # k) w = (Some out, w')" and "out \<noteq> ''ERR internal''" and "length out + 2 < buf_size"
  shows "protocol_execute_command buf_size pid exited fd (cmd @ CHR '' '' # k) w = Inr (answer out, w')"
proof -
  have f: "cli_fields (cmd @ CHR '' '' # k) = [cmd, k]"
    by (rule cli_fields_key) (use assms(1,4) in \<open>auto simp: isspace_def\<close>)
  have k: "k \<noteq> []" "CHR '' '' \<notin> set k" using assms(1) by (auto simp: valid_key_def list_all_iff isspace_def)
  have "run_command buf_size pid cmd (Some k) w = Inr (answer out, w')"
    using assms(4)
  proof (elim disjE)
    assume "cmd = ''GET''"
    then show ?thesis
      using assms(5,7) f k
      by (auto simp: cli_command_def run_command_def do_get_def one_arg_def formatted_def split_beta Let_def split: option.splits)
  next
    assume "cmd = ''EXISTS''"
    then show ?thesis
      using assms(5) f k by (auto simp: cli_command_def run_command_def do_exists_def one_arg_def split_beta Let_def)
  next
    assume "cmd = ''DELETE''"
    then show ?thesis
      using assms(5,6) f k
      by (auto simp: cli_command_def run_command_def do_delete_def one_arg_def split_beta Let_def split: if_splits)
  qed
  moreover have "cstring cmd" "CHR '' '' \<notin> set cmd" "cmd \<noteq> []" "cmd \<noteq> ''SYNC''" using assms(4) by (auto simp: cstring_def)
  ultimately show ?thesis using assms(2,3) by (subst protocol_line) simp_all
qed

text \<open>The command line client keeps the store sound.\<close>

lemma cstring_fields:
  assumes "cstring line" and "f \<in> set (cli_fields line)"
  shows "cstring f"
proof -
  have sub: "set (fst (scan_word n s)) \<subseteq> set s \<and> set (snd (scan_word n s)) \<subseteq> set s" for n s
    by (auto simp: scan_word_def Let_def dest!: in_set_takeD in_set_dropD set_takeWhileD set_dropWhileD)
  have "set f \<subseteq> set line"
    using assms(2) sub [of 15 line] sub [of 256 "snd (scan_word 15 line)"]
    by (auto simp: cli_fields_def split_beta Let_def dest!: set_takeWhileD in_set_takeD set_dropWhileD split: if_splits)
  with assms(1) show ?thesis by (auto simp: cstring_def)
qed

lemma serving_cli_command:
  assumes "serving base w" and "cstring line"
  shows "serving base (snd (cli_command line w))"
proof (cases "cli_fields line")
  case (Cons command args)
  have "cstring (args ! i)" if "i < length args" for i
    using cstring_fields [OF assms(2), of "args ! i"] that Cons by simp
  then show ?thesis
    using assms(1) by (simp add: cli_command_def Cons split_beta Let_def kept_by)
qed (use assms in \<open>simp add: cli_command_def\<close>)

lemma serving_cli_loop: "serving base w \<Longrightarrow> serving base (snd (cli_loop chunks w))"
proof (induction chunks w rule: cli_loop.induct)
  case (2 chunk chunks w)
  let ?line = "takeWhile (\<lambda>c. c \<noteq> nl) (c_str chunk)"
  have "cstring ?line" using cstring_c_str_bytes [of chunk] by (auto simp: cstring_def dest!: set_takeWhileD)
  with serving_cli_command [OF 2(2)] 2(1) show ?case
    by (cases "cli_command ?line w") (force split: option.split prod.split)
qed simp

lemma run_cli_keeps_store: "serving base w \<Longrightarrow> serving base (snd (run_cli input w))"
  by (simp add: run_cli_def serving_cli_loop)

section \<open>Options are in range\<close>

lemma parse_args_ports:
  assumes "parse_args args opts = Some opts'" and "1 \<le> opt_port opts" and "opt_port opts \<le> 65535" and "opt_replica_port opts < 65536"
  shows "1 \<le> opt_port opts' \<and> opt_port opts' \<le> 65535 \<and> opt_replica_port opts' < 65536"
  using assms
proof (induction args opts rule: parse_args.induct)
  case (2 a rest opts)
  consider (port) "a = ''--port'' \<and> rest \<noteq> []" | (data) "a = ''--data'' \<and> rest \<noteq> []"
    | (replica) "a = ''--replicaof'' \<and> length rest \<ge> 2"
    | (other) "\<not> (a = ''--port'' \<and> rest \<noteq> [])" "\<not> (a = ''--data'' \<and> rest \<noteq> [])" "\<not> (a = ''--replicaof'' \<and> length rest \<ge> 2)"
    by blast
  then show ?case
  proof cases
    case port
    then show ?thesis using 2(1) [OF port refl] 2(6-9) by (auto simp: Let_def nat_le_iff split: if_splits)
  next
    case data
    then show ?thesis using 2(2) [OF _ data] 2(6-9) by simp
  next
    case replica
    have "nat (fst (strtoll (rest ! 1)) mod 65536) < 65536" by (simp add: nat_less_iff)
    with replica show ?thesis using 2(3) [OF _ _ replica] 2(6-9) by simp
  next
    case other
    have "parse_args (a # rest) opts = (if a = ''--cli'' then parse_args rest (opts\<lparr>opt_cli := True\<rparr>) else parse_args rest opts)"
      by (simp only: parse_args.simps other if_False)
    then show ?thesis using 2(4,5) [OF other] 2(6-9) by (cases "a = ''--cli''") (simp_all del: parse_args.simps)
  qed
qed simp

text \<open>The port given to \<^verbatim>\<open>--replicaof\<close> is not checked: 65536 becomes 0, and the program runs as a master.\<close>

lemma replica_port_wraps:
  "\<exists>opts. parse_args [''--replicaof'', host, ''65536''] default_options = Some opts \<and>
     mode (repl (replication_init (opt_host opts) (opt_replica_port opts) w)) = REPLICA_MODE_MASTER"
  by (simp add: strtoll_def isspace_def isdigit_def clamp64_def digit_val_def replication_init_def Let_def)

section \<open>From the log to the clients\<close>

lemma st_replication_init: "st (replication_init h p w) = st w"
  by (simp add: replication_init_def libc_malloc_def Let_def split_beta split: option.split)

lemma st_replication_start: "st (replication_start w) = st w"
  by (simp add: replication_start_def)

lemma view_pid_abs: "abs_view (s\<lparr>bgsave_pid := p\<rparr>) = abs_view s"
  by (simp add: abs_view_def lookup_def fun_eq_iff)



end
