(* ===== verification/KV_Rewrite.thy ===== *)
theory KV_Rewrite
  imports KV_Durable
begin

text \<open>
  A background rewrite of the log from beginning to end: the child writes a compact log of the
  store as it was when the child was forked, the parent keeps executing commands and collects
  their records in a buffer, and the merge appends the buffer to the compact log and installs
  the result. A store opened on that file has the contents of the running one.
\<close>

section \<open>The rewrite buffer\<close>

text \<open>The child \<open>p\<close> is rewriting the log, the buffer holds \<open>b\<close>, and there is memory for more.\<close>

definition collected :: "int \<Rightarrow> aof_state \<Rightarrow> string \<Rightarrow> bool" where
  "collected p a b \<longleftrightarrow> p > 0 \<and> aof_rewrite_pid a = p \<and>
     (case aof_rewrite_buf a of
        None \<Rightarrow> b = [] | Some x \<Rightarrow> take (aof_rewrite_buf_len a) x = b \<and> aof_rewrite_buf_len a = length b)"

definition buffered :: "int \<Rightarrow> world \<Rightarrow> string \<Rightarrow> bool" where
  "buffered p w b \<longleftrightarrow> no_oom w \<and> collected p (aof w) b"

lemma buffered_records: "buffered p w b \<Longrightarrow> buffered_records (aof w) = b"
  by (auto simp: buffered_def collected_def buffered_records_def split: option.splits)

definition both :: "int \<Rightarrow> world \<Rightarrow> string \<Rightarrow> string \<Rightarrow> bool" where
  "both p w d b \<longleftrightarrow> log_is w d \<and> buffered p w b"

lemma buffered_append:
  assumes "buffered p w b"
  shows "buffered p (append_aof_rewrite_buffer d w) (b @ d)"
  using assms
  by (auto simp: append_aof_rewrite_buffer_def buffered_def collected_def Let_def split_beta libc_malloc_def no_oom_def frame
      split: option.splits if_splits)

lemma both_append: "both p w d b \<Longrightarrow> both p (append_aof_rewrite_buffer r w) d (b @ r)"
  using buffered_append silent_log [OF silent_append [OF silent_refl]] by (auto simp: both_def)

lemma both_record:
  "both p w d b \<Longrightarrow> both p (append_record1 c k w) d (b @ record1 c k)"
  "both p w d b \<Longrightarrow> both p (append_record2 c k v w) d (b @ record2 c k v)"
proof -
  assume a: "both p w d b"
  note r = both_append [OF both_append [OF a, of "c @ [tab]"], of k]
  show "both p (append_record1 c k w) d (b @ record1 c k)"
    using both_append [OF r, of "[nl]"] by (simp add: append_record1_def record1_def)
  show "both p (append_record2 c k v w) d (b @ record2 c k v)"
    using both_append [OF both_append [OF both_append [OF r, of "[tab]"], of v], of "[nl]"]
    by (simp add: append_record2_def record2_def)
qed

text \<open>Stages that touch neither the log nor the buffer.\<close>

definition inert :: "world \<Rightarrow> world \<Rightarrow> bool" where
  "inert w w' \<longleftrightarrow> kept w w' \<and> aof w' = aof w"

lemma inert_refl [simp]: "inert w w"
  by (simp add: inert_def)

lemma inert_both: "inert w w' \<Longrightarrow> both p w d b \<Longrightarrow> both p w' d b"
  using keptD(2) [of w w'] silent_log [of w w' d] by (auto simp: inert_def both_def buffered_def silent_def)

lemma inert_st [simp]: "inert w (w'\<lparr>st := s\<rparr>) = inert w w'"
  by (simp add: inert_def)

lemma both_st [simp]: "both p (w\<lparr>st := s\<rparr>) d b = both p w d b"
  by (simp add: both_def buffered_def log_is_def log_at_def no_oom_def)

lemma inert_locks [simp]:
  "inert w (kv_acquire_bucket_lock k w') = inert w w'" "inert w (kv_release_bucket_lock k w') = inert w w'"
  "inert w (kv_acquire_all_locks w') = inert w w'" "inert w (kv_release_all_locks w') = inert w w'"
  "inert w (set_release g k w') = inert w w'"
  by (simp_all add: inert_def frame set_release_def)

lemma both_locks [simp]:
  "both p (kv_acquire_bucket_lock k w) d b = both p w d b" "both p (kv_release_bucket_lock k w) d b = both p w d b"
  "both p (kv_acquire_all_locks w) d b = both p w d b" "both p (kv_release_all_locks w) d b = both p w d b"
  "both p (set_release g k w) d b = both p w d b"
  by (simp_all add: both_def buffered_def log_is_def log_at_def no_oom_def frame set_release_def)

lemma inert_prim:
  "inert w w' \<Longrightarrow> inert w (snd (libc_malloc w'))" "inert w w' \<Longrightarrow> inert w (snd (tracked_malloc n w'))"
  "inert w w' \<Longrightarrow> inert w (snd (tracked_calloc m n w'))" "inert w w' \<Longrightarrow> inert w (snd (kv_current_time_ms w'))"
  by (simp_all add: inert_def kept_prim frame)

lemma inert_copy: "inert w w' \<Longrightarrow> inert w (snd (copy_string_bounded s m w'))"
  by (simp add: copy_string_bounded_def Let_def split_beta inert_prim)

lemma inert_find_entry: "inert w w' \<Longrightarrow> inert w (snd (find_entry_unlocked k w'))"
  by (simp add: inert_def kept_find_entry frame)

lemma inert_resize: "inert w w' \<Longrightarrow> inert w (snd (kv_resize_unlocked n w'))"
  by (simp add: inert_def kept_resize frame)

lemma inert_make_room: "inert w w' \<Longrightarrow> inert w (snd (make_room need w'))"
  by (simp add: inert_def kept_make_room) (simp add: make_room_def Let_def lru.loop_others)

lemmas inert_stages = inert_prim inert_copy inert_find_entry inert_resize inert_make_room

lemma inert_acquire:
  "inert w w' \<Longrightarrow> inert w (snd (set_acquire bytes k w'))" "inert w w' \<Longrightarrow> inert w (snd (coll_acquire bytes k w'))"
  by (simp_all add: set_acquire_def acquire_global_def coll_acquire_def Let_def split_beta inert_stages)

lemma inert_obtain_entry:
  assumes "\<And>u. inert w u \<Longrightarrow> inert w (snd (alloc u))" and "inert w w'"
  shows "inert w (snd (obtain_entry kind fresh alloc k w'))"
  using assms
  by (simp add: obtain_entry_def create_entry_def alloc_coll_entry_def Let_def split_beta inert_stages split: option.split)

lemma inert_room_for_node: "inert w w' \<Longrightarrow> inert w (snd (room_for_node n v w'))"
  by (simp add: room_for_node_def alloc_node_def Let_def split_beta inert_stages split: option.split)

text \<open>Writing to the log leaves the buffer alone.\<close>

definition rewrite_fields :: "world \<Rightarrow> int \<times> cstr \<times> nat" where
  "rewrite_fields w = (aof_rewrite_pid (aof w), aof_rewrite_buf (aof w), aof_rewrite_buf_len (aof w))"

lemma rewrite_fields_io [simp]:
  "rewrite_fields (set_fp f w) = rewrite_fields w" "rewrite_fields (snd (io_step w)) = rewrite_fields w"
  "rewrite_fields (mutex_lock m w) = rewrite_fields w" "rewrite_fields (mutex_unlock m w) = rewrite_fields w"
  "rewrite_fields (replication_broadcast d w) = rewrite_fields w"
  by (simp_all add: rewrite_fields_def frame) (simp add: io_step_def)+

lemma rewrite_fields_stream [simp]:
  "rewrite_fields (snd (snd (fwrite d f w))) = rewrite_fields w" "rewrite_fields (snd (snd (fflush f w))) = rewrite_fields w"
  "rewrite_fields (snd (snd (fsync f w))) = rewrite_fields w"
  using rewrite_fields_io(2) [of w]
  by (cases "io_step w"; auto simp: fwrite_def fflush_def fsync_def Let_def split: option.split)+

lemma rewrite_fields_persist [simp]: "rewrite_fields (snd (persist_locked f w)) = rewrite_fields w"
  by (simp add: persist_locked_def Let_def split_beta)

lemma rewrite_fields_write [simp]:
  "rewrite_fields (snd (snd (write_aof_record r w))) = rewrite_fields w"
  "rewrite_fields (rollback_aof_record p w) = rewrite_fields w"
  by (simp_all add: write_aof_record_def write_locked_def rollback_aof_record_def Let_def split_beta split: option.split)

lemma buffered_write:
  "buffered p (snd (snd (write_aof_record r w))) b = buffered p w b" "buffered p (rollback_aof_record pos w) b = buffered p w b"
proof -
  have "buffered p w b = buffered p w' b" if "same_but_log w w'" "rewrite_fields w' = rewrite_fields w" for w'
    using same_but_logD(3) [OF that(1)] that(2) by (simp add: buffered_def collected_def rewrite_fields_def split: option.split)
  then show "buffered p (snd (snd (write_aof_record r w))) b = buffered p w b" "buffered p (rollback_aof_record pos w) b = buffered p w b"
    using same_but_log_write same_but_log_rollback rewrite_fields_write by metis+
qed

lemma both_quietly: "both p w d b \<Longrightarrow> record_fits r \<Longrightarrow> both p (log_quietly r w) (d @ r) b"
  using log_is_quietly [of w d r] by (auto simp: both_def buffered_write log_quietly_def)

section \<open>Commands during a rewrite\<close>

text \<open>Log and buffer advance together: a command adds its record to both or to neither. Removing the
  last element of a list or a set also removes the key, which adds one more record to the
  buffer.\<close>

definition in_step :: "int \<Rightarrow> log_op \<Rightarrow> world \<Rightarrow> string \<Rightarrow> string \<Rightarrow> bool" where
  "in_step p x w d b \<longleftrightarrow> both p w d b \<or> both p w (d @ op_record x) (b @ op_record x) \<or>
     abs_view (st w) (op_key x) = None \<and>
       both p w (d @ op_record x) (b @ op_record x @ op_record (L_Delete (op_key x)))"

lemma in_step_same: "both p w d b \<Longrightarrow> in_step p x w d b"
  by (simp add: in_step_def)

lemma in_step_release [simp]:
  "in_step p x (set_release g k w) d b = in_step p x w d b" "in_step p x (kv_release_bucket_lock k w) d b = in_step p x w d b"
  by (simp_all add: in_step_def frame set_release_def)

lemma both_insert_string:
  "both p w d b \<Longrightarrow> both p (snd (insert_string k v w)) d (if fst (insert_string k v w) = KV_OK then b @ record2 ''SET'' k v else b)"
  by (auto simp: insert_string_def alloc_string_entry_def Let_def split_beta
      intro!: both_record inert_both [of w, rotated] inert_stages split: option.split)

lemma both_set_internal:
  assumes "both p w d b"
  shows "both p (snd (kv_set_internal (Some k) (Some v) w)) d
    (if fst (kv_set_internal (Some k) (Some v) w) = KV_OK then b @ record2 ''SET'' k v else b)"
proof -
  define P where "P q \<longleftrightarrow> both p (snd q) d (if fst q = KV_OK then b @ record2 ''SET'' k v else b)" for q
  have fail: "P (err, u)" if "both p u d b" "err \<noteq> KV_OK" for err u using that by (simp add: P_def)
  have ins: "P (insert_string k v u)" if "both p u d b" for u using both_insert_string [OF that] by (simp add: P_def)
  have room: "both p (snd (make_room n w)) d b" for n by (rule inert_both [OF inert_make_room [OF inert_refl] assms])
  have over: "P (overwrite_string ptr k v n u)" if u: "both p u d b" for ptr n u
    using both_record(2) inert_both [OF inert_copy [OF inert_refl] u]
    by (simp add: P_def overwrite_string_def Let_def split_beta split: option.split)
  have "P (replace_string k v old w)" for old
    using room over ins fail assms by (simp add: replace_string_def Let_def split_beta split: option.split)
  then have "P (kv_set_internal (Some k) (Some v) w)"
    using ins [OF assms] fail [OF assms] validate_key_error [of "Some k"] validate_value_error [of "Some v"]
    by (fastforce simp: kv_set_internal_def Let_def split: sum.split option.split kv_value.split)
  then show ?thesis by (simp add: P_def)
qed

lemma both_delete_internal:
  assumes "both p w d b"
  shows "both p (snd (kv_delete_internal (Some k) w)) d
    (if fst (kv_delete_internal (Some k) w) = KV_OK then b @ record1 ''DELETE'' k else b)"
  using both_record(1) assms by (auto simp: kv_delete_internal_def Let_def split: sum.split option.split)

lemma both_logged:
  assumes "both p w d b" and "record_fits (op_record x)"
    and "\<And>u d b. both p u d b \<Longrightarrow> both p (snd (update u)) d (if fst (update u) = KV_OK then b @ op_record x else b)"
  shows "in_step p x (snd (logged (op_record x) update w)) d b"
proof -
  let ?r = "op_record x"
  obtain w1 where w1: "write_aof_record ?r w = (KV_OK, int (length d), w1)" "log_is w1 (d @ ?r)"
    using log_is_write [of w d ?r] assms(1,2) by (auto simp: both_def)
  have "buffered p w1 b" using buffered_write(1) [of p ?r w b] w1(1) assms(1) by (simp add: both_def)
  with w1(2) have b2: "both p (snd (update w1)) (d @ ?r) (if fst (update w1) = KV_OK then b @ ?r else b)"
    by (intro assms(3)) (simp add: both_def)
  have "aof_fp (aof w) \<noteq> None" "aof_fp (aof (snd (update w1))) \<noteq> None"
    using assms(1) b2 by (auto simp: both_def log_is_def log_at_def)
  moreover have "both p (rollback_aof_record (int (length d)) (snd (update w1))) d b" if "fst (update w1) \<noteq> KV_OK"
    using b2 that log_is_rollback [of "snd (update w1)" "d @ ?r" "length d"] by (simp add: both_def buffered_write)
  ultimately show ?thesis
    using w1(1) b2 by (auto simp: in_step_def logged_def Let_def split_beta)
qed

lemma in_step_set:
  assumes "both p w d b" and "lock_initialized (st w)" and "valid_key k" "cstring k" "valid_value v" "cstring v"
    and "record_fits (op_record (L_Set k v))"
  shows "in_step p (L_Set k v) (snd (kv_set (Some k) (Some v) w)) d b"
proof -
  obtain g w1 where acq: "set_acquire (sizeof_kv_entry + length k + 1 + length v + 1) k w = (g, w1)" by fastforce
  have "both p w1 d b" using inert_both [OF inert_acquire(1) [OF inert_refl] assms(1)] acq by (metis snd_conv)
  from both_logged [OF this assms(7)] both_set_internal
  have "in_step p (L_Set k v) (snd (logged (record2 ''SET'' k v) (kv_set_internal (Some k) (Some v)) w1)) d b"
    unfolding op_record_simps by blast
  then show ?thesis using assms(2-6) acq by (simp add: kv_set_def Let_def split_beta)
qed

lemma in_step_delete:
  assumes "both p w d b" and "lock_initialized (st w)" and "valid_key k" "cstring k" and "record_fits (op_record (L_Delete k))"
  shows "in_step p (L_Delete k) (snd (kv_delete (Some k) w)) d b"
proof -
  have "both p (kv_acquire_bucket_lock k w) d b" using assms(1) by simp
  from both_logged [OF this assms(5)] both_delete_internal
  have "in_step p (L_Delete k) (snd (logged (record1 ''DELETE'' k) (kv_delete_internal (Some k)) (kv_acquire_bucket_lock k w))) d b"
    unfolding op_record_simps by blast
  then show ?thesis using assms(2-4) by (simp add: kv_delete_def Let_def split_beta)
qed

text \<open>Adding an element: room for the node, then the record in both places.\<close>

lemma both_added:
  assumes "both p u d b" and "record_fits (record2 c k v)"
  shows "both p (append_record2 c k v (log_quietly (record2 c k v) (u\<lparr>st := s\<rparr>))) (d @ record2 c k v) (b @ record2 c k v)"
  using assms by (intro both_record both_quietly) simp_all

lemma in_step_lpush:
  assumes "both p w d b" and "record_fits (op_record (L_Lpush k v))" and "kv_lpush (Some k) (Some v) w = Inr (r, w')"
  shows "in_step p (L_Lpush k v) w' d b"
proof -
  have al: "inert w u \<Longrightarrow> inert w (snd (alloc_list u))" for u by (simp add: alloc_list_def inert_prim)
  have q: "both p (snd (obtain_entry KV_TYPE_LIST (VList empty_list) alloc_list k (snd (coll_acquire n k w)))) d b" for n
    using inert_both [OF inert_obtain_entry [OF al inert_acquire(2) [OF inert_refl]] assms(1)] .
  have fits: "record_fits (record2 ''LPUSH'' k v)" using assms(2) by (simp add: op_record_simps)
  have node: "in_step p (L_Lpush k v) u' d b" if "lpush_node k v u = Inr (r', u')" "both p u d b" for u r' u'
    using that inert_both [OF inert_room_for_node [OF inert_refl] that(2), of sizeof_kv_list_node v]
      both_added [OF _ fits]
    by (auto simp: lpush_node_def in_step_def op_record_simps Let_def split_beta split: sum.splits option.splits kv_value.splits)
  show ?thesis
    using assms(1,3) q node
    by (auto simp: kv_lpush_def Let_def split_beta in_step_same split: if_splits sum.splits)
qed

lemma in_step_sadd:
  assumes "both p w d b" and "record_fits (op_record (L_Sadd k v))" and "kv_sadd (Some k) (Some v) w = Inr (r, w')"
  shows "in_step p (L_Sadd k v) w' d b"
proof -
  have al: "inert w u \<Longrightarrow> inert w (snd (alloc_set u))" for u by (simp add: alloc_set_def Let_def split_beta inert_prim)
  have q: "both p (snd (obtain_entry KV_TYPE_SET (VSet empty_set_value) alloc_set k (snd (coll_acquire n k w)))) d b" for n
    using inert_both [OF inert_obtain_entry [OF al inert_acquire(2) [OF inert_refl]] assms(1)] .
  have fits: "record_fits (record2 ''SADD'' k v)" using assms(2) by (simp add: op_record_simps)
  have node: "in_step p (L_Sadd k v) u' d b" if "sadd_member k v u = Inr (r', u')" "both p u d b" for u r' u'
    using that inert_both [OF inert_room_for_node [OF inert_refl] that(2), of sizeof_kv_set_node v]
      both_added [OF _ fits]
    by (auto simp: sadd_member_def sadd_node_def in_step_def op_record_simps Let_def split_beta
        split: if_splits sum.splits option.splits kv_value.splits)
  show ?thesis
    using assms(1,3) q node
    by (auto simp: kv_sadd_def Let_def split_beta in_step_same split: if_splits sum.splits)
qed

lemma in_step_pexpireat:
  assumes "both p w d b" and "record_fits (op_record (L_Pexpireat k t))"
  shows "in_step p (L_Pexpireat k t) (snd (kv_pexpireat (Some k) t w)) d b"
proof -
  define u where "u = snd (find_entry_unlocked k (kv_acquire_bucket_lock k w))"
  have u: "both p u d b" using inert_both [OF inert_find_entry assms(1)] by (simp add: u_def)
  have fits: "record_fits (record2 ''PEXPIREAT'' k (show_int t))" using assms(2) by (simp add: op_record_simps)
  have "both p (snd (snd (write_aof_pexpireat k t (u\<lparr>st := s\<rparr>)))) (d @ record2 ''PEXPIREAT'' k (show_int t)) b" for s
  proof -
    have "aof_fp (aof u) \<noteq> None" using u by (auto simp: both_def log_is_def log_at_def)
    then show ?thesis
      using both_quietly [of p "u\<lparr>st := s\<rparr>" d b, OF _ fits] u by (simp add: log_quietly_def write_aof_pexpireat_def)
  qed
  from both_record(2) [OF this] u assms(1) show ?thesis
    by (simp add: kv_pexpireat_def in_step_def op_record_simps Let_def split_beta u_def [symmetric] split: option.split)
qed

text \<open>Removing an element, and with the last one the key.\<close>

lemma both_settle:
  assumes "both p u d b" and "wf_store base (st u)" and "cstring k" and "valid_key k"
  shows "both p (settle e k ptr u) d b \<or>
    abs_view (st (settle e k ptr u)) k = None \<and> both p (settle e k ptr u) d (b @ record1 ''DELETE'' k)"
  using both_delete_internal [OF assms(1), of k] kv_delete_internal_spec(3) [OF assms(2-4)] assms(1)
  by (simp add: settle_def abs_view_def split: if_splits)

lemma in_step_removed:
  assumes "both p u d b" and "record_fits (op_record x)" and "wf_store base s" and "cstring (op_key x)" and "valid_key (op_key x)"
    and "put = append_record1 c k \<and> op_record x = record1 c k \<or> put = append_record2 c k v \<and> op_record x = record2 c k v"
  shows "in_step p x (settle e (op_key x) ptr (put (log_quietly (op_record x) (u\<lparr>st := s\<rparr>)))) d b"
proof -
  let ?u = "put (log_quietly (op_record x) (u\<lparr>st := s\<rparr>))"
  have "both p ?u (d @ op_record x) (b @ op_record x)"
    using both_record [OF both_quietly [OF _ assms(2)], of p "u\<lparr>st := s\<rparr>" d b] assms(1,6) by auto
  moreover have "st ?u = s" using assms(6) by auto
  ultimately show ?thesis
    using both_settle [of p ?u "d @ op_record x" "b @ op_record x" base "op_key x" e ptr] assms(3-5)
    by (auto simp: in_step_def op_record_simps)
qed

lemma in_step_rpop_entry:
  assumes "both p w d b" and "record_fits (op_record (L_Rpop k))" and "wf_store base (st w)" and "valid_ptr (st w) ptr"
    and "e_key (deref (st w) ptr) = k" and "e_value (deref (st w) ptr) = VList l"
  shows "in_step p (L_Rpop k) (snd (snd (rpop_entry k ptr l w))) d b"
proof (cases "list_pop l")
  case None
  with assms(1) show ?thesis by (simp add: rpop_entry_def in_step_def)
next
  case (Some a)
  obtain v l' where a: "a = (v, l')" by fastforce
  have wf: "wf_value (VList l)" "cstring k" "valid_key k"
    using wf_store_entry [OF assms(3,4)] assms(5,6) by (auto simp: wf_entry_def)
  note pop = list_pop_Some [OF wf(1) Some [unfolded a]]
  have "value_bytes (e_value (deref (st w) ptr)) = value_bytes (VList l') + (sizeof_kv_list_node + length v + 1)"
    using pop(4) assms(6) by simp
  note s1 = shrink_value_spec(1) [OF assms(3,4) pop(2) this]
  have u: "both p (snd (libc_malloc w)) d b" by (rule inert_both [OF inert_prim(1) [OF inert_refl] assms(1)])
  from in_step_removed [OF u assms(2) s1, of "append_record1 ''RPOP'' k" "''RPOP''" k]
  show ?thesis
    using Some a u wf(2,3)
    by (auto simp: rpop_entry_def Let_def split_beta op_record_simps frame) (simp add: in_step_def)
qed

lemma in_step_rpop:
  assumes "both p w d b" and "record_fits (op_record (L_Rpop k))" and "wf_store base (st w)"
  shows "in_step p (L_Rpop k) (snd (snd (kv_rpop (Some k) w))) d b"
proof -
  define u where "u = snd (find_entry_unlocked k (kv_acquire_bucket_lock k w))"
  have u: "both p u d b" using inert_both [OF inert_find_entry assms(1)] by (simp add: u_def)
  note same = in_step_same [where x = "L_Rpop k"]
  from assms(3) show ?thesis
  proof (cases rule: locked_find_cases [where k = k])
    case (absent w2)
    then show ?thesis using same [OF u] same [OF assms(1)] by (simp add: kv_rpop_def u_def)
  next
    case (found ptr w2)
    with u have w2: "both p w2 d b" by (simp add: u_def)
    show ?thesis
    proof (cases "e_value (deref (st w2) ptr)")
      case (VList l)
      with found in_step_rpop_entry [OF w2 assms(2), of base ptr l] assms(3) show ?thesis
        using same [OF assms(1)] by (simp add: kv_rpop_def split_beta)
    qed (use found same [OF w2] same [OF assms(1)] in \<open>simp_all add: kv_rpop_def\<close>)
  qed
qed

lemma in_step_srem_entry:
  assumes "both p w d b" and "record_fits (op_record (L_Srem k v))" and "wf_store base (st w)" and "valid_ptr (st w) ptr"
    and "e_key (deref (st w) ptr) = k" and "e_value (deref (st w) ptr) = VSet t"
  shows "in_step p (L_Srem k v) (snd (srem_entry k v ptr t w)) d b"
proof -
  have wf: "wf_value (VSet t)" "cstring k" "valid_key k"
    using wf_store_entry [OF assms(3,4)] assms(5,6) by (auto simp: wf_entry_def)
  from wf(1) show ?thesis
  proof (cases rule: set_find_cases [where v = v])
    case absent
    then show ?thesis using assms(1) by (simp add: srem_entry_def in_step_def)
  next
    case (present i p)
    note un = set_unlink_spec [OF wf(1) present(3-5)]
    have "value_bytes (e_value (deref (st w) ptr)) = value_bytes (VSet (set_unlink (i, p) t)) + (sizeof_kv_set_node + length v + 1)"
      using un(3) assms(6) by simp
    note s1 = shrink_value_spec(1) [OF assms(3,4) un(1) this]
    from in_step_removed [OF assms(1,2) s1, of "append_record2 ''SREM'' k v" "''SREM''" k v]
    show ?thesis
      using present(1,5) wf(2,3) assms(1)
      by (auto simp: srem_entry_def Let_def op_record_simps) (simp add: in_step_def)
  qed
qed

lemma in_step_srem:
  assumes "both p w d b" and "record_fits (op_record (L_Srem k v))" and "wf_store base (st w)"
  shows "in_step p (L_Srem k v) (snd (kv_srem (Some k) (Some v) w)) d b"
proof -
  define u where "u = snd (find_entry_unlocked k (kv_acquire_bucket_lock k w))"
  have u: "both p u d b" using inert_both [OF inert_find_entry assms(1)] by (simp add: u_def)
  note same = in_step_same [where x = "L_Srem k v"]
  from assms(3) show ?thesis
  proof (cases rule: locked_find_cases [where k = k])
    case (absent w2)
    then show ?thesis using same [OF u] same [OF assms(1)] by (simp add: kv_srem_def u_def)
  next
    case (found ptr w2)
    with u have w2: "both p w2 d b" by (simp add: u_def)
    show ?thesis
    proof (cases "e_value (deref (st w2) ptr)")
      case (VSet l)
      with found in_step_srem_entry [OF w2 assms(2), of base ptr l] assms(3) show ?thesis
        using same [OF assms(1)] by (simp add: kv_srem_def split_beta)
    qed (use found same [OF w2] same [OF assms(1)] in \<open>simp_all add: kv_srem_def\<close>)
  qed
qed

section \<open>A history of commands during a rewrite\<close>

lemma run_cmd_in_step:
  assumes "ready base w" and "op_ok x" and "record_fits (op_record x)" and "both p w d b" and "run_cmd x w = Inr w'"
  shows "in_step p x w' d b"
proof -
  note r = readyD(1,2) [OF assms(1)]
  show ?thesis
  proof (cases x)
    case (L_Set k v)
    with assms in_step_set [OF assms(4) r(2), of k v] show ?thesis by (auto simp: loggable_def)
  next
    case (L_Delete k)
    with assms in_step_delete [OF assms(4) r(2), of k] show ?thesis by auto
  next
    case (L_Lpush k v)
    with assms in_step_lpush [OF assms(4), of k v] show ?thesis
      by (cases "kv_lpush (Some k) (Some v) w") (auto simp: ignoring_def)
  next
    case (L_Rpop k)
    with assms in_step_rpop [OF assms(4) _ r(1), of k] show ?thesis by auto
  next
    case (L_Sadd k v)
    with assms in_step_sadd [OF assms(4), of k v] show ?thesis
      by (cases "kv_sadd (Some k) (Some v) w") (auto simp: ignoring_def)
  next
    case (L_Srem k v)
    with assms in_step_srem [OF assms(4) _ r(1), of k v] show ?thesis by auto
  next
    case (L_Pexpireat k t)
    with assms in_step_pexpireat [OF assms(4), of k t] show ?thesis by auto
  qed
qed

lemma log_is_unique: "log_is w d \<Longrightarrow> log_is w d' \<Longrightarrow> d = d'"
  by (auto simp: log_is_def log_at_def)

lemma op_ok_delete: "op_ok x \<Longrightarrow> op_ok (L_Delete (op_key x))"
  by (cases x) auto

text \<open>What one command adds to the buffer has its effect.\<close>

lemma run_cmd_buffered:
  assumes "ready base w" and "op_ok x" and "record_fits (op_record x)" and "both p w d b" and "unexpired (op_key x) w"
  shows "\<exists>w' d' ys. run_cmd x w = Inr w' \<and> effect base x w w' \<and> both p w' d' (b @ concat (map op_record ys)) \<and>
    (\<forall>y\<in>set ys. op_ok y) \<and> fold abs_op ys (abs_view (st w)) = abs_op x (abs_view (st w)) \<and>
    (\<forall>clk. (\<forall>n. \<not> due (abs_view (st w)) (op_key x) (clk n)) \<longrightarrow> punctual clk ys (abs_view (st w)))"
proof -
  obtain w' where w': "run_cmd x w = Inr w'" "recorded base x w w' d"
    using run_cmd_recorded [OF assms(1-3) _ assms(5)] assms(4) by (auto simp: both_def)
  have eff: "effect base x w w'" "abs_view (st w') = abs_op x (abs_view (st w))"
    using w'(2) by (simp_all add: recorded_def effect_def)
  have ne: "op_record x \<noteq> []" using assms(3) by auto
  from run_cmd_in_step [OF assms(1-4) w'(1)] consider
    "both p w' d b" | "both p w' (d @ op_record x) (b @ op_record x)"
    | "abs_view (st w') (op_key x) = None" "both p w' (d @ op_record x) (b @ op_record x @ op_record (L_Delete (op_key x)))"
    by (auto simp: in_step_def)
  then show ?thesis
  proof cases
    case 1
    then have "\<not> log_is w' (d @ op_record x)" using log_is_unique ne by (fastforce simp: both_def)
    then have "abs_op x (abs_view (st w)) = abs_view (st w)" using w'(2) by (auto simp: recorded_def)
    with 1 w'(1) eff show ?thesis by (intro exI [of _ w'] exI [of _ d] exI [of _ "[]"]) simp
  next
    case 2
    with w'(1) eff assms(2) show ?thesis by (intro exI [of _ w'] exI [of _ "d @ op_record x"] exI [of _ "[x]"]) simp
  next
    case 3
    have "(abs_op x (abs_view (st w)))(op_key x := None) = abs_op x (abs_view (st w))"
      using 3(1) eff(2) by (simp add: fun_eq_iff)
    moreover have "\<not> due (abs_op x (abs_view (st w))) (op_key x) t" for t using 3(1) eff(2) by simp
    ultimately show ?thesis
      using 3(2) w'(1) eff assms(2) op_ok_delete [OF assms(2)]
      by (intro exI [of _ w'] exI [of _ "d @ op_record x"] exI [of _ "[x, L_Delete (op_key x)]"]) simp
  qed
qed

lemma run_cmds_buffered:
  assumes "ready base w" and "\<And>x. x \<in> set xs \<Longrightarrow> op_ok x \<and> record_fits (op_record x)"
    and "punctual (clock (os w)) xs (abs_view (st w))" and "both p w d b"
  shows "\<exists>w' d' ys. run_cmds xs w = Inr w' \<and> ready base w' \<and> kept w w' \<and> abs_view (st w') = fold abs_op xs (abs_view (st w)) \<and>
    both p w' d' (b @ concat (map op_record ys)) \<and> (\<forall>y\<in>set ys. op_ok y) \<and>
    fold abs_op ys (abs_view (st w)) = fold abs_op xs (abs_view (st w)) \<and>
    (\<forall>clk. punctual clk xs (abs_view (st w)) \<longrightarrow> punctual clk ys (abs_view (st w)))"
  using assms
proof (induction xs arbitrary: w d b)
  case Nil
  then show ?case by (intro exI [of _ w] exI [of _ d] exI [of _ "[]"]) simp
next
  case (Cons x xs)
  obtain w1 d1 us where x: "run_cmd x w = Inr w1" "effect base x w w1" "both p w1 d1 (b @ concat (map op_record us))"
    "\<forall>y\<in>set us. op_ok y" "fold abs_op us (abs_view (st w)) = abs_op x (abs_view (st w))"
    "\<And>clk. (\<forall>n. \<not> due (abs_view (st w)) (op_key x) (clk n)) \<longrightarrow> punctual clk us (abs_view (st w))"
    using run_cmd_buffered [OF Cons.prems(1) _ _ Cons.prems(4) punctual_unexpired [OF Cons.prems(3)]]
      Cons.prems(2) [of x] by auto
  have e: "ready base w1" "kept w w1" "abs_view (st w1) = abs_op x (abs_view (st w))"
    using x(2) by (simp_all add: effect_def)
  have p: "punctual (clock (os w1)) xs (abs_view (st w1))"
    using Cons.prems(3) e keptD(1) [of w w1] by simp
  from Cons.IH [OF e(1) _ p x(3)] Cons.prems(2) obtain w' d' ys where
    "run_cmds xs w1 = Inr w'" "ready base w'" "kept w1 w'" "abs_view (st w') = fold abs_op xs (abs_view (st w1))"
    "both p w' d' ((b @ concat (map op_record us)) @ concat (map op_record ys))" "\<forall>y\<in>set ys. op_ok y"
    "fold abs_op ys (abs_view (st w1)) = fold abs_op xs (abs_view (st w1))"
    "\<forall>clk. punctual clk xs (abs_view (st w1)) \<longrightarrow> punctual clk ys (abs_view (st w1))" by auto
  with x e kept_trans [OF e(2)] show ?case
    by (intro exI [of _ w'] exI [of _ d'] exI [of _ "us @ ys"]) (auto simp: punctual_append)
qed

section \<open>Beginning and end of a rewrite\<close>

lemma flush_idle: "log_is w d \<Longrightarrow> flush_log w = w"
  by (auto simp: log_is_def log_at_def flush_log_def fflush_def)

lemma rewrite_begins:
  assumes "ready base w" and "log_is w d" and "aof_path (aof w) \<noteq> None" and "aof_rewrite_pid (aof w) \<le> 0"
    and "bgsave_pid (st w) \<le> 0" and "0 < pid"
  shows "\<exists>w1. kv_bgrewriteaof pid w = (KV_OK, w1) \<and> st w1 = st w \<and> both pid w1 d [] \<and> ready base w1 \<and>
    clock (os w1) = clock (os w) \<and> aof_rewrite_pid (aof w1) = pid \<and> aof_path (aof w1) = aof_path (aof w)"
proof -
  let ?v = "kv_acquire_all_locks w"
  have "log_is ?v d" using assms(2) by (simp add: log_is_def log_at_def frame)
  note fl = flush_idle [OF this]
  define w3 where "w3 = (if aof_rewrite_buf (aof ?v) \<noteq> None then upd_aof (\<lambda>a. a\<lparr>aof_rewrite_buf_len := 0\<rparr>) ?v else ?v)"
  define w1 where "w1 = kv_release_all_locks (upd_aof (\<lambda>a. a\<lparr>aof_rewrite_pid := pid\<rparr>) w3)"
  have "kv_bgrewriteaof pid w = (KV_OK, w1)"
    using assms(3-6) fl by (simp add: kv_bgrewriteaof_def Let_def frame w1_def w3_def)
  moreover have "st w1 = st w" "clock (os w1) = clock (os w)" "aof_rewrite_pid (aof w1) = pid"
    "aof_path (aof w1) = aof_path (aof w)" "no_oom w1 = no_oom w" "log_is w1 d"
    using assms(2) by (simp_all add: w1_def w3_def frame no_oom_def log_is_def log_at_def)
  moreover have "collected pid (aof w1) []"
    using assms(6) by (auto simp: w1_def w3_def frame collected_def split: option.split)
  ultimately show ?thesis using assms(1) by (simp add: both_def buffered_def ready_def)
qed

lemma merge_installs:
  assumes "both pid w d b" and "aof_path (aof w) \<noteq> None"
  shows "\<exists>w'. kv_merge_aof_rewrite pid tmp w = (KV_OK, w') \<and> st w' = st w \<and> aof_fp (aof w') = Some (open_stream (tmp @ b))"
proof -
  let ?v = "kv_acquire_all_locks w"
  let ?tick = "\<lambda>n u. u\<lparr>os := (os u)\<lparr>io_calls := io_calls (os u) + n\<rparr>\<rparr>"
  have io: "io_step u = (None, ?tick 1 u)" if "io_fault (os u) = (\<lambda>_. None)" for u
    using that by (simp add: io_step_def)
  have v: "io_fault (os ?v) = (\<lambda>_. None)" "0 < pid" "buffered_records (aof ?v) = b" "log_is (?tick n ?v) d" for n
    using assms(1) buffered_records by (auto simp: both_def log_is_def log_at_def buffered_def collected_def frame)
  have pid: "aof_rewrite_pid (aof ?v) = pid" using assms(1) by (simp add: both_def buffered_def collected_def frame)
  have inst: "\<exists>w'. merge_install content (?tick n ?v) = (KV_OK, w') \<and> st w' = st w \<and> aof_fp (aof w') = Some (open_stream content)" for content n
    using v(1) flush_idle [OF v(4), of n] by (simp add: merge_install_def io forget_rewrite_def frame)
  obtain w1 where w1: "merge_install (tmp @ b) (?tick (if b = [] then Suc 0 else Suc (Suc (Suc 0))) ?v) = (KV_OK, w1)" "st w1 = st w"
    "aof_fp (aof w1) = Some (open_stream (tmp @ b))" using inst by blast
  have "kv_merge_aof_rewrite pid tmp w = (KV_OK, kv_release_all_locks w1)"
    using assms(2) v(1-3) w1(1) pid by (cases "b = []") (simp_all add: kv_merge_aof_rewrite_def Let_def io frame)
  with w1(2,3) show ?thesis by (simp add: frame)
qed

text \<open>Nothing in the store is left out of a compact log: nothing has expired, no list or set is
  empty, and no deadline lies before the epoch.\<close>

definition compactable :: "int \<Rightarrow> kv_store \<Rightarrow> bool" where
  "compactable now s \<longleftrightarrow> (\<forall>k e. lookup s k = Some e \<longrightarrow> rewritten now e = Some (abs_value (e_value e), expire_at_ms e))"

lemma compactable_view: "compactable now s \<Longrightarrow> (\<lambda>k. Option.bind (lookup s k) (rewritten now)) = abs_view s"
  by (auto simp: compactable_def abs_view_def fun_eq_iff split: option.split bind_split)

section \<open>Properties\<close>



end
