(* ===== verification/KV_Locks.thy ===== *)
theory KV_Locks
  imports KV_Protocol
begin

text \<open>
  The discipline of the locks. The history of lock operations that the world carries is replayed
  against a stack of held locks: a lock may be taken only above all those held in a fixed order,
  the shard locks by index and then the lock of the log or of the list of replicas, and only the
  lock taken last may be released. A command that follows the discipline ends with what it
  started with; threads that all follow it cannot wait for each other in a circle.
\<close>

section \<open>The discipline\<close>

fun below :: "mutex \<Rightarrow> mutex \<Rightarrow> bool" where
  "below (Bucket_Lock i) (Bucket_Lock j) = (i < j)"
| "below (Bucket_Lock i) m = True"
| "below m m' = False"

text \<open>The locks held after the events, or nothing if one of them breaks the discipline.\<close>

fun holding :: "mutex list \<Rightarrow> lock_event list \<Rightarrow> mutex list option" where
  "holding held [] = Some held"
| "holding held (Lock m # es) = (if \<forall>h\<in>set held. below h m then holding (m # held) es else None)"
| "holding held (Unlock m # es) =
     (case held of [] \<Rightarrow> None | h # hs \<Rightarrow> if h = m then holding hs es else None)"

lemma holding_append: "holding held (es @ es') = Option.bind (holding held es) (\<lambda>h. holding h es')"
  by (induction held es rule: holding.induct) (auto split: list.split)

definition lock_settings :: "kv_store \<Rightarrow> bool \<times> bool \<times> nat" where
  "lock_settings s = (lock_initialized s, bucket_locks s, num_locks s)"

text \<open>\<open>moves h w h' w'\<close>: from holding \<open>h\<close>, the events between the two states lead to holding \<open>h'\<close>.\<close>

definition moves :: "mutex list \<Rightarrow> world \<Rightarrow> mutex list \<Rightarrow> world \<Rightarrow> bool" where
  "moves h w h' w' \<longleftrightarrow> lock_settings (st w') = lock_settings (st w) \<and>
     (\<exists>es. lock_trace w' = rev es @ lock_trace w \<and> holding h es = Some h')"

lemma moves_refl [simp]: "moves h w h w"
  by (auto simp: moves_def intro: exI [of _ "[]"])

lemma moves_trans: "moves h w h1 w1 \<Longrightarrow> moves h1 w1 h2 w2 \<Longrightarrow> moves h w h2 w2"
  unfolding moves_def by (metis append.assoc bind.bind_lunit holding_append rev_append)

lemma moves_lock:
  "\<forall>x\<in>set h. below x m \<Longrightarrow> moves h w (m # h) (mutex_lock m w)" "moves (m # h) w h (mutex_unlock m w)"
  by (auto simp: moves_def frame intro: exI [of _ "[Lock m]"] exI [of _ "[Unlock m]"])

text \<open>What a command does while it holds shard locks: short sections under a lock that is taken
  last.\<close>

definition shards :: "mutex list \<Rightarrow> bool" where
  "shards h \<longleftrightarrow> (\<forall>m\<in>set h. \<exists>i. m = Bucket_Lock i)"

definition orderly :: "world \<Rightarrow> world \<Rightarrow> bool" where
  "orderly w w' \<longleftrightarrow> (\<forall>h. shards h \<longrightarrow> moves h w h w')"

lemma orderly_refl [simp]: "orderly w w"
  by (simp add: orderly_def)

lemma orderly_trans: "orderly w w1 \<Longrightarrow> orderly w1 w2 \<Longrightarrow> orderly w w2"
  using moves_trans by (fastforce simp: orderly_def)

lemma orderly_same:
  "orderly w w1 \<Longrightarrow> lock_trace w2 = lock_trace w1 \<Longrightarrow> lock_settings (st w2) = lock_settings (st w1) \<Longrightarrow> orderly w w2"
  by (simp add: orderly_def moves_def)

lemma orderly_st [simp]: "lock_settings s = lock_settings (st w') \<Longrightarrow> orderly w (w'\<lparr>st := s\<rparr>) = orderly w w'"
  by (simp add: orderly_def moves_def)

lemma orderly_aof [simp]: "orderly w (w'\<lparr>aof := a\<rparr>) = orderly w w'" "orderly w (w'\<lparr>repl := r\<rparr>) = orderly w w'"
  "orderly w (w'\<lparr>os := e\<rparr>) = orderly w w'"
  by (simp_all add: orderly_def moves_def)

lemma orderly_settings: "orderly w w' \<Longrightarrow> lock_settings (st w') = lock_settings (st w)"
  by (auto simp: orderly_def moves_def shards_def dest: spec [of _ "[]"])

lemma orderly_section:
  assumes "m = Aof_Lock \<or> m = Replicas_Lock" and "lock_trace w' = Lock m # lock_trace w"
    and "lock_settings (st w') = lock_settings (st w)"
  shows "orderly w (mutex_unlock m w')"
proof -
  have "holding h [Lock m, Unlock m] = Some h" if "shards h" for h
    using that assms(1) by (fastforce simp: shards_def)
  moreover have "lock_trace (mutex_unlock m w') = rev [Lock m, Unlock m] @ lock_trace w"
    using assms(2) by (simp add: frame)
  ultimately show ?thesis
    unfolding orderly_def moves_def using assms(3) by (metis mutex_frame(6))
qed

section \<open>Stages\<close>

lemma lock_settings_updates [simp]:
  "lock_settings (set_entry ptr g s) = lock_settings s" "lock_settings (touch ptr s) = lock_settings s"
  "lock_settings (add_bytes n s) = lock_settings s" "lock_settings (sub_bytes n s) = lock_settings s"
  "lock_settings (insert_entry e s) = lock_settings s" "lock_settings (expire_and_delete_unlocked ptr s) = lock_settings s"
  "lock_settings (s\<lparr>lru_clock := c\<rparr>) = lock_settings s" "lock_settings (s\<lparr>allocated_bytes := n\<rparr>) = lock_settings s"
  "lock_settings (s\<lparr>buckets := bs\<rparr>) = lock_settings s" "lock_settings (s\<lparr>bucket_count := n\<rparr>) = lock_settings s"
  "lock_settings (s\<lparr>bgsave_pid := p\<rparr>) = lock_settings s"
  by (simp_all add: lock_settings_def set_entry_def touch_def add_bytes_def sub_bytes_def insert_entry_def
      expire_and_delete_unlocked_def Let_def split_beta)

lemma orderly_prim:
  "orderly w w' \<Longrightarrow> orderly w (snd (libc_malloc w'))" "orderly w w' \<Longrightarrow> orderly w (snd (tracked_malloc n w'))"
  "orderly w w' \<Longrightarrow> orderly w (snd (tracked_calloc m n w'))" "orderly w w' \<Longrightarrow> orderly w (snd (kv_current_time_ms w'))"
  "orderly w w' \<Longrightarrow> orderly w (snd (io_step w'))"
  by (erule orderly_same; simp add: frame io_step_def)+

lemma orderly_copy: "orderly w w' \<Longrightarrow> orderly w (snd (copy_string_bounded s m w'))"
  by (simp add: copy_string_bounded_def Let_def split_beta orderly_prim)

lemma orderly_find_entry: "orderly w w' \<Longrightarrow> orderly w (snd (find_entry_unlocked k w'))"
  by (simp add: find_entry_unlocked_def Let_def split_beta orderly_prim split: option.split)

lemma orderly_resize: "orderly w w' \<Longrightarrow> orderly w (snd (kv_resize_unlocked n w'))"
  by (simp add: kv_resize_unlocked_def Let_def split_beta orderly_prim)

lemma orderly_evict: "orderly w w' \<Longrightarrow> orderly w (snd (kv_evict_lru_unlocked w'))"
  by (simp add: kv_evict_lru_unlocked_def Let_def split_beta split: option.split)

lemma orderly_evict_for: "orderly w w' \<Longrightarrow> orderly w (evict_for need w')"
  by (induction need w' rule: evict_for.induct) (subst evict_for.simps, auto simp: orderly_evict)

lemma orderly_make_room: "orderly w w' \<Longrightarrow> orderly w (snd (make_room need w'))"
  by (simp add: make_room_def Let_def orderly_evict_for)

text \<open>Input and output while the lock of the log or of the replicas is held.\<close>

definition unlocked_part :: "world \<Rightarrow> kv_store \<times> lock_event list" where
  "unlocked_part w = (st w, lock_trace w)"

lemma unlocked_io [simp]:
  "unlocked_part (w\<lparr>aof := a\<rparr>) = unlocked_part w" "unlocked_part (w\<lparr>repl := r\<rparr>) = unlocked_part w"
  "unlocked_part (snd (io_step w)) = unlocked_part w" "unlocked_part (snd (libc_malloc w)) = unlocked_part w"
  by (simp_all add: unlocked_part_def io_step_def libc_malloc_def)

lemma unlocked_stream [simp]:
  "unlocked_part (snd (snd (fwrite d f w))) = unlocked_part w" "unlocked_part (snd (snd (fflush f w))) = unlocked_part w"
  "unlocked_part (snd (snd (fsync f w))) = unlocked_part w"
  using unlocked_io(3) [of w]
  by (cases "io_step w"; auto simp: fwrite_def fflush_def fsync_def Let_def split: option.split)+

lemma unlocked_write [simp]:
  "unlocked_part (snd (persist_locked f w)) = unlocked_part w" "unlocked_part (snd (snd (write_locked buf f w))) = unlocked_part w"
  by (simp_all add: persist_locked_def write_locked_def Let_def split_beta)

lemma unlocked_broadcast [simp]: "unlocked_part (snd (broadcast_loop d fds w)) = unlocked_part w"
proof (induction d fds w rule: broadcast_loop.induct)
  case (2 d fd fds w)
  have "unlocked_part (snd (io_step w)) = unlocked_part w" by simp
  with 2 show ?case by (cases "io_step w") (auto simp: Let_def split_beta split: option.split nat.split)
qed simp

lemma orderly_unlock:
  assumes "orderly w w'" and "unlocked_part w2 = unlocked_part (mutex_lock m w')" and "m = Aof_Lock \<or> m = Replicas_Lock"
  shows "orderly w (mutex_unlock m w2)"
  using assms by (intro orderly_trans [OF assms(1) orderly_section]) (auto simp: unlocked_part_def frame)

lemma orderly_broadcast: "orderly w w' \<Longrightarrow> orderly w (replication_broadcast d w')"
  by (auto simp: replication_broadcast_def Let_def split_beta intro: orderly_unlock)

lemma orderly_write:
  assumes "orderly w w'"
  shows "orderly w (snd (snd (write_aof_record buf w')))"
proof -
  define w1 where "w1 = (if record_fits buf then replication_broadcast buf w' else w')"
  have w1: "orderly w w1" using orderly_broadcast [OF assms] assms by (simp add: w1_def)
  then have "orderly w (mutex_unlock Aof_Lock (snd (snd (write_locked buf f (mutex_lock Aof_Lock w1)))))" for f
    by (rule orderly_unlock) simp_all
  with w1 show ?thesis
    unfolding write_aof_record_def w1_def [symmetric] by (simp add: Let_def split_beta split: option.split)
qed

lemma orderly_rollback: "orderly w w' \<Longrightarrow> orderly w (rollback_aof_record pos w')"
  by (auto simp: rollback_aof_record_def Let_def split_beta intro!: orderly_unlock split: option.split)

lemma orderly_append: "orderly w w' \<Longrightarrow> orderly w (append_aof_rewrite_buffer d w')"
  by (auto simp: append_aof_rewrite_buffer_def Let_def split_beta intro!: orderly_unlock split: option.split)

lemma orderly_sync: "orderly w w' \<Longrightarrow> orderly w (snd (kv_sync w'))"
  by (auto simp: kv_sync_def Let_def split_beta intro!: orderly_unlock split: option.split)

lemma orderly_log:
  "orderly w w' \<Longrightarrow> orderly w (log_quietly buf w')" "orderly w w' \<Longrightarrow> orderly w (append_record1 c k w')"
  "orderly w w' \<Longrightarrow> orderly w (append_record2 c k v w')" "orderly w w' \<Longrightarrow> orderly w (flush_log w')"
proof -
  show "orderly w w' \<Longrightarrow> orderly w (flush_log w')"
    using unlocked_stream(2) [of _ w'] by (elim orderly_same) (auto simp: flush_log_def unlocked_part_def split: option.split)
qed (simp_all add: log_quietly_def append_record1_def append_record2_def orderly_write orderly_append)

lemmas orderly_stages = orderly_prim orderly_copy orderly_find_entry orderly_resize orderly_make_room orderly_write
  orderly_rollback orderly_append orderly_log

lemma orderly_insert_string: "orderly w w' \<Longrightarrow> orderly w (snd (insert_string k v w'))"
  by (simp add: insert_string_def alloc_string_entry_def Let_def split_beta orderly_stages split: option.split)

lemma orderly_set_internal: "orderly w w' \<Longrightarrow> orderly w (snd (kv_set_internal key value w'))"
  by (simp add: kv_set_internal_def replace_string_def overwrite_string_def Let_def split_beta orderly_stages
      orderly_insert_string split: option.split kv_value.split sum.split)

lemma orderly_delete_internal: "orderly w w' \<Longrightarrow> orderly w (snd (kv_delete_internal key w'))"
  by (simp add: kv_delete_internal_def Let_def split_beta orderly_stages split: option.split sum.split)

lemma orderly_logged:
  assumes "\<And>u. orderly w u \<Longrightarrow> orderly w (snd (update u))" and "orderly w w'"
  shows "orderly w (snd (logged rec update w'))"
  using assms by (simp add: logged_def Let_def split_beta orderly_stages)

lemma orderly_obtain_entry:
  assumes "\<And>u. orderly w u \<Longrightarrow> orderly w (snd (alloc u))" and "orderly w w'"
  shows "orderly w (snd (obtain_entry kind fresh alloc k w'))"
  using assms
  by (simp add: obtain_entry_def create_entry_def alloc_coll_entry_def Let_def split_beta orderly_stages split: option.split)

lemma orderly_room_for_node: "orderly w w' \<Longrightarrow> orderly w (snd (room_for_node n v w'))"
  by (simp add: room_for_node_def alloc_node_def Let_def split_beta orderly_stages split: option.split)

lemma orderly_settle: "orderly w w' \<Longrightarrow> orderly w (settle b k ptr w')"
  by (simp add: settle_def orderly_delete_internal)

lemma orderly_lpush_node: "lpush_node k v u = Inr (r, w') \<Longrightarrow> orderly w u \<Longrightarrow> orderly w w'"
  by (auto simp: lpush_node_def Let_def split_beta orderly_stages orderly_room_for_node
      split: sum.splits option.splits kv_value.splits)

lemma orderly_sadd_member: "sadd_member k v u = Inr (r, w') \<Longrightarrow> orderly w u \<Longrightarrow> orderly w w'"
  by (auto simp: sadd_member_def sadd_node_def Let_def split_beta orderly_stages orderly_room_for_node
      split: if_splits sum.splits option.splits kv_value.splits)

section \<open>Commands\<close>

definition balanced :: "world \<Rightarrow> world \<Rightarrow> bool" where
  "balanced w w' \<longleftrightarrow> moves [] w [] w'"

lemma balanced_refl [simp]: "balanced w w"
  by (simp add: balanced_def)

lemma balanced_trans: "balanced w w1 \<Longrightarrow> balanced w1 w2 \<Longrightarrow> balanced w w2"
  unfolding balanced_def by (rule moves_trans)

lemma balanced_orderly: "orderly w w' \<Longrightarrow> balanced w w'"
  by (simp add: orderly_def balanced_def shards_def)

lemma lock_index_settings: "lock_settings s = lock_settings s' \<Longrightarrow> kv_lock_index s k = kv_lock_index s' k"
  by (simp add: lock_settings_def kv_lock_index_def)

text \<open>A command that holds the shard of its key.\<close>

lemma balanced_bucket:
  assumes "orderly (kv_acquire_bucket_lock k w) w'"
  shows "balanced w (kv_release_bucket_lock k w')"
proof -
  have ls: "lock_settings (st w') = lock_settings (st w)"
    using orderly_settings [OF assms] by (simp add: frame)
  show ?thesis
  proof (cases "lock_initialized (st w) \<and> bucket_locks (st w)")
    case True
    let ?m = "Bucket_Lock (kv_lock_index (st w) k)"
    have "moves [] w [?m] (mutex_lock ?m w)" by (rule moves_lock) simp
    moreover have "moves [?m] (mutex_lock ?m w) [?m] w'"
      using assms True by (simp add: orderly_def shards_def kv_acquire_bucket_lock_def)
    moreover have "moves [?m] w' [] (mutex_unlock ?m w')" by (rule moves_lock)
    ultimately have "moves [] w [] (mutex_unlock ?m w')" by (rule moves_trans [OF moves_trans])
    with True ls lock_index_settings [OF ls, of k] show ?thesis
      by (simp add: balanced_def kv_release_bucket_lock_def lock_settings_def)
  next
    case False
    with assms ls show ?thesis
      by (auto intro!: balanced_orderly simp: kv_acquire_bucket_lock_def kv_release_bucket_lock_def lock_settings_def)
  qed
qed

text \<open>A command that holds all shards.\<close>

lemma moves_lock_all: "moves [] w (rev (map Bucket_Lock [0..<n])) (fold (\<lambda>i. mutex_lock (Bucket_Lock i)) [0..<n] w)"
proof (induction n)
  case (Suc n)
  have "moves (rev (map Bucket_Lock [0..<n])) v (rev (map Bucket_Lock [0..<Suc n])) (mutex_lock (Bucket_Lock n) v)" for v
    using moves_lock(1) [of "rev (map Bucket_Lock [0..<n])" "Bucket_Lock n" v] by simp
  with moves_trans [OF Suc.IH] show ?case by simp
qed simp

lemma moves_unlock_all:
  "moves (rev (map Bucket_Lock [0..<n])) w [] (fold (\<lambda>i. mutex_unlock (Bucket_Lock i)) (rev [0..<n]) w)"
proof (induction n arbitrary: w)
  case (Suc n)
  have "moves (rev (map Bucket_Lock [0..<Suc n])) w (rev (map Bucket_Lock [0..<n])) (mutex_unlock (Bucket_Lock n) w)"
    using moves_lock(2) [of "Bucket_Lock n"] by simp
  from moves_trans [OF this Suc.IH] show ?case by simp
qed simp

lemma balanced_all:
  assumes "orderly (kv_acquire_all_locks w) w'"
  shows "balanced w (kv_release_all_locks w')"
proof -
  have ls: "lock_settings (st w') = lock_settings (st w)"
    using orderly_settings [OF assms] by (simp add: frame)
  show ?thesis
  proof (cases "lock_initialized (st w) \<and> bucket_locks (st w)")
    case True
    let ?h = "rev (map Bucket_Lock [0..<num_locks (st w)])"
    have "moves [] w ?h (kv_acquire_all_locks w)"
      using moves_lock_all True by (simp add: kv_acquire_all_locks_def)
    moreover have "moves ?h (kv_acquire_all_locks w) ?h w'" using assms by (auto simp: orderly_def shards_def)
    moreover have "moves ?h w' [] (kv_release_all_locks w')"
      using moves_unlock_all [of "num_locks (st w)" w'] True ls by (simp add: kv_release_all_locks_def lock_settings_def)
    ultimately show ?thesis unfolding balanced_def by (rule moves_trans [OF moves_trans])
  next
    case False
    with assms ls show ?thesis
      by (auto intro!: balanced_orderly simp: kv_acquire_all_locks_def kv_release_all_locks_def lock_settings_def)
  qed
qed

text \<open>A command that changes from its shard to all of them by giving up the first.\<close>

lemma balanced_acquired:
  "set_acquire bytes k w = (g, w1) \<Longrightarrow> orderly w1 w' \<Longrightarrow> balanced w (set_release g k w')"
  "coll_acquire bytes k w = (g, w1) \<Longrightarrow> orderly w1 w' \<Longrightarrow> balanced w (set_release g k w')"
proof -
  have once: "balanced v (kv_release_bucket_lock k (kv_acquire_bucket_lock k v))" for v by (rule balanced_bucket) simp
  have glob: "orderly (kv_acquire_all_locks v) (acquire_global v)" for v
    by (simp add: acquire_global_def Let_def orderly_resize)
  show "set_acquire bytes k w = (g, w1) \<Longrightarrow> orderly w1 w' \<Longrightarrow> balanced w (set_release g k w')"
    using balanced_bucket balanced_trans [OF once balanced_all [OF orderly_trans [OF glob]]] balanced_all [OF orderly_trans [OF glob]]
    by (auto simp: set_acquire_def Let_def set_release_def split: if_splits)
  show "coll_acquire bytes k w = (g, w1) \<Longrightarrow> orderly w1 w' \<Longrightarrow> balanced w (set_release g k w')"
    using balanced_bucket balanced_trans [OF once balanced_all] balanced_all
    by (auto simp: coll_acquire_def Let_def set_release_def split: if_splits)
qed

text \<open>The store's commands, whatever they are called with and however they end.\<close>

named_theorems balance

lemma balanced_strings [balance]:
  "balanced w (snd (kv_get key w))" "balanced w (snd (kv_exists key w))" "balanced w (snd (kv_delete key w))"
  by (auto simp: kv_get_def kv_exists_def kv_delete_def Let_def split_beta split: option.split kv_value.split sum.split
      intro!: balanced_bucket orderly_logged orderly_find_entry orderly_delete_internal)

lemma balanced_set [balance]: "balanced w (snd (kv_set key value w))"
proof -
  have "balanced w (set_release (fst (set_acquire n k w)) k (snd (logged r (kv_set_internal key value) (snd (set_acquire n k w)))))" for n k r
    by (rule balanced_acquired(1) [OF prod.collapse [symmetric]]) (intro orderly_logged orderly_set_internal orderly_refl)
  then show ?thesis by (simp add: kv_set_def Let_def split_beta split: sum.split)
qed

lemma balanced_lpush: "kv_lpush key value w = Inr (r, w') \<Longrightarrow> balanced w w'"
proof -
  have al: "orderly u v \<Longrightarrow> orderly u (snd (alloc_list v))" for u v by (simp add: alloc_list_def orderly_prim)
  have q: "orderly u (snd (obtain_entry KV_TYPE_LIST (VList empty_list) alloc_list k u))" for u k
    by (intro orderly_obtain_entry al orderly_refl)
  note acq = balanced_acquired(2) [OF prod.collapse [symmetric]]
  show "kv_lpush key value w = Inr (r, w') \<Longrightarrow> balanced w w'"
    by (auto simp: kv_lpush_def Let_def split_beta intro!: acq intro: q dest: orderly_lpush_node [OF _ q]
        split: if_splits sum.splits)
qed

lemma balanced_sadd: "kv_sadd key value w = Inr (r, w') \<Longrightarrow> balanced w w'"
proof -
  have al: "orderly u v \<Longrightarrow> orderly u (snd (alloc_set v))" for u v by (simp add: alloc_set_def Let_def split_beta orderly_prim)
  have q: "orderly u (snd (obtain_entry KV_TYPE_SET (VSet empty_set_value) alloc_set k u))" for u k
    by (intro orderly_obtain_entry al orderly_refl)
  note acq = balanced_acquired(2) [OF prod.collapse [symmetric]]
  show "kv_sadd key value w = Inr (r, w') \<Longrightarrow> balanced w w'"
    by (auto simp: kv_sadd_def Let_def split_beta intro!: acq intro: q dest: orderly_sadd_member [OF _ q]
        split: if_splits sum.splits)
qed

lemma orderly_rpop_entry: "orderly w u \<Longrightarrow> orderly w (snd (snd (rpop_entry k ptr l u)))"
  by (simp add: rpop_entry_def Let_def split_beta orderly_stages orderly_settle split: option.split)

lemma orderly_srem_entry: "orderly w u \<Longrightarrow> orderly w (snd (srem_entry k v ptr l u))"
  by (simp add: srem_entry_def Let_def split_beta orderly_stages orderly_settle split: option.split)

lemma balanced_removals [balance]:
  "balanced w (snd (snd (kv_rpop key w)))" "balanced w (snd (kv_srem key value w))"
  by (auto simp: kv_rpop_def kv_srem_def Let_def split_beta split: option.split kv_value.split
      intro!: balanced_bucket orderly_find_entry orderly_rpop_entry orderly_srem_entry)

lemma balanced_queries [balance]:
  "balanced w (snd (kv_llen key w))" "balanced w (snd (kv_scard key w))" "balanced w (snd (snd (kv_smembers key w)))"
  by (auto simp: kv_llen_def kv_scard_def kv_smembers_def Let_def split_beta split: option.split kv_value.split
      intro!: balanced_bucket orderly_prim orderly_find_entry)

lemma balanced_deadlines [balance]:
  "balanced w (snd (kv_pexpireat key t w))" "balanced w (snd (kv_persist key w))"
  by (auto simp: kv_pexpireat_def kv_persist_def write_aof_pexpireat_def Let_def split_beta
      split: option.split intro!: balanced_bucket orderly_stages)

lemma balanced_pttl: "kv_pttl key w = Inr (r, w') \<Longrightarrow> balanced w w'"
  by (auto simp: kv_pttl_def Let_def split_beta split: option.splits if_splits intro!: balanced_bucket orderly_stages)

lemma balanced_ttl:
  "kv_ttl key w = Inr (r, w') \<Longrightarrow> balanced w w'" "kv_expire key n w = Inr (r, w') \<Longrightarrow> balanced w w'"
  "kv_pexpire key n w = Inr (r, w') \<Longrightarrow> balanced w w'"
proof -
  have t: "balanced w (snd (kv_current_time_ms w))" by (intro balanced_orderly orderly_prim orderly_refl)
  have "balanced w (snd (kv_pexpireat key m (snd (kv_current_time_ms w))))" for m
    by (rule balanced_trans [OF t balanced_deadlines(1)])
  then show "kv_expire key n w = Inr (r, w') \<Longrightarrow> balanced w w'" "kv_pexpire key n w = Inr (r, w') \<Longrightarrow> balanced w w'"
    by (auto simp: kv_expire_def kv_pexpire_def Let_def split_beta split: if_splits) (metis snd_conv)+
  show "kv_ttl key w = Inr (r, w') \<Longrightarrow> balanced w w'"
    by (auto simp: kv_ttl_def split: sum.splits if_splits intro: balanced_pttl)
qed

lemma balanced_background [balance]:
  "balanced w (snd (kv_sync w))" "balanced w (snd (kv_bgsave name pid w))" "balanced w (snd (kv_bgrewriteaof pid w))"
proof -
  show "balanced w (snd (kv_sync w))" by (intro balanced_orderly orderly_sync orderly_refl)
qed (auto simp: kv_bgsave_def kv_bgrewriteaof_def Let_def intro!: balanced_all orderly_log)

lemma orderly_send: "orderly w w' \<Longrightarrow> orderly w (send_quietly fd d w')"
  by (simp add: send_quietly_def Let_def split_beta orderly_prim)

lemma orderly_send_snapshot: "orderly w w' \<Longrightarrow> orderly w (send_snapshot fd d w')"
proof -
  have "orderly w v \<Longrightarrow> orderly w (fold (send_quietly fd) ds v)" for ds v
    by (induction ds arbitrary: v) (simp_all add: orderly_send)
  then show "orderly w w' \<Longrightarrow> orderly w (send_snapshot fd d w')" by (simp add: send_snapshot_def orderly_send)
qed

lemma orderly_add_replica: "orderly w w' \<Longrightarrow> orderly w (replication_add_replica fd w')"
  by (auto simp: replication_add_replica_def Let_def split_beta orderly_prim intro!: orderly_unlock [OF orderly_prim(1)])

lemma balanced_handle_sync [balance]: "balanced w (snd (replication_handle_sync pid exited fd w))"
proof -
  define w1 where "w1 = snd (kv_bgsave (Some ''master_sync.snap'') pid w)"
  have saved: "balanced w v" if "orderly w1 v" for v
    using balanced_trans [OF balanced_background(2) balanced_orderly] that by (simp add: w1_def)
  show ?thesis
  proof (cases "mode (repl w) = REPLICA_MODE_MASTER")
    case True
    then show ?thesis
      by (auto simp: replication_handle_sync_def Let_def split_beta w1_def [symmetric] split: option.split
          intro!: saved orderly_send orderly_prim orderly_add_replica orderly_send_snapshot)
  next
    case False
    then show ?thesis by (simp add: replication_handle_sync_def balanced_orderly orderly_send)
  qed
qed

section \<open>Lines\<close>

lemma keeps_balanced [balance]:
  "keeps (balanced w) UNIV (kv_lpush key value w)" "keeps (balanced w) UNIV (kv_sadd key value w)"
  "keeps (balanced w) UNIV (kv_expire key n w)" "keeps (balanced w) UNIV (kv_pexpire key n w)"
  "keeps (balanced w) UNIV (kv_ttl key w)" "keeps (balanced w) UNIV (kv_pttl key w)"
  by (auto simp: keeps_def split: sum.split intro: balanced_lpush balanced_sadd balanced_ttl balanced_pttl)

lemma keeps_any: "keeps Q {ub} r \<Longrightarrow> keeps Q UNIV r"
  by (auto simp: keeps_def split: sum.splits)

lemma balanced_handlers:
  assumes "pred_option cstring args"
  shows "keeps (balanced w) UNIV (run_command n pid cmd args w)"
proof -
  have [intro!]: "keeps (balanced w) UNIV (do_ping args w)" "keeps (balanced w) UNIV (do_quit args w)" "keeps (balanced w) UNIV (do_save args w)"
    unfolding do_ping_def do_quit_def do_save_def by (auto intro!: keeps_args balance simp: split_beta)
  have [intro!]: "keeps (balanced w) UNIV (do_get n args w)" "keeps (balanced w) UNIV (do_exists args w)" "keeps (balanced w) UNIV (do_delete args w)"
    "keeps (balanced w) UNIV (do_rpop n args w)" "keeps (balanced w) UNIV (do_llen n args w)" "keeps (balanced w) UNIV (do_scard n args w)"
    "keeps (balanced w) UNIV (do_persist n args w)"
    unfolding do_get_def do_exists_def do_delete_def do_rpop_def do_llen_def do_scard_def do_persist_def
    using assms by (auto intro!: keeps_args balance simp: split_beta Let_def)
  have [intro!]: "keeps (balanced w) UNIV (do_smembers n args w)"
    unfolding do_smembers_def
    using assms by (auto intro!: keeps_args balance keeps_any [OF keeps_member_list] simp: split_beta Let_def split: option.split)
  have [intro!]: "keeps (balanced w) UNIV (do_lpush n args w)" "keeps (balanced w) UNIV (do_sadd n args w)"
    unfolding do_lpush_def do_sadd_def
    using assms by (auto intro!: keeps_args keeps_case balance)
  have [intro!]: "keeps (balanced w) UNIV (do_srem n args w)" "keeps (balanced w) UNIV (do_set args w)"
    unfolding do_srem_def do_set_def
    using assms by (auto intro!: keeps_args balance simp: split_beta Let_def split: option.split)
  have [intro!]: "keeps (balanced w) UNIV (do_expire n args w)" "keeps (balanced w) UNIV (do_pexpire n args w)"
    "keeps (balanced w) UNIV (do_ttl n args w)" "keeps (balanced w) UNIV (do_pttl n args w)"
    unfolding do_expire_def do_pexpire_def do_ttl_def do_pttl_def
    using assms by (auto intro!: keeps_args keeps_map balance)
  have [intro!]: "keeps (balanced w) UNIV (do_bgsave pid w)" "keeps (balanced w) UNIV (do_bgrewriteaof pid w)"
    unfolding do_bgsave_def do_bgrewriteaof_def by (auto simp: split_beta Let_def intro!: balance)
  show ?thesis by (auto simp: run_command_def)
qed

lemma balanced_line: "keeps (balanced w) UNIV (protocol_execute_command n pid exited fd line w)"
proof -
  have "keeps (balanced w) UNIV (do_sync pid exited fd w)" by (auto simp: do_sync_def split_beta Let_def intro!: balance)
  then show ?thesis using cstring_args by (intro command_run disjI2 balanced_handlers) simp_all
qed

section \<open>Work in the background\<close>

lemma settings_sweep_chain: "lock_settings (snd (sweep_chain i now m p es d s)) = lock_settings s"
  by (induction i now m p es d s rule: sweep_chain.induct) simp_all

lemma settings_sampled: "lock_settings (snd (snd (sampled_sweep n now m x d s))) = lock_settings s"
  by (induction n now m x d s rule: sampled_sweep.induct)
    (auto simp: Let_def split_beta settings_sweep_chain)

lemma settings_full: "lock_settings (snd (full_sweep is now m d s)) = lock_settings s"
  by (induction "is" now m d s rule: full_sweep.induct) (auto simp: Let_def split_beta settings_sweep_chain)

lemma balanced_sweep: "balanced w (eviction_sweep_task w)"
proof -
  have "balanced w (snd (kv_expire_sample_sweep n m w))" for n m
    by (auto simp: kv_expire_sample_sweep_def Let_def split_beta settings_sampled settings_full frame
        intro!: balanced_all orderly_prim)
  then show ?thesis by (simp add: eviction_sweep_task_def)
qed

lemma balanced_merge: "balanced w (snd (kv_merge_aof_rewrite p tmp w))" "balanced w (kv_discard_aof_rewrite w)"
proof -
  have inst: "orderly v u \<Longrightarrow> orderly v (snd (merge_install content u))" for v u content
    by (simp add: merge_install_def forget_rewrite_def Let_def split_beta orderly_prim orderly_log)
  show "balanced w (snd (kv_merge_aof_rewrite p tmp w))"
    by (auto simp: kv_merge_aof_rewrite_def forget_rewrite_def Let_def split_beta intro!: balanced_all inst orderly_prim)
  show "balanced w (kv_discard_aof_rewrite w)"
    by (auto simp: kv_discard_aof_rewrite_def intro!: balanced_all)
qed

section \<open>Properties\<close>

text \<open>C9. No lock is leaked and no order is broken. Whatever a line says, whatever fails on the way and
  whichever error it ends with, the lock operations of its execution follow one discipline: a
  lock is taken only above all locks held, in one order for the whole program, only the lock
  taken last is released, and none is held at the end. The same is true of the sweep for expired
  keys and of the end of a background rewrite.\<close>

theorem lock_discipline:
  "(case protocol_execute_command buf_size pid exited fd line w of
      Inl ub \<Rightarrow> True
    | Inr (r, w') \<Rightarrow> \<exists>es. lock_trace w' = rev es @ lock_trace w \<and> holding [] es = Some []) \<and>
   (\<exists>es. lock_trace (eviction_sweep_task w) = rev es @ lock_trace w \<and> holding [] es = Some []) \<and>
   (\<exists>es. lock_trace (snd (kv_merge_aof_rewrite child tmp w)) = rev es @ lock_trace w \<and> holding [] es = Some []) \<and>
   (\<exists>es. lock_trace (kv_discard_aof_rewrite w) = rev es @ lock_trace w \<and> holding [] es = Some [])"
  using balanced_line [of w buf_size pid exited fd line] balanced_sweep [of w] balanced_merge [of w]
  by (auto simp: keeps_def balanced_def moves_def split: sum.splits)

end
