(* ===== verification/KV_Benchmark.thy ===== *)
theory KV_Benchmark
  imports KV_Server
begin

text \<open>
  The benchmark client (\<^verbatim>\<open>src/benchmark.c\<close>): its options, the worker that sends pairs of a \<^verbatim>\<open>SET\<close> and a
  \<^verbatim>\<open>GET\<close> and waits for a line after each, and the totals. What the other end of the connection does
  is a parameter: for each request, whether all of it could be sent, and the bytes that arrive
  before the connection ends or falls silent. The theorem at the end runs a worker against the
  protocol of the server. Times and rates are only printed and are left out.
\<close>

section \<open>Options\<close>

abbreviation (input) BENCH_BUFFER_SIZE :: nat where "BENCH_BUFFER_SIZE \<equiv> 1024"

record bench_config =
  b_host :: string
  b_port :: nat
  concurrency :: int
  total_requests :: int

definition bench_default :: bench_config where
  "bench_default = \<lparr>b_host = ''127.0.0.1'', b_port = 6379, concurrency = 16, total_requests = 20000\<rparr>"

text \<open>\<^verbatim>\<open>atoi\<close> is a conversion to \<^verbatim>\<open>long\<close> cut down to 32 bits.\<close>

definition atoi :: "string \<Rightarrow> int" where
  "atoi s = sint (word_of_int (fst (strtoll s)) :: 32 word)"

text \<open>\<open>None\<close>: the usage was printed and the program ends.\<close>

function bench_args :: "string list \<Rightarrow> bench_config \<Rightarrow> bench_config option" where
  "bench_args [] cfg = Some cfg"
| "bench_args (a # rest) cfg =
     (if a = ''-h'' \<and> rest \<noteq> [] then bench_args (tl rest) (cfg\<lparr>b_host := hd rest\<rparr>)
      else if a = ''-p'' \<and> rest \<noteq> [] then bench_args (tl rest) (cfg\<lparr>b_port := nat (atoi (hd rest) mod 65536)\<rparr>)
      else if a = ''-c'' \<and> rest \<noteq> [] then bench_args (tl rest) (cfg\<lparr>concurrency := atoi (hd rest)\<rparr>)
      else if a = ''-n'' \<and> rest \<noteq> [] then bench_args (tl rest) (cfg\<lparr>total_requests := atoi (hd rest)\<rparr>)
      else if a = ''--help'' then None
      else bench_args rest cfg)"
  by pat_completeness auto
termination
  by (relation "measure (length \<circ> fst)") auto

definition bench_clamp :: "bench_config \<Rightarrow> bench_config" where
  "bench_clamp cfg =
     (let cfg1 = (if concurrency cfg \<le> 0 then cfg\<lparr>concurrency := 1\<rparr> else cfg)
      in if total_requests cfg1 \<le> 0 then cfg1\<lparr>total_requests := 1000\<rparr> else cfg1)"

section \<open>A worker\<close>

record worker_context =
  thread_id :: nat
  requests_to_run :: nat
  completed_sets :: nat
  completed_gets :: nat
  error_count :: nat

text \<open>A line byte by byte, of at most \<open>n\<close> bytes; \<open>None\<close> when the stream ends before.\<close>

fun recv_line_loop :: "nat \<Rightarrow> string \<Rightarrow> (string \<times> string) option" where
  "recv_line_loop 0 s = Some ([], s)"
| "recv_line_loop (Suc n) [] = None"
| "recv_line_loop (Suc n) (c # cs) =
     (if c = nl then Some ([c], cs) else map_option (map_prod ((#) c) id) (recv_line_loop n cs))"

definition bench_recv_line :: "nat \<Rightarrow> string \<Rightarrow> (string \<times> string) option" where
  "bench_recv_line max_length s = recv_line_loop (max_length - 1) s"

text \<open>The descriptor, or -1, and the sockets closed again.\<close>

definition bench_connect_socket :: "(string \<Rightarrow> bool) \<Rightarrow> int \<Rightarrow> bool \<Rightarrow> string \<Rightarrow> int \<times> int list" where
  "bench_connect_socket pton fd connected host =
     (if fd < 0 then (- 1, [])
      else if \<not> pton host then (- 1, [fd])
      else if \<not> connected then (- 1, [fd])
      else (fd, []))"

text \<open>A request and the line that answers it; \<open>s\<close> holds the bytes that have arrived and are unread.
  Two 32-bit numbers and the fixed text are far below the size of either buffer, so neither
  request is ever cut.\<close>

definition exchange ::
    "(string \<Rightarrow> 'p \<Rightarrow> bool \<times> string \<times> 'p) \<Rightarrow> string \<Rightarrow> string \<times> 'p \<Rightarrow> string option \<times> string \<times> 'p" where
  "exchange peer req conn =
     (let (s, p) = conn; (sent_all, arriving, p1) = peer req p; s1 = s @ arriving
      in if \<not> sent_all then (None, s1, p1)
         else (case bench_recv_line BENCH_BUFFER_SIZE s1 of
                 None \<Rightarrow> (None, s1, p1)
               | Some (line, s2) \<Rightarrow> if line = [] then (None, s2, p1) else (Some line, s2, p1)))"

definition bench_key :: "nat \<Rightarrow> nat \<Rightarrow> string" where
  "bench_key t i = ''bench_t'' @ show_nat t @ ''_k'' @ show_nat i"

definition bench_value :: "nat \<Rightarrow> string" where
  "bench_value i = ''bench_val_'' @ show_nat i"

text \<open>The loop of \<^verbatim>\<open>bench_worker_main\<close> from request \<open>i\<close> on, with \<open>n\<close> requests to go. Beside the
  context it returns the lines received, in order.\<close>

fun bench_loop ::
    "(string \<Rightarrow> 'p \<Rightarrow> bool \<times> string \<times> 'p) \<Rightarrow> nat \<Rightarrow> nat \<Rightarrow> worker_context \<Rightarrow> string \<times> 'p \<Rightarrow>
     worker_context \<times> string list \<times> string \<times> 'p" where
  "bench_loop peer 0 i ctx conn = (ctx, [], conn)"
| "bench_loop peer (Suc n) i ctx conn =
     (case exchange peer (''SET '' @ bench_key (thread_id ctx) i @ '' '' @ bench_value i @ crlf) conn of
        (None, conn1) \<Rightarrow> (ctx\<lparr>error_count := error_count ctx + 1\<rparr>, [], conn1)
      | (Some r1, conn1) \<Rightarrow>
          (let ctx1 = ctx\<lparr>completed_sets := completed_sets ctx + 1\<rparr>
           in case exchange peer (''GET '' @ bench_key (thread_id ctx) i @ crlf) conn1 of
                (None, conn2) \<Rightarrow> (ctx1\<lparr>error_count := error_count ctx1 + 1\<rparr>, [r1], conn2)
              | (Some r2, conn2) \<Rightarrow>
                  (case bench_loop peer n (i + 1) (ctx1\<lparr>completed_gets := completed_gets ctx1 + 1\<rparr>) conn2 of
                     (ctx2, rs, conn3) \<Rightarrow> (ctx2, r1 # r2 # rs, conn3))))"

definition bench_worker_main ::
    "(string \<Rightarrow> bool) \<Rightarrow> int \<Rightarrow> bool \<Rightarrow> (string \<Rightarrow> 'p \<Rightarrow> bool \<times> string \<times> 'p) \<Rightarrow> bench_config \<Rightarrow> worker_context \<Rightarrow> 'p \<Rightarrow>
     worker_context \<times> string list \<times> int list \<times> 'p" where
  "bench_worker_main pton fd connected peer cfg ctx p =
     (let (sock, shut) = bench_connect_socket pton fd connected (b_host cfg)
      in if sock < 0 then (ctx\<lparr>error_count := error_count ctx + 1\<rparr>, [], shut, p)
         else (case bench_loop peer (requests_to_run ctx) 0 ctx ([], p) of
                 (ctx1, lines, _, p1) \<Rightarrow> (ctx1, lines, [sock], p1)))"

section \<open>The program\<close>

text \<open>The totals of sets, gets and errors. \<open>memory\<close> says whether the two arrays could be allocated,
  which is not checked, \<open>spawned i\<close> whether thread \<open>i\<close> could be started, which is reported and then
  forgotten (it is joined all the same), and \<open>run\<close> is what a worker makes of its context.\<close>

definition bench_main ::
    "string list \<Rightarrow> bool \<Rightarrow> (nat \<Rightarrow> bool) \<Rightarrow> (bench_config \<Rightarrow> worker_context \<Rightarrow> worker_context) \<Rightarrow>
     undefined_behaviour + (nat \<times> nat \<times> nat) option" where
  "bench_main args memory spawned run =
     (case bench_args args bench_default of
        None \<Rightarrow> Inr None
      | Some cfg0 \<Rightarrow>
          (let cfg = bench_clamp cfg0;
               per_thread = nat (total_requests cfg div concurrency cfg);
               fresh = (\<lambda>i. \<lparr>thread_id = i, requests_to_run = per_thread, completed_sets = 0, completed_gets = 0,
                              error_count = 0\<rparr>);
               ids = [0..<nat (concurrency cfg)]
           in if total_requests cfg * 2 \<ge> 2 ^ 31 then Inl Signed_Overflow
              else if \<not> memory then Inl Null_Dereference
              else if \<not> list_all spawned ids then Inl Uninitialised_Read
              else
                (let results = map (\<lambda>i. run cfg (fresh i)) ids
                 in Inr (Some (sum_list (map completed_sets results), sum_list (map completed_gets results),
                               sum_list (map error_count results))))))"

section \<open>What the counters mean\<close>

lemma bench_loop_counts:
  assumes "bench_loop peer n i ctx conn = (ctx', lines, conn')"
  shows "completed_sets ctx' + completed_gets ctx' = completed_sets ctx + completed_gets ctx + length lines \<and>
    (error_count ctx' = error_count ctx \<and> completed_sets ctx' = completed_sets ctx + n \<and> completed_gets ctx' = completed_gets ctx + n \<or>
     error_count ctx' = error_count ctx + 1 \<and> length lines < 2 * n)"
  using assms
proof (induction n arbitrary: i ctx conn ctx' lines conn')
  case 0
  then show ?case by simp
next
  case (Suc n)
  obtain r1 conn1 where x1: "exchange peer (''SET '' @ bench_key (thread_id ctx) i @ '' '' @ bench_value i @ crlf) conn = (r1, conn1)"
    by (metis surj_pair)
  obtain r2 conn2 where x2: "exchange peer (''GET '' @ bench_key (thread_id ctx) i @ crlf) conn1 = (r2, conn2)"
    by (metis surj_pair)
  show ?case
  proof (cases "r1 = None \<or> r2 = None")
    case True
    then show ?thesis using Suc.prems x1 x2 by (cases r1) auto
  next
    case False
    then obtain l1 l2 where l: "r1 = Some l1" "r2 = Some l2" by auto
    obtain ctx2 rs conn3 where rest: "bench_loop peer n (i + 1)
        (ctx\<lparr>completed_sets := completed_sets ctx + 1, completed_gets := completed_gets ctx + 1\<rparr>) conn2 = (ctx2, rs, conn3)"
      by (metis surj_pair)
    from Suc.IH [OF rest] Suc.prems x1 x2 l rest show ?thesis by auto
  qed
qed

section \<open>Against the server\<close>

text \<open>The other end is the server: it takes the line off its buffer, executes it and sends the reply.\<close>

definition server_peer :: "int \<Rightarrow> bool \<Rightarrow> int \<Rightarrow> string \<Rightarrow> world \<Rightarrow> bool \<times> string \<times> world" where
  "server_peer pid exited fd req w =
     (case next_line req of
        Line l rest \<Rightarrow>
          (case protocol_execute_command (SERVER_MAX_LINE_LEN + 128) pid exited fd l w of
             Inr (r, w1) \<Rightarrow> (True, r_bytes r, w1)
           | Inl ub \<Rightarrow> (False, [], w))
      | _ \<Rightarrow> (True, [], w))"

text \<open>A master that can serve the benchmark: memory to spare, no log, no limits, and only strings
  without a deadline.\<close>

definition benchable :: "nat \<Rightarrow> world \<Rightarrow> bool" where
  "benchable base w \<longleftrightarrow> ready base w \<and> aof_fp (aof w) = None \<and> mode (repl w) \<noteq> REPLICA_MODE_REPLICA \<and>
     (\<forall>k x. kv_view (st w) k = Some x \<longrightarrow> (\<exists>v. x = (VString v, 0)))"

lemma show_nat_plain:
  "c \<in> set (show_nat n) \<Longrightarrow> \<not> isspace c \<and> c \<noteq> nl \<and> c \<noteq> cr \<and> c \<noteq> CHR 0x00 \<and> c \<noteq> CHR '' ''"
  using show_nat_digits [of c n] digit_props by (auto simp: isspace_def)

lemma bench_key_chars:
  assumes "t < 10 ^ 10" and "i < 10 ^ 10"
  shows "cstring (bench_key t i)" "valid_key (bench_key t i)" "CHR '' '' \<notin> set (bench_key t i)"
    "nl \<notin> set (bench_key t i)" "length (bench_key t i) \<le> 29"
  using show_nat_plain [of _ t] show_nat_plain [of _ i] show_nat_length [OF assms(1)] show_nat_length [OF assms(2)]
  by (auto simp: bench_key_def cstring_def valid_key_def list_all_iff isspace_def)

lemma bench_value_chars:
  assumes "i < 10 ^ 10"
  shows "cstring (bench_value i)" "valid_value (bench_value i)" "nl \<notin> set (bench_value i)" "length (bench_value i) \<le> 20"
  using show_nat_plain [of _ i] show_nat_length [OF assms]
  by (auto simp: bench_value_def cstring_def valid_value_def)

lemma recv_line_exact:
  assumes "nl \<notin> set l" and "length l < n"
  shows "recv_line_loop n (l @ nl # rest) = Some (l @ [nl], rest)"
  using assms
proof (induction l arbitrary: n)
  case Nil
  then show ?case by (cases n) auto
next
  case (Cons c l)
  then show ?case by (cases n) auto
qed

lemma next_line_request:
  assumes "nl \<notin> set l" and "length l < 8192"
  shows "next_line (l @ crlf) = Line l []"
proof -
  have "split_at nl (l @ crlf) = Some (l @ [cr], [])"
    using split_at_field [of nl "l @ [cr]" "[]"] assms(1) by simp
  with assms(2) show ?thesis by (simp add: next_line_def)
qed

text \<open>A request that the server answers with a short line.\<close>

lemma exchange_server:
  assumes "nl \<notin> set l" and "length l < 8192" and "nl \<notin> set msg" and "length msg < 1000"
    and "protocol_execute_command (SERVER_MAX_LINE_LEN + 128) pid exited fd l w = Inr (answer msg, w')"
  shows "exchange (server_peer pid exited fd) (l @ crlf) ([], w) = (Some (msg @ crlf), [], w')"
proof -
  have "recv_line_loop 1023 (msg @ crlf) = Some (msg @ crlf, [])"
    using recv_line_exact [of "msg @ [cr]" 1023 "[]"] assms(3,4) by simp
  then show ?thesis
    using assms(5) by (simp add: exchange_def server_peer_def next_line_request [OF assms(1,2)] bench_recv_line_def answer_def)
qed

lemma benchableD:
  assumes "benchable base w"
  shows "ready base w" "serving base w" "aof_fp (aof w) = None" "mode (repl w) \<noteq> REPLICA_MODE_REPLICA"
    "expiry_of (st w) k = 0" "lookup (st w) k = Some e \<Longrightarrow> e_type e = KV_TYPE_STRING"
proof -
  have "\<exists>v. e_value e = VString v \<and> expire_at_ms e = 0" if "lookup (st w) k = Some e" for e
    using assms that by (fastforce simp: benchable_def kv_view_def)
  then show "ready base w" "serving base w" "aof_fp (aof w) = None" "mode (repl w) \<noteq> REPLICA_MODE_REPLICA"
    "expiry_of (st w) k = 0" "lookup (st w) k = Some e \<Longrightarrow> e_type e = KV_TYPE_STRING"
    using assms by (fastforce simp: benchable_def ready_def serving_def within_budget_def expiry_of_def split: option.split)+
qed

lemma benchable_kept:
  assumes "benchable base w" and "kept w w'" and "wf_store base (st w')" and "same_settings (st w) (st w')"
    and "kv_view (st w') = kv_view (st w) \<or> (\<exists>k v. kv_view (st w') = (kv_view (st w))(k \<mapsto> (VString v, 0)))"
  shows "benchable base w'"
  using assms ready_kept [OF _ assms(2-4)] keptD(5,8) [OF assms(2)] by (auto simp: benchable_def split: if_splits)

lemma kept_kv_get: "kept w (snd (kv_get key w))"
  by (simp add: kv_get_def Let_def split_beta kept_stages split: option.split kv_value.split)

lemma benchable_set:
  assumes "benchable base w" and "cstring k" and "valid_key k" and "cstring v" and "valid_value v"
  shows "fst (kv_set (Some k) (Some v) w) = KV_OK" "benchable base (snd (kv_set (Some k) (Some v) w))"
    "kv_view (st (snd (kv_set (Some k) (Some v) w))) = (kv_view (st w))(k \<mapsto> (VString v, 0))"
proof -
  note r = readyD [OF benchableD(1) [OF assms(1)]]
  show ok: "fst (kv_set (Some k) (Some v) w) = KV_OK"
    using r(5) benchableD(3,6) [OF assms(1)] by (intro kv_set_total [OF r(1-3) _ assms(2-5) r(4)]) auto
  note s = kv_set_spec [OF r(1) assms(2,4) prod.collapse [symmetric]]
  show view: "kv_view (st (snd (kv_set (Some k) (Some v) w))) = (kv_view (st w))(k \<mapsto> (VString v, 0))"
    using s ok r(4) benchableD(5) [OF assms(1), of k]
    by (auto simp: string_stored_def stored_def kv_view_def fun_eq_iff)
  show "benchable base (snd (kv_set (Some k) (Some v) w))"
    using s view by (intro benchable_kept [OF assms(1) kept_kv_set]) auto
qed

lemma benchable_get:
  assumes "benchable base w" and "kv_view (st w) k = Some (VString v, 0)"
  shows "fst (kv_get (Some k) w) = Some v" "benchable base (snd (kv_get (Some k) w))"
    "kv_view (st (snd (kv_get (Some k) w))) = kv_view (st w)"
proof -
  note r = readyD [OF benchableD(1) [OF assms(1)]]
  note s = kv_get_spec [OF r(1,2) prod.collapse [symmetric], of k]
  obtain e where e: "live_entry (st w) (now_of w) k = Some e" "e_value e = VString v"
    using assms(2) by (auto simp: live_entry_def kv_view_def entry_is_expired_def)
  show "fst (kv_get (Some k) w) = Some v" using s e by simp
  show view: "kv_view (st (snd (kv_get (Some k) w))) = kv_view (st w)" using s e by simp
  show "benchable base (snd (kv_get (Some k) w))"
    using s view by (intro benchable_kept [OF assms(1) kept_kv_get]) auto
qed

text \<open>A request pair.\<close>

lemma bench_pair:
  assumes "benchable base w" and "t < 10 ^ 10" and "i < 10 ^ 10"
  shows "\<exists>w1 w2. exchange (server_peer pid exited fd) (''SET '' @ bench_key t i @ '' '' @ bench_value i @ crlf) ([], w) =
      (Some (''OK'' @ crlf), [], w1) \<and>
    exchange (server_peer pid exited fd) (''GET '' @ bench_key t i @ crlf) ([], w1) =
      (Some (''VALUE '' @ bench_value i @ crlf), [], w2) \<and>
    benchable base w2 \<and> kv_view (st w2) = (kv_view (st w))(bench_key t i \<mapsto> (VString (bench_value i), 0))"
proof -
  let ?k = "bench_key t i" and ?v = "bench_value i" and ?n = "SERVER_MAX_LINE_LEN + 128"
  note k = bench_key_chars [OF assms(2,3)] and v = bench_value_chars [OF assms(3)]
  define w1 where "w1 = snd (kv_set (Some ?k) (Some ?v) w)"
  define w2 where "w2 = snd (kv_get (Some ?k) w1)"
  note s = benchable_set [OF assms(1) k(1,2) v(1,2), folded w1_def]
  have view: "kv_view (st w1) ?k = Some (VString ?v, 0)" using s(3) by simp
  note g = benchable_get [OF s(2) view, folded w2_def]
  have ne: "?k \<noteq> []" by (simp add: bench_key_def)
  have "run_command ?n pid ''SET'' (Some (?k @ CHR '' '' # ?v)) w = Inr (answer ''OK'', w1)"
    using s(1) ne k(5) v(4) by (simp add: run_command_def do_set_def split_at_field [OF k(3)] set_reply_def w1_def split_beta Let_def)
  then have set: "protocol_execute_command ?n pid exited fd (''SET'' @ CHR '' '' # ?k @ CHR '' '' # ?v) w = Inr (answer ''OK'', w1)"
    using k(1) v(1) benchableD(4) [OF assms(1)] by (subst protocol_line) (simp_all add: cstring_def)
  have "run_command ?n pid ''GET'' (Some ?k) w1 = Inr (answer (''VALUE '' @ ?v), w2)"
    using g(1) ne k(3) v(4)
    by (simp add: run_command_def do_get_def one_arg_def formatted_def w2_def split_beta Let_def)
  then have get: "protocol_execute_command ?n pid exited fd (''GET'' @ CHR '' '' # ?k) w1 = Inr (answer (''VALUE '' @ ?v), w2)"
    using k(1) by (subst protocol_line) (simp_all add: cstring_def is_write_def)
  have "exchange (server_peer pid exited fd) ((''SET'' @ CHR '' '' # ?k @ CHR '' '' # ?v) @ crlf) ([], w) = (Some (''OK'' @ crlf), [], w1)"
    using k(4,5) v(3,4) by (intro exchange_server [OF _ _ _ _ set]) auto
  moreover have "exchange (server_peer pid exited fd) ((''GET'' @ CHR '' '' # ?k) @ crlf) ([], w1) =
      (Some ((''VALUE '' @ ?v) @ crlf), [], w2)"
    using k(4,5) v(3,4) by (intro exchange_server [OF _ _ _ _ get]) auto
  ultimately show ?thesis using g(2,3) s(3) by (intro exI [of _ w1] exI [of _ w2]) simp
qed

lemma bench_loop_completes:
  assumes "benchable base w" and "thread_id ctx < 10 ^ 10" and "i + n \<le> 10 ^ 10"
  shows "\<exists>w'. bench_loop (server_peer pid exited fd) n i ctx ([], w) =
      (ctx\<lparr>completed_sets := completed_sets ctx + n, completed_gets := completed_gets ctx + n\<rparr>,
       concat (map (\<lambda>j. [''OK'' @ crlf, ''VALUE '' @ bench_value j @ crlf]) [i..<i + n]), [], w') \<and>
    benchable base w' \<and>
    kv_view (st w') = fold (\<lambda>j m. m(bench_key (thread_id ctx) j \<mapsto> (VString (bench_value j), 0))) [i..<i + n] (kv_view (st w))"
  using assms
proof (induction n arbitrary: i ctx w)
  case 0
  then show ?case by simp
next
  case (Suc n)
  obtain w1 w2 where p: "exchange (server_peer pid exited fd)
      (''SET '' @ bench_key (thread_id ctx) i @ '' '' @ bench_value i @ crlf) ([], w) = (Some (''OK'' @ crlf), [], w1)"
    "exchange (server_peer pid exited fd) (''GET '' @ bench_key (thread_id ctx) i @ crlf) ([], w1) =
      (Some (''VALUE '' @ bench_value i @ crlf), [], w2)"
    "benchable base w2" "kv_view (st w2) = (kv_view (st w))(bench_key (thread_id ctx) i \<mapsto> (VString (bench_value i), 0))"
    using bench_pair [OF Suc.prems(1,2), of i pid exited fd] Suc.prems(3) by auto
  have up: "[i..<i + Suc n] = i # [Suc i..<Suc i + n]" by (simp add: upt_rec)
  let ?ctx = "ctx\<lparr>completed_sets := completed_sets ctx + 1, completed_gets := completed_gets ctx + 1\<rparr>"
  have "thread_id ?ctx < 10 ^ 10" "i + 1 + n \<le> 10 ^ 10" using Suc.prems(2,3) by simp_all
  from Suc.IH [OF p(3) this] obtain w' where w': "bench_loop (server_peer pid exited fd) n (i + 1) ?ctx ([], w2) =
      (?ctx\<lparr>completed_sets := completed_sets ?ctx + n, completed_gets := completed_gets ?ctx + n\<rparr>,
       concat (map (\<lambda>j. [''OK'' @ crlf, ''VALUE '' @ bench_value j @ crlf]) [i + 1..<i + 1 + n]), [], w')"
    "benchable base w'" "kv_view (st w') =
      fold (\<lambda>j m. m(bench_key (thread_id ?ctx) j \<mapsto> (VString (bench_value j), 0))) [i + 1..<i + 1 + n] (kv_view (st w2))"
    by blast
  show ?case
    unfolding up using p(1,2,4) w' by (intro exI [of _ w']) (simp add: fun_upd_def del: upt_Suc)
qed

section \<open>Properties\<close>

text \<open>C24. The benchmark measures what it claims to: against a master with room for its keys, a
  worker completes every pair it was given without an error. Each \<^verbatim>\<open>SET\<close> is answered with \<^verbatim>\<open>OK\<close> and
  each \<^verbatim>\<open>GET\<close> with the value just stored, the socket is closed, and the store ends up with exactly
  the worker's pairs added.\<close>

theorem bench_worker_completes:
  assumes "benchable base w" and "thread_id ctx < 2 ^ 31" and "requests_to_run ctx < 2 ^ 31"
    and "pton (b_host cfg)" and "0 \<le> sock"
  shows "\<exists>w'. bench_worker_main pton sock True (server_peer pid exited fd) cfg ctx w =
      (ctx\<lparr>completed_sets := completed_sets ctx + requests_to_run ctx, completed_gets := completed_gets ctx + requests_to_run ctx\<rparr>,
       concat (map (\<lambda>j. [''OK'' @ crlf, ''VALUE '' @ bench_value j @ crlf]) [0..<requests_to_run ctx]), [sock], w') \<and>
    benchable base w' \<and>
    kv_view (st w') = fold (\<lambda>j m. m(bench_key (thread_id ctx) j \<mapsto> (VString (bench_value j), 0)))
      [0..<requests_to_run ctx] (kv_view (st w))"
proof -
  have "thread_id ctx < 10 ^ 10" "0 + requests_to_run ctx \<le> 10 ^ 10" using assms(2,3) by simp_all
  from bench_loop_completes [OF assms(1) this, of pid exited fd] assms(4,5) show ?thesis
    by (auto simp: bench_worker_main_def bench_connect_socket_def)
qed

theorem bench_worker_completes_witness:
  "\<exists>w'. bench_worker_main (\<lambda>h. True) 7 True (server_peer 0 True 5) bench_default
      \<lparr>thread_id = 3, requests_to_run = 2, completed_sets = 0, completed_gets = 0, error_count = 0\<rparr>
      (quiet_world 7 (fresh_store 8 0 0)) =
      (\<lparr>thread_id = 3, requests_to_run = 2, completed_sets = 2, completed_gets = 2, error_count = 0\<rparr>,
       [''OK'' @ crlf, ''VALUE '' @ bench_value 0 @ crlf, ''OK'' @ crlf, ''VALUE '' @ bench_value 1 @ crlf], [7], w')"
proof -
  have "benchable 0 (quiet_world 7 (fresh_store 8 0 0))"
    by (simp add: benchable_def ready_def kv_view_def)
  from bench_worker_completes [OF this, of "\<lparr>thread_id = 3, requests_to_run = 2, completed_sets = 0, completed_gets = 0, error_count = 0\<rparr>"
      "\<lambda>h. True" bench_default 7 0 True 5]
  show ?thesis by (auto simp: upt_rec)
qed

text \<open>The pairs announced are not always run: the remainder of the division is dropped, and with more
  threads than requests nothing is sent at all.\<close>

lemma bench_drops_remainder:
  assumes "0 < c" and "0 < n" and "n * 2 < 2 ^ 31"
    and "bench_args args bench_default = Some cfg" and "concurrency cfg = c" and "total_requests cfg = n"
    and "\<And>cfg ctx. completed_sets (run cfg ctx) = requests_to_run ctx"
    and "bench_main args True (\<lambda>i. True) run = Inr (Some (sets, gets, errors))"
  shows "int sets = n - n mod c"
proof -
  have "sets = nat c * nat (n div c)"
    using assms by (auto simp: bench_main_def bench_clamp_def Let_def comp_def sum_list_triv list_all_iff)
  then have "int sets = c * (n div c)" using assms(1,2) by (simp add: pos_imp_zdiv_nonneg_iff)
  then show ?thesis by (simp add: minus_mod_eq_mult_div)
qed

end
