(* ===== verification/Spec2Isabelle.thy ===== *)
theory Spec2Isabelle
  imports KV_Main KV_Rewrite KV_Locks KV_Benchmark
begin

text \<open>
  A verification of \<^emph>\<open>mini-kv-db-server\<close>, an in-memory key-value server in C.

  \<^bold>\<open>The program.\<close> Clients connect over TCP and send lines of text. An event loop reads them, cuts the
  byte stream into commands and queues the commands of each client; a pool of worker threads
  executes them on one shared store and sends the replies. The store is a hash table with
  chained buckets whose values are strings, lists or sets, with deadlines, a limit on the number
  of keys and a memory budget enforced by eviction. Mutations go to an append-only log, which is
  replayed at the next start and can be compacted in the background; the whole store can also be
  saved as a binary snapshot. A second server can follow a first one as a replica. The program
  also has an interactive client, and a benchmark client comes with it.

  \<^bold>\<open>The model.\<close> A command is a function on a \<open>world\<close>: the store (\<open>st\<close>), the log (\<open>aof\<close>), the replication
  state (\<open>repl\<close>), the operating system (\<open>os\<close>) and the trace of lock operations. The operating
  system is an oracle that gives the value of every clock reading and the outcome of every
  allocation and every system call by their number, together with the test hooks of the code
  (\<^verbatim>\<open>kv_set_alloc_fail_countdown\<close>, \<^verbatim>\<open>kv_set_io_fail\<close>); theorems hold for every such oracle unless they
  ask for one without failures. Behaviour that C leaves undefined is a value: a command that can
  reach it returns \<open>Inl\<close> of its kind. A string argument is an optional character list, \<open>None\<close>
  being the null pointer. \<^verbatim>\<open>size_t\<close> and the 64-bit time are numbers with their wrap-around or overflow
  written out where a value can leave its range; checksums and encodings use machine words. What
  is concurrent, the pool and the server, is a transition system whose steps are the sections
  between two points another thread can observe, and its theorems hold in every reachable state.

  \<^bold>\<open>Theories\<close>, in the order in which they build on each other:

  \<^item> \<open>KV_Prelude\<close>: collections of lemmas, kinds of undefined behaviour, arithmetic, and the two contracts
    several components share: \<open>chained_hash\<close> (a table of buckets that places items by a hash) and \<open>fifo\<close>
    (a queue). \<open>KV_Types\<close>: the structures of \<^verbatim>\<open>kv.h\<close> and \<^verbatim>\<open>replication.h\<close>, the \<open>world\<close>, allocation, time, locks.
    \<open>KV_Hash\<close>: validation, hashing, bounded copies, locks of \<^verbatim>\<open>kv.c\<close>; both kinds of table are
    interpretations of \<open>chained_hash\<close>. \<open>KV_Table\<close>: lookup, insertion, expiry, accounting and resizing of
    \<^verbatim>\<open>kv.c\<close>; the invariant \<open>wf_store\<close> says that every entry is valid and in its bucket, keys are distinct
    and the counters are exact. Resizing keeps contents, invariant and budget.
  \<^item> \<open>KV_Evict\<close>: eviction and sweep of \<^verbatim>\<open>eviction.c\<close>. An eviction removes the least recently used of the sampled
    entries, the eviction loop of the commands ends with room or an empty table (contract \<open>eviction_policy\<close>),
    the sweep removes expired entries only.
  \<^item> \<open>KV_Log\<close>, \<open>KV_Text\<close>: writing the log, rolling back, the rewrite buffer and the broadcast (\<^verbatim>\<open>aof.c\<close>,
    \<^verbatim>\<open>replication.c\<close>), and the C library's text functions with the round trip of decimal numbers.
  \<^item> \<open>KV_Store\<close>: \<^verbatim>\<open>SET\<close>, \<^verbatim>\<open>GET\<close>, \<^verbatim>\<open>DELETE\<close>, \<^verbatim>\<open>EXISTS\<close>. Without a budget storing refines an update of a finite map on
    every branch; under a budget it keeps the accounting exact and the budget respected.
  \<^item> \<open>KV_Coll\<close>, \<open>KV_List\<close>, \<open>KV_Sets\<close>, \<open>KV_Expire\<close>: the list and set commands (\<^verbatim>\<open>list.c\<close>, \<^verbatim>\<open>set.c\<close>), lists being a \<open>fifo\<close>, and
    the deadline commands (\<^verbatim>\<open>eviction.c\<close>). Each returns and stores what it should; an entry freed by the
    eviction that makes room for its own element, and overflowing deadlines, are outcomes of their own.
  \<^item> \<open>KV_Env\<close>: what commands leave alone. \<open>KV_Aof\<close>, \<open>KV_Init\<close>: replay, rewriting, merging (\<^verbatim>\<open>aof.c\<close>) and creation and
    destruction of a store (\<^verbatim>\<open>kv.c\<close>). \<open>KV_Durable\<close>: after any history of commands the log alone restores the
    contents, and how a failed command after a restart can destroy the log. \<open>KV_Rewrite\<close>: a background
    rewrite with commands running meanwhile loses nothing.
  \<^item> \<open>KV_Snapshot\<close>: the binary format (\<^verbatim>\<open>snapshot.c\<close>). Loading a saved file restores the live keys, every
    truncated file is rejected, and a bad checksum is noticed only after loading.
  \<^item> \<open>KV_Replication\<close>: replica list, transfer of the snapshot and the replica's thread (\<^verbatim>\<open>replication.c\<close>). A replica
    that gets a connection at last ends up with the master's live keys and the string commands sent
    after them, however the stream was cut.
  \<^item> \<open>KV_Protocol\<close>: all commands of \<^verbatim>\<open>protocol.c\<close> with argument checks and replies. No line breaks the store's
    invariant, replies fit their buffer (member lists: exactly when), replicas are read-only but for
    \<^verbatim>\<open>RPOP\<close>, and a value set is the value got. \<open>KV_Locks\<close>: every line, on every branch, takes its locks in
    one order and releases them all, the last first.
  \<^item> \<open>KV_Pool\<close>: the thread pool (\<^verbatim>\<open>thread_pool.c\<close>), its ring buffer another \<open>fifo\<close>, in every interleaving with spurious
    wakeups: tasks run once and in order, no wakeup is lost, shutdown drains the queue and ends.
  \<^item> \<open>KV_Server\<close>: \<^verbatim>\<open>server.c\<close> as labelled events of the event loop and the workers around the pool and the
    protocol; framing is independent of segmentation, and a failed start leaks nothing. \<open>KV_Session\<close>: the
    invariant of all reachable states. \<open>KV_Service\<close>: exact reference counts, commands in order and one at
    a time, none forgotten, the store sound. \<open>KV_Shutdown\<close>: every socket accounted for, everything released at
    the end, and the freed client that the event loop can use.
  \<^item> \<open>KV_Main\<close>: options, interactive client and life cycle of \<^verbatim>\<open>main.c\<close>; the program started on a log serves its
    contents. \<open>KV_Benchmark\<close>: \<^verbatim>\<open>benchmark.c\<close>, and a worker of it running against the protocol.

  \<^bold>\<open>Correspondence.\<close> Definitions bear the names of the C functions they translate. A long function is cut at its
  inner blocks, and the pieces are composed the way the code runs through them: \<^verbatim>\<open>kv_set_internal\<close>
  has \<open>replace_string\<close>, \<open>overwrite_string\<close> and \<open>insert_string\<close>; \<^verbatim>\<open>server_worker_client_task\<close> has \<open>task_next\<close>,
  \<open>task_execute\<close> and \<open>task_reply\<close>; every command of \<^verbatim>\<open>protocol_execute_command\<close> has a \<open>do_\<close> function. The process
  made by \<^verbatim>\<open>fork\<close> works on the world at that moment, and what it leaves in its file is an argument of the
  function that picks it up. Answers of the kernel to \<^verbatim>\<open>send\<close>, \<^verbatim>\<open>recv\<close>, \<^verbatim>\<open>accept\<close>, \<^verbatim>\<open>waitpid\<close> and the like are
  arguments or labels.

  \<^bold>\<open>Bounds.\<close> Every loop of the store terminates by a measure, without fuel. Loops that wait for the
  outside take the list of answers and end with it; \<open>server_send_all\<close> returns nothing while the answers
  do not let it end. \<open>client_handle_read\<close> takes as many steps as the buffer has bytes plus one, which is enough
  because each step but the last consumes a line. The server has the four workers and the queue of
  1024 tasks of the source; the pool is verified for every size.

  \<^bold>\<open>Not modelled.\<close> The execution of one command is one step of the server: data races between commands inside
  the store are outside, beyond the order and pairing of its locks and the finding that the shard of
  a key need not cover its bucket. The replica's thread runs on its own, not
  interleaved with the workers of its process. Messages on the terminal, the measured times of the
  benchmark, file permissions and the removal of temporary files are left out, as are signals
  beyond the request to stop. Header files that only declare functions have no definitions of
  their own.
\<close>

end
